(* ===== verification/Prelude.thy ===== *)
theory Prelude
  imports Main "HOL-Library.Word"
begin

text \<open>
  Shared vocabulary of the development: bytes, C strings, the decimal numerals that
  \<open>printf\<close> and \<open>apr_itoa\<close> produce, the prefix tests \<open>strncmp\<close> and \<open>strchr\<close> are used for,
  and the lemma collections \<open>cstr\<close>, \<open>decimal\<close> and \<open>cbits\<close> the component theories rely on.

  A C string is a \<open>string\<close> (a list of 8-bit characters) without its terminator; the
  predicate \<open>is_cstr\<close> says that it holds no NUL. Reading position \<open>length s\<close> of a C string
  reads the terminator, which \<open>cbyte\<close> returns as 0.
\<close>

named_theorems cstr \<open>facts on strings that hold no NUL\<close>
named_theorems decimal \<open>facts on decimal numerals\<close>
named_theorems cbits \<open>facts on the bits of bytes and of strings\<close>

type_synonym u8 = "8 word"
type_synonym u32 = "32 word"
type_synonym revnum = int

abbreviation nul :: char where
  "nul \<equiv> CHR 0x00"

abbreviation nl :: string where
  "nl \<equiv> [CHR 0x0A]"

abbreviation slash :: char where
  "slash \<equiv> CHR ''/''"

section \<open>Definitions\<close>

definition is_cstr :: "string \<Rightarrow> bool" where
  "is_cstr s \<longleftrightarrow> nul \<notin> set s"

text \<open>What \<open>strlen\<close> and \<open>printf("%s")\<close> see of a buffer: the bytes before the first NUL.\<close>

definition cstr_of :: "string \<Rightarrow> string" where
  "cstr_of s = takeWhile (\<lambda>c. c \<noteq> nul) s"

text \<open>\<open>strncmp(p, s, strlen(p)) == 0\<close>.\<close>

definition starts_with :: "string \<Rightarrow> string \<Rightarrow> bool" where
  "starts_with s p \<longleftrightarrow> take (length p) s = p"

text \<open>The byte a C program reads at a position of a string: past the end is the terminator.\<close>

definition cbyte :: "string \<Rightarrow> nat \<Rightarrow> u8" where
  "cbyte s i = (if i < length s then of_char (s ! i) else 0)"

definition digit :: "nat \<Rightarrow> char" where
  "digit d = char_of (48 + d)"

text \<open>\<open>printf("%lu")\<close>.\<close>

fun dec_nat :: "nat \<Rightarrow> string" where
  "dec_nat n = (if n < 10 then [digit n] else dec_nat (n div 10) @ [digit (n mod 10)])"

declare dec_nat.simps [simp del]

text \<open>\<open>printf("%ld")\<close>, \<open>printf("%d")\<close> and \<open>apr_itoa\<close>.\<close>

definition dec_int :: "int \<Rightarrow> string" where
  "dec_int i = (if i < 0 then CHR ''-'' # dec_nat (nat (- i)) else dec_nat (nat i))"

text \<open>Reading a numeral back.\<close>

definition undec :: "string \<Rightarrow> nat" where
  "undec s = foldl (\<lambda>a c. 10 * a + (of_char c - 48)) 0 s"

definition is_digit :: "char \<Rightarrow> bool" where
  "is_digit c \<longleftrightarrow> 48 \<le> (of_char c :: nat) \<and> (of_char c :: nat) < 58"

section \<open>C strings\<close>

lemma is_cstr_Nil [simp, cstr]: "is_cstr []"
  by (simp add: is_cstr_def)

lemma is_cstr_Cons [simp, cstr]: "is_cstr (c # s) \<longleftrightarrow> c \<noteq> nul \<and> is_cstr s"
  by (auto simp: is_cstr_def)

lemma is_cstr_append [simp, cstr]: "is_cstr (s @ t) \<longleftrightarrow> is_cstr s \<and> is_cstr t"
  by (auto simp: is_cstr_def)

lemma is_cstr_drop [cstr]: "is_cstr s \<Longrightarrow> is_cstr (drop n s)"
  by (auto simp: is_cstr_def dest: in_set_dropD)

lemma is_cstr_take [cstr]: "is_cstr s \<Longrightarrow> is_cstr (take n s)"
  by (auto simp: is_cstr_def dest: in_set_takeD)

lemma is_cstr_cstr_of [simp, cstr]: "is_cstr (cstr_of s)"
  by (auto simp: is_cstr_def cstr_of_def dest: set_takeWhileD)

lemma cstr_of_id [simp]: "is_cstr s \<Longrightarrow> cstr_of s = s"
  by (induction s) (auto simp: cstr_of_def)

lemma cstr_of_append_nul [simp]: "is_cstr s \<Longrightarrow> cstr_of (s @ nul # t) = s"
  by (induction s) (auto simp: cstr_of_def)

lemma starts_with_iff: "starts_with s p \<longleftrightarrow> (\<exists>t. s = p @ t)"
proof
  assume "starts_with s p"
  then have "s = p @ drop (length p) s"
    by (metis append_take_drop_id starts_with_def)
  then show "\<exists>t. s = p @ t" ..
qed (auto simp: starts_with_def)

lemma starts_with_Nil [simp]: "starts_with s []"
  by (simp add: starts_with_def)

lemma starts_with_self [simp]: "starts_with (p @ t) p"
  by (simp add: starts_with_def)

lemma starts_with_length: "starts_with s p \<Longrightarrow> length p \<le> length s"
  by (auto simp: starts_with_iff)

lemma unat_of_char_u8 [simp]: "unat (of_char c :: u8) = of_char c"
proof -
  have "(of_char c :: u8) = of_nat (of_char c)"
    by (simp add: of_nat_of_char)
  moreover have "of_char c < (2 :: nat) ^ 8"
    by (cases c) (simp add: of_char_def)
  ultimately show ?thesis
    by (simp add: unat_of_nat)
qed

lemma of_char_u8_inj [simp]: "(of_char c :: u8) = of_char d \<longleftrightarrow> c = d"
  by (metis unat_of_char_u8 of_char_eq_iff)

lemma of_char_u8_zero [simp]: "(of_char c :: u8) = 0 \<longleftrightarrow> c = nul"
  using of_char_u8_inj [of c nul] by simp

section \<open>Decimal numerals\<close>

lemma of_char_digit: "d < 10 \<Longrightarrow> of_char (digit d) = 48 + d"
  by (simp add: digit_def of_char_of)

lemma is_digit_digit [simp, decimal]: "d < 10 \<Longrightarrow> is_digit (digit d)"
  by (simp add: is_digit_def of_char_digit)

lemma undec_dec_nat [simp, decimal]: "undec (dec_nat n) = n"
proof (induction n rule: dec_nat.induct)
  case (1 n)
  show ?case
    using "1.IH" by (subst dec_nat.simps) (simp add: undec_def of_char_digit)
qed

lemma dec_nat_digits [decimal]: "c \<in> set (dec_nat n) \<Longrightarrow> is_digit c"
proof (induction n rule: dec_nat.induct)
  case (1 n)
  then show ?case by (subst (asm) dec_nat.simps) (auto split: if_splits)
qed

lemma dec_nat_nonempty [simp, decimal]: "dec_nat n \<noteq> []"
  by (subst dec_nat.simps) simp

lemma dec_nat_inj [simp, decimal]: "dec_nat m = dec_nat n \<longleftrightarrow> m = n"
  by (metis undec_dec_nat)

lemma not_digit [simp]: "\<not> is_digit (CHR ''-'')" "\<not> is_digit (CHR 0x0A)" "\<not> is_digit nul" "\<not> is_digit (CHR '' '')"
  by (simp_all add: is_digit_def)

lemma dec_int_inj [simp, decimal]: "dec_int i = dec_int j \<longleftrightarrow> i = j"
proof
  assume "dec_int i = dec_int j"
  moreover have "dec_nat n \<noteq> CHR ''-'' # s" for n s
    using dec_nat_digits [of "CHR ''-''" n] by auto
  ultimately show "i = j"
    unfolding dec_int_def
    by (cases "i < 0"; cases "j < 0") (auto simp: eq_nat_nat_iff dest: sym)
qed simp

lemma is_cstr_dec_nat [simp, cstr]: "is_cstr (dec_nat n)"
  using dec_nat_digits [of nul n] by (auto simp: is_cstr_def)

lemma is_cstr_dec_int [simp, cstr]: "is_cstr (dec_int i)"
  by (simp add: dec_int_def)

text \<open>Going on behind the first slash of a path makes it shorter.\<close>

lemma behind_slash_less: "slash \<in> set s \<Longrightarrow> length (drop 1 (dropWhile (\<lambda>c. c \<noteq> slash) s)) < length s"
proof (induction s)
  case (Cons c s)
  then show ?case by (cases "c = slash") auto
qed simp

section \<open>Machine integers\<close>

text \<open>The value of an \<open>int\<close> variable of 32 bits that a wider value is converted to.\<close>

definition c_int :: "int \<Rightarrow> int" where
  "c_int n = sint (word_of_int n :: 32 word)"

lemma c_int_id: "- (2 ^ 31) \<le> n \<Longrightarrow> n < 2 ^ 31 \<Longrightarrow> c_int n = n"
  by (simp add: c_int_def sint_sbintrunc' signed_take_bit_int_eq_self)

lemma c_int_zero [simp]: "c_int 0 = 0"
  by (simp add: c_int_id)

lemma c_int_add_left: "c_int (c_int m + n) = c_int (m + n)"
  by (simp add: c_int_def)

lemma c_int_le: "0 \<le> n \<Longrightarrow> c_int n \<le> n"
proof -
  assume n: "0 \<le> n"
  show ?thesis
  proof (cases "n < 2 ^ 31")
    case False
    moreover have "c_int n < 2 ^ 31" using sint_lt [of "word_of_int n :: 32 word"] by (simp add: c_int_def)
    ultimately show ?thesis by linarith
  qed (use n in \<open>simp add: c_int_id\<close>)
qed

end
