(* ===== verification/Interfaces.thy ===== *)
theory Interfaces
  imports Prelude
begin

text \<open>
  The contracts between the components, as locales. \<open>hash_map\<close> is what \<open>mukv.c\<close> needs of
  \<open>rhash.c\<close>, \<open>kv_store\<close> what \<open>path_repo.c\<close> and \<open>property.c\<close> need of \<open>mukv.c\<close>, and
  \<open>string_set\<close> what \<open>path_repo.c\<close> needs of the crit-bit tree. Each is interpreted on the model
  of the component that provides it, in that component's theory.
\<close>

section \<open>Replaying a list of scheduled actions\<close>

text \<open>An action is a character and a path; \<open>'+'\<close> adds the path, any other deletes it.\<close>

type_synonym action = "char \<times> string"

fun replay :: "('t \<Rightarrow> string \<Rightarrow> int \<times> 't) \<Rightarrow> ('t \<Rightarrow> string \<Rightarrow> int \<times> 't) \<Rightarrow> 't \<Rightarrow> action list \<Rightarrow> 't" where
  "replay add del t [] = t"
| "replay add del t ((a, p) # es) =
     replay add del (snd (if a = CHR ''+'' then add t p else del t p)) es"

fun set_replay :: "string set \<Rightarrow> action list \<Rightarrow> string set" where
  "set_replay S [] = S"
| "set_replay S ((a, p) # es) = set_replay (if a = CHR ''+'' then insert p S else S - {p}) es"

lemma set_replay_append [simp]: "set_replay S (es @ fs) = set_replay (set_replay S es) fs"
  by (induction S es rule: set_replay.induct) auto

lemma set_replay_adds: "set_replay S (map (Pair CHR ''+'') ps) = S \<union> set ps"
  by (induction ps arbitrary: S) auto

lemma set_replay_dels: "set_replay S (map (Pair CHR ''-'') ps) = S - set ps"
  by (induction ps arbitrary: S) auto

section \<open>A set of strings\<close>

locale string_set =
  fixes elems :: "'t \<Rightarrow> string set"
    and ok :: "'t \<Rightarrow> bool"
    and key :: "string \<Rightarrow> bool"
    and mem :: "'t \<Rightarrow> string \<Rightarrow> bool"
    and ins :: "'t \<Rightarrow> string \<Rightarrow> int \<times> 't"
    and del :: "'t \<Rightarrow> string \<Rightarrow> int \<times> 't"
  assumes mem_iff: "ok t \<Longrightarrow> mem t x \<longleftrightarrow> x \<in> elems t"
    and ok_ins: "ok t \<Longrightarrow> key x \<Longrightarrow> ok (snd (ins t x))"
    and elems_ins: "ok t \<Longrightarrow> key x \<Longrightarrow> elems (snd (ins t x)) = insert x (elems t)"
    and ins_status: "ok t \<Longrightarrow> key x \<Longrightarrow> fst (ins t x) = (if x \<in> elems t then 1 else 0)"
    and ok_del: "ok t \<Longrightarrow> ok (snd (del t x))"
    and elems_del: "ok t \<Longrightarrow> elems (snd (del t x)) = elems t - {x}"
begin

lemma replay_refines:
  "ok t \<Longrightarrow> \<forall>e \<in> set es. key (snd e) \<Longrightarrow>
     ok (replay ins del t es) \<and> elems (replay ins del t es) = set_replay (elems t) es"
proof (induction es arbitrary: t)
  case (Cons e es)
  then show ?case
    by (cases e) (simp add: ok_ins elems_ins ok_del elems_del)
qed simp

end

section \<open>A hash from strings to values\<close>

locale hash_map =
  fixes get :: "'h \<Rightarrow> string \<Rightarrow> 'v option"
    and put :: "'h \<Rightarrow> string \<Rightarrow> 'v option \<Rightarrow> 'h"
    and ok :: "'h \<Rightarrow> bool"
  assumes ok_put: "ok h \<Longrightarrow> ok (put h k v)"
    and get_put: "ok h \<Longrightarrow> get (put h k v) k' = (if k' = k then v else get h k')"
begin

lemma get_put_same: "ok h \<Longrightarrow> get (put h k v) k = v"
  by (simp add: get_put)

lemma get_put_other: "ok h \<Longrightarrow> k' \<noteq> k \<Longrightarrow> get (put h k v) k' = get h k'"
  by (simp add: get_put)

lemma get_put_fun: "ok h \<Longrightarrow> get (put h k v) = (get h)(k := v)"
  by (simp add: fun_eq_iff get_put)

end

section \<open>A key-value store whose reads move its file position\<close>

locale kv_store =
  fixes abs :: "'s \<Rightarrow> string \<Rightarrow> string option"
    and ok :: "'s \<Rightarrow> bool"
    and store :: "'s \<Rightarrow> string \<Rightarrow> string \<Rightarrow> int \<times> 's"
    and fetch :: "'s \<Rightarrow> string \<Rightarrow> string option \<times> 's"
    and del :: "'s \<Rightarrow> string \<Rightarrow> int \<times> 's"
    and exists :: "'s \<Rightarrow> string \<Rightarrow> bool"
  assumes ok_store: "ok s \<Longrightarrow> ok (snd (store s k v))"
    and abs_store: "ok s \<Longrightarrow> fst (store s k v) = 0 \<Longrightarrow> abs (snd (store s k v)) = (abs s)(k \<mapsto> v)"
    and abs_store_fail: "ok s \<Longrightarrow> fst (store s k v) \<noteq> 0 \<Longrightarrow> abs (snd (store s k v)) = abs s"
    and ok_fetch: "ok s \<Longrightarrow> ok (snd (fetch s k))"
    and abs_fetch: "ok s \<Longrightarrow> abs (snd (fetch s k)) = abs s"
    and fetch_val: "ok s \<Longrightarrow> fst (fetch s k) = abs s k"
    and ok_del: "ok s \<Longrightarrow> ok (snd (del s k))"
    and abs_del: "ok s \<Longrightarrow> abs (snd (del s k)) = (abs s)(k := None)"
    and del_status: "ok s \<Longrightarrow> fst (del s k) = 0"
    and exists_iff: "ok s \<Longrightarrow> exists s k \<longleftrightarrow> abs s k \<noteq> None"
begin

lemmas ok_kv = ok_store ok_fetch ok_del
lemmas abs_kv = abs_store abs_store_fail abs_fetch abs_del fetch_val exists_iff

lemma fetch_after_store:
  "ok s \<Longrightarrow> fst (store s k v) = 0 \<Longrightarrow>
     fst (fetch (snd (store s k v)) k') = (if k' = k then Some v else fst (fetch s k'))"
  by (simp add: ok_kv abs_kv)

lemma fetch_after_delete:
  "ok s \<Longrightarrow> fst (fetch (snd (del s k)) k') = (if k' = k then None else fst (fetch s k'))"
  by (simp add: ok_kv abs_kv)

lemma fetch_after_fetch:
  "ok s \<Longrightarrow> fst (fetch (snd (fetch s k)) k') = fst (fetch s k')"
  by (simp add: ok_kv abs_kv)

end

end
