(* ===== verification/Critbit.thy ===== *)
theory Critbit
  imports Interfaces
begin

text \<open>
  The crit-bit tree of \<open>lib/critbit89/critbit.c\<close>: the set of paths the path repository keeps.

  A tagged \<open>void *\<close> of the source is a value of \<open>cb\<close>: an even pointer is a \<open>Leaf\<close> holding
  the string, an odd one a \<open>Node\<close> with its two children, the number of the byte it tests and
  the complement mask of the bit. A \<open>cb_tree_t\<close> is the record \<open>cb_tree\<close>; its allocator is a
  function pointer of the struct, modelled by whether a request succeeds, so that the
  \<open>ENOMEM\<close> exits are branches of the model. Memory that is freed is not represented: the tree
  owns its nodes and the model drops them. Strings are shorter than \<open>2 ^ 32\<close> bytes (the
  \<open>uint32_t\<close> byte counter of the source does not wrap).

  The proofs read a string as its infinite sequence of bits (\<open>bitat\<close>, most significant bit of
  each byte first, zeros past the end). A node tests one index of that sequence
  (\<open>cb_index\<close>), and the invariant \<open>cb_inv\<close> says that indices grow downwards, that the
  strings below a node agree before its index and that the index separates its children.
\<close>

unbundle bit_operations_syntax

section \<open>Definitions\<close>

datatype cb = Leaf string | Node cb cb u32 u8

record cb_tree =
  root :: "cb option"
  malloc_align :: "nat \<Rightarrow> nat \<Rightarrow> bool"

definition ENOMEM :: int where
  "ENOMEM = 12"

definition sizeof_voidp :: nat where
  "sizeof_voidp = 8"

definition sizeof_cb_node :: nat where
  "sizeof_cb_node = 24"

text \<open>
  Allocators say whether an allocation succeeds. The standard one calls \<open>posix_memalign\<close>, whose
  answer for an alignment and a size is the argument \<open>memalign\<close>: it may refuse an alignment or be out of
  memory.
\<close>

type_synonym memalign = "nat \<Rightarrow> nat \<Rightarrow> bool"

definition malloc_align_std :: "memalign \<Rightarrow> nat \<Rightarrow> nat \<Rightarrow> bool" where
  "malloc_align_std memalign alignment sz \<longleftrightarrow> memalign alignment sz"

definition cb_tree_make :: "memalign \<Rightarrow> cb_tree" where
  "cb_tree_make memalign = \<lparr>root = None, malloc_align = malloc_align_std memalign\<rparr>"

text \<open>\<open>direction = (1 + (q->otherbits | c)) >> 8\<close>, in 32-bit arithmetic.\<close>

definition cb_direction :: "u32 \<Rightarrow> u8 \<Rightarrow> nat" where
  "cb_direction otherbits c = unat (drop_bit 8 (1 + (otherbits OR ucast c)))"

text \<open>The walk down to a leaf that \<open>cb_tree_contains\<close>, \<open>cb_tree_insert\<close> and
  \<open>cb_tree_delete\<close> start with.\<close>

primrec cb_walk :: "cb \<Rightarrow> string \<Rightarrow> string" where
  "cb_walk (Leaf s) str = s"
| "cb_walk (Node l r b ob) str =
     (if cb_direction (ucast ob) (cbyte str (unat b)) = 0 then cb_walk l str else cb_walk r str)"

definition cb_tree_contains :: "cb_tree \<Rightarrow> string \<Rightarrow> bool" where
  "cb_tree_contains t str =
     (case root t of None \<Rightarrow> False | Some p \<Rightarrow> str = cb_walk p str)"

text \<open>The byte loop of \<open>cb_tree_insert\<close> and the test after it: the first byte in which the
  leaf \<open>p\<close> and the new string differ, with the exclusive or of the two bytes.\<close>

function crit_diff :: "string \<Rightarrow> string \<Rightarrow> nat \<Rightarrow> (nat \<times> u8) option" where
  "crit_diff p str newbyte =
     (if newbyte < length str
      then if cbyte p newbyte \<noteq> cbyte str newbyte
           then Some (newbyte, cbyte p newbyte XOR cbyte str newbyte)
           else crit_diff p str (Suc newbyte)
      else if cbyte p newbyte \<noteq> 0 then Some (newbyte, cbyte p newbyte)
      else None)"
  by pat_completeness auto
termination
  by (relation "measure (\<lambda>(p, str, i). length str - i)") auto

declare crit_diff.simps [simp del]

text \<open>The smearing of the differing bits down to the mask of all bits but the highest.\<close>

definition crit_otherbits :: "u8 \<Rightarrow> u32" where
  "crit_otherbits x =
     (let n = ucast x; n = n OR drop_bit 1 n; n = n OR drop_bit 2 n; n = n OR drop_bit 4 n
      in (n AND NOT (drop_bit 1 n)) XOR 255)"

definition cb_newnode :: "string \<Rightarrow> u32 \<Rightarrow> u32 \<Rightarrow> nat \<Rightarrow> cb \<Rightarrow> cb" where
  "cb_newnode x newbyte newotherbits newdirection sub =
     (if newdirection = 0 then Node sub (Leaf x) newbyte (ucast newotherbits)
      else Node (Leaf x) sub newbyte (ucast newotherbits))"

text \<open>The loop that finds the place of the new node (\<open>wherep\<close>) and hangs it in.\<close>

primrec cb_hang :: "cb \<Rightarrow> string \<Rightarrow> u32 \<Rightarrow> u32 \<Rightarrow> nat \<Rightarrow> cb" where
  "cb_hang (Leaf p) x nb nob nd = cb_newnode x nb nob nd (Leaf p)"
| "cb_hang (Node l r b ob) x nb nob nd =
     (if b > nb then cb_newnode x nb nob nd (Node l r b ob)
      else if b = nb \<and> ucast ob > nob then cb_newnode x nb nob nd (Node l r b ob)
      else if cb_direction (ucast ob) (cbyte x (unat b)) = 0
      then Node (cb_hang l x nb nob nd) r b ob
      else Node l (cb_hang r x nb nob nd) b ob)"

definition cb_tree_insert :: "cb_tree \<Rightarrow> string \<Rightarrow> int \<times> cb_tree" where
  "cb_tree_insert t str =
     (case root t of
        None \<Rightarrow>
          if \<not> malloc_align t sizeof_voidp (length str + 1) then (ENOMEM, t)
          else (0, t\<lparr>root := Some (Leaf str)\<rparr>)
      | Some p0 \<Rightarrow>
          (let p = cb_walk p0 str
           in case crit_diff p str 0 of
                None \<Rightarrow> (1, t)
              | Some (newbyte, x) \<Rightarrow>
                  let nob = crit_otherbits x;
                      nd = cb_direction nob (cbyte p newbyte)
                  in if \<not> malloc_align t sizeof_voidp sizeof_cb_node then (ENOMEM, t)
                     else if \<not> malloc_align t sizeof_voidp (length str + 1) then (ENOMEM, t)
                     else (0, t\<lparr>root := Some (cb_hang p0 str (of_nat newbyte) nob nd)\<rparr>)))"

text \<open>Unlinking: the parent of the leaf (\<open>whereq\<close>) is replaced by the leaf's sibling.\<close>

fun cb_unlink :: "cb \<Rightarrow> string \<Rightarrow> cb option" where
  "cb_unlink (Leaf s) str = None"
| "cb_unlink (Node l r b ob) str =
     (if cb_direction (ucast ob) (cbyte str (unat b)) = 0
      then (case cb_unlink l str of None \<Rightarrow> Some r | Some l' \<Rightarrow> Some (Node l' r b ob))
      else (case cb_unlink r str of None \<Rightarrow> Some l | Some r' \<Rightarrow> Some (Node l r' b ob)))"

definition cb_tree_delete :: "cb_tree \<Rightarrow> string \<Rightarrow> int \<times> cb_tree" where
  "cb_tree_delete t str =
     (case root t of
        None \<Rightarrow> (1, t)
      | Some p0 \<Rightarrow>
          if str \<noteq> cb_walk p0 str then (1, t)
          else (0, t\<lparr>root := cb_unlink p0 str\<rparr>))"

definition cb_tree_clear :: "cb_tree \<Rightarrow> cb_tree" where
  "cb_tree_clear t = t\<lparr>root := None\<rparr>"

text \<open>The traversal stops at the first callback that returns non-zero.\<close>

fun cbt_traverse_prefixed :: "cb \<Rightarrow> (string \<Rightarrow> 'a \<Rightarrow> int \<times> 'a) \<Rightarrow> 'a \<Rightarrow> int \<times> 'a" where
  "cbt_traverse_prefixed (Leaf s) callback baton = callback s baton"
| "cbt_traverse_prefixed (Node l r b ob) callback baton =
     (case cbt_traverse_prefixed l callback baton of
        (ret, baton') \<Rightarrow>
          if ret \<noteq> 0 then (ret, baton')
          else (case cbt_traverse_prefixed r callback baton' of
                  (ret', baton'') \<Rightarrow> if ret' \<noteq> 0 then (ret', baton'') else (0, baton'')))"

text \<open>The walk of \<open>cb_tree_walk_prefixed\<close>: \<open>top\<close> follows \<open>p\<close> while the tested byte lies inside
  the prefix.\<close>

primrec cb_top :: "cb \<Rightarrow> cb \<Rightarrow> string \<Rightarrow> cb" where
  "cb_top (Leaf s) tp prefix = tp"
| "cb_top (Node l r b ob) tp prefix =
     (if cb_direction (ucast ob) (cbyte prefix (unat b)) = 0
      then cb_top l (if unat b < length prefix then l else tp) prefix
      else cb_top r (if unat b < length prefix then r else tp) prefix)"

definition cb_tree_walk_prefixed ::
  "cb_tree \<Rightarrow> string \<Rightarrow> (string \<Rightarrow> 'a \<Rightarrow> int \<times> 'a) \<Rightarrow> 'a \<Rightarrow> int \<times> 'a" where
  "cb_tree_walk_prefixed t prefix callback baton =
     (case root t of
        None \<Rightarrow> (0, baton)
      | Some p \<Rightarrow> cbt_traverse_prefixed (cb_top p p prefix) callback baton)"

section \<open>Strings as bit sequences\<close>

definition bitat :: "string \<Rightarrow> nat \<Rightarrow> bool" where
  "bitat s j = bit (cbyte s (j div 8)) (7 - j mod 8)"

definition agree :: "nat \<Rightarrow> string \<Rightarrow> string \<Rightarrow> bool" where
  "agree n s t \<longleftrightarrow> (\<forall>i < n. bitat s i = bitat t i)"

text \<open>A mask with exactly one zero, at the bit of rank \<open>i\<close> counted from the top.\<close>

definition ob_of :: "nat \<Rightarrow> u8" where
  "ob_of i = NOT (push_bit (7 - i) 1)"

definition ob_rank :: "u8 \<Rightarrow> nat" where
  "ob_rank ob = length (takeWhile (bit ob) [7, 6, 5, 4, 3, 2, 1, 0])"

definition cb_index :: "u32 \<Rightarrow> u8 \<Rightarrow> nat" where
  "cb_index b ob = 8 * unat b + ob_rank ob"

definition ob_ok :: "u8 \<Rightarrow> bool" where
  "ob_ok ob \<longleftrightarrow> ob_rank ob < 8 \<and> ob = ob_of (ob_rank ob)"

primrec leaves :: "cb \<Rightarrow> string list" where
  "leaves (Leaf s) = [s]"
| "leaves (Node l r b ob) = leaves l @ leaves r"

definition keys :: "cb_tree \<Rightarrow> string list" where
  "keys t = (case root t of None \<Rightarrow> [] | Some p \<Rightarrow> leaves p)"

definition is_key :: "string \<Rightarrow> bool" where
  "is_key s \<longleftrightarrow> is_cstr s \<and> length s < 2 ^ 32"

primrec cb_inv :: "nat \<Rightarrow> cb \<Rightarrow> bool" where
  "cb_inv lo (Leaf s) \<longleftrightarrow> is_key s"
| "cb_inv lo (Node l r b ob) \<longleftrightarrow>
     ob_ok ob \<and> lo \<le> cb_index b ob \<and>
     cb_inv (Suc (cb_index b ob)) l \<and> cb_inv (Suc (cb_index b ob)) r \<and>
     (\<forall>s \<in> set (leaves l). \<not> bitat s (cb_index b ob)) \<and>
     (\<forall>s \<in> set (leaves r). bitat s (cb_index b ob)) \<and>
     (\<forall>s \<in> set (leaves l). \<forall>t \<in> set (leaves r). agree (cb_index b ob) s t)"

definition cb_tree_ok :: "cb_tree \<Rightarrow> bool" where
  "cb_tree_ok t \<longleftrightarrow> (case root t of None \<Rightarrow> True | Some p \<Rightarrow> cb_inv 0 p)"

text \<open>\<open>strcmp(s, t) < 0\<close>: lexicographic in the unsigned bytes.\<close>

fun strcmp_less :: "string \<Rightarrow> string \<Rightarrow> bool" where
  "strcmp_less _ [] = False"
| "strcmp_less [] (d # t) = True"
| "strcmp_less (c # s) (d # t) \<longleftrightarrow>
     (of_char c :: nat) < of_char d \<or> (c = d \<and> strcmp_less s t)"

text \<open>A tree whose allocator does not run out of memory: what \<open>cb_tree_make\<close> starts, with such an
  allocator, and every operation keeps.\<close>

definition mem_enough :: "memalign \<Rightarrow> bool" where
  "mem_enough memalign \<longleftrightarrow> (\<forall>sz. memalign sizeof_voidp sz)"

definition tree_ok :: "cb_tree \<Rightarrow> bool" where
  "tree_ok t \<longleftrightarrow> cb_tree_ok t \<and> mem_enough (malloc_align t)"

definition memory :: memalign where
  "memory alignment sz = True"

definition elems :: "cb_tree \<Rightarrow> string set" where
  "elems t = set (keys t)"

text \<open>A small tree for the examples below.\<close>

definition demo_tree :: cb_tree where
  "demo_tree = snd (cb_tree_insert (snd (cb_tree_insert (snd (cb_tree_insert (cb_tree_make memory) ''a'')) ''ab'')) ''b'')"

subsection \<open>Bit facts\<close>

lemma ob_rank_ob_of: "i < 8 \<Longrightarrow> ob_rank (ob_of i) = i"
proof -
  assume "i < 8"
  then consider "i = 0" | "i = 1" | "i = 2" | "i = 3" | "i = 4" | "i = 5" | "i = 6" | "i = 7"
    by linarith
  then show ?thesis
    by cases (simp_all add: ob_rank_def ob_of_def bit_simps)
qed

lemma ob_ok_ob_of [simp]: "i < 8 \<Longrightarrow> ob_ok (ob_of i)"
  by (simp add: ob_ok_def ob_rank_ob_of)

lemma bit_ob_of: "i < 8 \<Longrightarrow> bit (ob_of i) k \<longleftrightarrow> k < 8 \<and> k \<noteq> 7 - i"
  by (auto simp: ob_of_def bit_simps)

lemma unat_minus_one_255: "unat (-1 :: u8) = 255"
  by code_simp

lemma unat_u8_less: "unat (w :: u8) < 256"
  using unsigned_less [of w] by simp

lemma unat_direction: "cb_direction (ucast (ob :: u8)) c = (1 + unat (ob OR c)) div 256"
proof -
  have *: "(ucast ob OR ucast c :: u32) = ucast (ob OR c)"
    by (rule bit_word_eqI) (auto simp: bit_simps)
  have "unat (1 + ucast (ob OR c) :: u32) = 1 + unat (ob OR c)"
  proof -
    have "unat (ob OR c) < 256" by (rule unat_u8_less)
    then show ?thesis
      by (simp add: unat_word_ariths unsigned_ucast_eq take_bit_nat_eq_self)
  qed
  then show ?thesis
    unfolding cb_direction_def * unat_drop_bit_eq by (simp add: drop_bit_eq_div)
qed

lemma ob_of_or: "i < 8 \<Longrightarrow> unat (ob_of i OR c) = 255 \<longleftrightarrow> bit c (7 - i)"
proof -
  assume i: "i < 8"
  have "unat (ob_of i OR c) = 255 \<longleftrightarrow> ob_of i OR c = (-1 :: u8)"
    by (simp add: word_unat_eq_iff unat_minus_one_255)
  also have "\<dots> \<longleftrightarrow> bit c (7 - i)"
  proof
    assume "ob_of i OR c = -1"
    then have "bit (ob_of i OR c) (7 - i)" by (simp only:) (simp add: bit_simps)
    then show "bit c (7 - i)" using i by (simp add: bit_simps bit_ob_of)
  next
    assume "bit c (7 - i)"
    then show "ob_of i OR c = -1"
      by (intro bit_word_eqI) (auto simp: bit_simps bit_ob_of i)
  qed
  finally show ?thesis .
qed

lemma cb_direction_ob_of:
  assumes "i < 8"
  shows "cb_direction (ucast (ob_of i)) c = of_bool (bit c (7 - i))"
proof (cases "bit c (7 - i)")
  case True
  then have "unat (ob_of i OR c) = 255" by (simp add: ob_of_or assms)
  then show ?thesis using True by (simp add: unat_direction)
next
  case False
  then have "unat (ob_of i OR c) \<noteq> 255" by (simp add: ob_of_or assms)
  moreover have "unat (ob_of i OR c) < 256" by (rule unat_u8_less)
  ultimately have "1 + unat (ob_of i OR c) < 256" by linarith
  then show ?thesis using False by (simp add: unat_direction)
qed

lemma bitat_index: "ob_rank ob < 8 \<Longrightarrow> bitat s (cb_index b ob) = bit (cbyte s (unat b)) (7 - ob_rank ob)"
  by (simp add: bitat_def cb_index_def)

text \<open>A node of a well-formed tree sends a string to the side of its bit.\<close>

lemma cb_direction_bitat [cbits]:
  "ob_ok ob \<Longrightarrow> cb_direction (ucast ob) (cbyte s (unat b)) = of_bool (bitat s (cb_index b ob))"
  using cb_direction_ob_of [of "ob_rank ob" "cbyte s (unat b)"]
  by (simp add: ob_ok_def bitat_index)

lemma crit_otherbits_eq:
  assumes i: "i < 8" and hi: "bit x (7 - i)" and above: "\<And>j. j < i \<Longrightarrow> \<not> bit x (7 - j)"
  shows "crit_otherbits x = ucast (ob_of i)"
proof -
  define k where "k = 7 - i"
  have k: "k < 8" "7 - i = k" "bit x k" using i hi by (auto simp: k_def)
  have top: "\<not> bit x m" if "k < m" for m
  proof (cases "m < 8")
    case True
    then have "7 - (7 - m) = m" "7 - m < i" using that i by (auto simp: k_def)
    then show ?thesis using above by metis
  next
    case False
    then show ?thesis using bit_imp_le_length [of x m] by auto
  qed
  define S :: "nat \<Rightarrow> bool" where
    "S m \<longleftrightarrow> bit x m \<or> bit x (m+1) \<or> bit x (m+2) \<or> bit x (m+3) \<or>
      bit x (m+4) \<or> bit x (m+5) \<or> bit x (m+6) \<or> bit x (m+7)" for m
  have S: "S m \<longleftrightarrow> m \<le> k" for m
  proof
    assume "S m"
    then obtain d where "bit x (m + d)" unfolding S_def by (metis add_0_right)
    then show "m \<le> k" using top [of "m + d"] by (cases "k < m + d") auto
  next
    assume "m \<le> k"
    then obtain d where d: "k = m + d" using le_Suc_ex by blast
    then consider "d = 0" | "d = 1" | "d = 2" | "d = 3" | "d = 4" | "d = 5" | "d = 6" | "d = 7"
      using k by linarith
    then show "S m" using k(3) unfolding S_def d by cases simp_all
  qed
  define n1 n2 n3 :: u32 where
    "n1 = ucast x OR drop_bit 1 (ucast x)" and "n2 = n1 OR drop_bit 2 n1" and "n3 = n2 OR drop_bit 4 n2"
  have x8: "bit (ucast x :: u32) m = bit x m" for m
    using bit_imp_le_length [of x m] by (auto simp: bit_simps)
  have n1: "bit n1 m \<longleftrightarrow> bit x m \<or> bit x (m + 1)" for m
    by (simp add: n1_def bit_or_iff bit_drop_bit_eq x8 add.commute)
  have n2: "bit n2 m \<longleftrightarrow> bit n1 m \<or> bit n1 (m + 2)" for m
    by (simp add: n2_def bit_or_iff bit_drop_bit_eq add.commute)
  have "bit n3 m \<longleftrightarrow> bit n2 m \<or> bit n2 (m + 4)" for m
    by (simp add: n3_def bit_or_iff bit_drop_bit_eq add.commute)
  then have n3: "bit n3 m \<longleftrightarrow> m \<le> k" for m
    unfolding S [symmetric] S_def n2 n1 by (simp add: numeral_eq_Suc disj_ac)
  have "crit_otherbits x = (n3 AND NOT (drop_bit 1 n3)) XOR 255"
    by (simp only: crit_otherbits_def n1_def n2_def n3_def Let_def)
  also have "\<dots> = ucast (ob_of i)"
  proof (rule bit_word_eqI)
    fix m assume m: "m < LENGTH(32)"
    have "bit (255 :: u32) m \<longleftrightarrow> m < 8"
      using bit_mask_iff [of 8 m, where 'a = u32] m by (simp add: mask_eq_exp_minus_1)
    then show "bit ((n3 AND NOT (drop_bit 1 n3)) XOR 255) m = bit (ucast (ob_of i) :: u32) m"
      using m k by (auto simp: bit_simps n3 bit_ob_of i)
  qed
  finally show ?thesis .
qed

subsection \<open>Agreement of bit sequences\<close>

lemma agree_refl [simp]: "agree n s s"
  by (simp add: agree_def)

lemma agree_sym: "agree n s t \<Longrightarrow> agree n t s"
  by (simp add: agree_def)

lemma agree_trans: "agree n s t \<Longrightarrow> agree n t u \<Longrightarrow> agree n s u"
  by (simp add: agree_def)

lemma agree_mono: "agree n s t \<Longrightarrow> m \<le> n \<Longrightarrow> agree m s t"
  by (simp add: agree_def)

lemma agree_bit: "agree n s t \<Longrightarrow> i < n \<Longrightarrow> bitat s i = bitat t i"
  by (simp add: agree_def)

lemma bitat_byte: "i < 8 \<Longrightarrow> bitat s (8 * n + i) = bit (cbyte s n) (7 - i)"
  by (simp add: bitat_def)

lemma cbyte_eq_iff: "cbyte s n = cbyte t n \<longleftrightarrow> (\<forall>i < 8. bitat s (8 * n + i) = bitat t (8 * n + i))"
proof
  assume "cbyte s n = cbyte t n"
  then show "\<forall>i < 8. bitat s (8 * n + i) = bitat t (8 * n + i)"
    by (simp add: bitat_def)
next
  assume *: "\<forall>i < 8. bitat s (8 * n + i) = bitat t (8 * n + i)"
  show "cbyte s n = cbyte t n"
  proof (rule bit_word_eqI)
    fix k assume "k < LENGTH(8)"
    then have "7 - k < 8" "7 - (7 - k) = k" by auto
    then show "bit (cbyte s n) k = bit (cbyte t n) k"
      using * [rule_format, of "7 - k"] bitat_byte by metis
  qed
qed

lemma agree_bytes: "agree (8 * n) s t \<longleftrightarrow> (\<forall>m < n. cbyte s m = cbyte t m)"
proof
  assume "agree (8 * n) s t"
  then show "\<forall>m < n. cbyte s m = cbyte t m"
    by (auto simp: cbyte_eq_iff agree_def)
next
  assume *: "\<forall>m < n. cbyte s m = cbyte t m"
  have "bitat s i = bitat t i" if "i < 8 * n" for i
    using * that by (simp add: bitat_def)
  then show "agree (8 * n) s t" by (simp add: agree_def)
qed

lemma is_cstr_cbyte: "is_cstr s \<Longrightarrow> cbyte s i = 0 \<longleftrightarrow> length s \<le> i"
  by (auto simp: cbyte_def is_cstr_def in_set_conv_nth)

lemma cbyte_nth: "cbyte s i = cbyte t i \<Longrightarrow> i < length s \<Longrightarrow> i < length t \<Longrightarrow> s ! i = t ! i"
  by (simp add: cbyte_def)

text \<open>A prefix test reads the same bytes as a test of the first bits.\<close>

lemma starts_with_agree:
  assumes "is_cstr s" "is_cstr p"
  shows "starts_with s p \<longleftrightarrow> agree (8 * length p) s p"
proof
  assume "starts_with s p"
  then show "agree (8 * length p) s p"
    by (auto simp: agree_bytes starts_with_iff cbyte_def nth_append)
next
  assume a: "agree (8 * length p) s p"
  have len: "length p \<le> length s"
  proof (rule ccontr)
    assume "\<not> length p \<le> length s"
    then have "cbyte s (length s) = cbyte p (length s)" using a by (simp add: agree_bytes)
    then have "cbyte p (length s) = 0" by (simp add: cbyte_def)
    then show False using is_cstr_cbyte [OF assms(2)] \<open>\<not> length p \<le> length s\<close> by simp
  qed
  have "take (length p) s = p"
  proof (rule nth_equalityI)
    fix i assume "i < length (take (length p) s)"
    then show "take (length p) s ! i = p ! i"
      using a len cbyte_nth [of s i p] by (simp add: agree_bytes)
  qed (use len in simp)
  then show "starts_with s p" by (simp add: starts_with_def)
qed

lemma cstr_eqI:
  assumes "is_cstr s" "is_cstr t" "\<And>i. cbyte s i = cbyte t i"
  shows "s = t"
proof (rule nth_equalityI)
  show len: "length s = length t"
    using assms is_cstr_cbyte by (metis le_antisym order_refl)
  show "s ! i = t ! i" if "i < length s" for i
    using that len by (intro cbyte_nth [OF assms(3)]) simp_all
qed

subsection \<open>The first difference\<close>

lemma crit_diff_Some:
  "crit_diff p str i = Some (n, x) \<Longrightarrow>
     i \<le> n \<and> n \<le> max i (length str) \<and> x = cbyte p n XOR cbyte str n \<and>
     cbyte p n \<noteq> cbyte str n \<and> (\<forall>m. i \<le> m \<and> m < n \<longrightarrow> cbyte p m = cbyte str m)"
proof (induction p str i rule: crit_diff.induct)
  case (1 p str i)
  consider (found) "i < length str" "cbyte p i \<noteq> cbyte str i"
    | (more) "i < length str" "cbyte p i = cbyte str i"
    | (stop) "\<not> i < length str"
    by blast
  then show ?case
  proof cases
    case more
    then have "crit_diff p str (Suc i) = Some (n, x)"
      using "1.prems" by (simp add: crit_diff.simps [of p str i])
    then have "Suc i \<le> n \<and> n \<le> max (Suc i) (length str) \<and> x = cbyte p n XOR cbyte str n \<and>
     cbyte p n \<noteq> cbyte str n \<and> (\<forall>m. Suc i \<le> m \<and> m < n \<longrightarrow> cbyte p m = cbyte str m)"
      using "1.IH" more by blast
    note IH = this
    have "cbyte p m = cbyte str m" if "i \<le> m" "m < n" for m
      using IH more that by (cases "m = i") auto
    then show ?thesis using IH more by auto
  next
    case found
    then show ?thesis
      using "1.prems" unfolding crit_diff.simps [of p str i] by auto
  next
    case stop
    then have "cbyte str i = 0" by (simp add: cbyte_def)
    then show ?thesis
      using stop "1.prems" unfolding crit_diff.simps [of p str i] by (auto split: if_splits)
  qed
qed

lemma crit_diff_None:
  "crit_diff p str i = None \<Longrightarrow> is_cstr p \<Longrightarrow> i \<le> length str \<Longrightarrow>
     (\<forall>m. i \<le> m \<longrightarrow> m < length str \<longrightarrow> cbyte p m = cbyte str m) \<and> length p \<le> length str"
proof (induction p str i rule: crit_diff.induct)
  case (1 p str i)
  show ?case
  proof (cases "i < length str")
    case True
    then have eq: "cbyte p i = cbyte str i" and "crit_diff p str (Suc i) = None"
      using "1.prems" by (auto simp: crit_diff.simps [of p str i] split: if_splits)
    then have "(\<forall>m. Suc i \<le> m \<longrightarrow> m < length str \<longrightarrow> cbyte p m = cbyte str m) \<and> length p \<le> length str"
      using "1.IH" True "1.prems" by simp
    then show ?thesis using eq by (metis Suc_leI le_eq_less_or_eq)
  next
    case False
    then have "cbyte p i = 0"
      using "1.prems"(1) unfolding crit_diff.simps [of p str i] by (auto split: if_splits)
    then show ?thesis using False "1.prems" by (simp add: is_cstr_cbyte)
  qed
qed

lemma crit_diff_None_iff:
  assumes "is_cstr p" "is_cstr str"
  shows "crit_diff p str 0 = None \<longleftrightarrow> p = str"
proof
  assume a: "crit_diff p str 0 = None"
  show "p = str"
  proof (rule cstr_eqI [OF assms])
    fix i
    show "cbyte p i = cbyte str i"
      using crit_diff_None [OF a assms(1)] by (cases "i < length str") (auto simp: cbyte_def)
  qed
next
  assume "p = str"
  show "crit_diff p str 0 = None"
  proof (cases "crit_diff p str 0")
    case (Some r)
    then show ?thesis using crit_diff_Some [of p str 0 "fst r" "snd r"] \<open>p = str\<close> by simp
  qed
qed

text \<open>
  The byte and the mask that the insertion computes designate the first bit in which the two
  strings differ. The byte lies inside both strings or on their terminator.
\<close>

lemma crit_diff_index:
  assumes d: "crit_diff p str 0 = Some (n, x)" and p: "is_cstr p" "is_cstr str"
  obtains i where "i < 8" "crit_otherbits x = ucast (ob_of i)" "agree (8 * n + i) p str"
    "bitat p (8 * n + i) \<noteq> bitat str (8 * n + i)"
    "n \<le> length p" "n \<le> length str"
proof -
  note D = crit_diff_Some [OF d]
  define P where "P i \<longleftrightarrow> bitat p (8 * n + i) \<noteq> bitat str (8 * n + i)" for i
  have "\<exists>i < 8. P i" using D by (auto simp: P_def cbyte_eq_iff)
  then obtain i where i: "i < 8" "P i" and least: "\<And>j. j < i \<Longrightarrow> \<not> P j"
    by (metis exists_least_iff less_trans not_less_iff_gr_or_eq)
  have bx: "bit x (7 - j) = P j" if "j < 8" for j
    using D that by (auto simp: P_def bitat_def bit_xor_iff)
  have "crit_otherbits x = ucast (ob_of i)"
    using i least bx by (intro crit_otherbits_eq) auto
  moreover have "agree (8 * n + i) p str"
    unfolding agree_def
  proof (intro allI impI)
    fix k assume k: "k < 8 * n + i"
    show "bitat p k = bitat str k"
    proof (cases "k < 8 * n")
      case True
      then show ?thesis using D by (simp add: bitat_def)
    next
      case False
      then have "k - 8 * n < i" "8 * n + (k - 8 * n) = k" using k by auto
      then show ?thesis using least [of "k - 8 * n"] by (simp add: P_def)
    qed
  qed
  moreover have "n \<le> length p"
  proof (rule ccontr)
    assume "\<not> n \<le> length p"
    then have "cbyte p (length p) = cbyte str (length p)" using D by simp
    then have "length str \<le> length p" using p by (metis is_cstr_cbyte order_refl)
    then show False using D \<open>\<not> n \<le> length p\<close> by simp
  qed
  ultimately show thesis using that i D by (auto simp: P_def)
qed

section \<open>The invariant\<close>

lemma keys_None [simp]: "root t = None \<Longrightarrow> keys t = []"
  by (simp add: keys_def)

lemma keys_Some [simp]: "root t = Some p \<Longrightarrow> keys t = leaves p"
  by (simp add: keys_def)

lemma leaves_nonempty [simp]: "leaves t \<noteq> []"
  by (induction t) auto

lemma cb_inv_mono: "cb_inv n t \<Longrightarrow> m \<le> n \<Longrightarrow> cb_inv m t"
  by (cases t) auto

lemma cb_inv_agree: "cb_inv lo t \<Longrightarrow> s \<in> set (leaves t) \<Longrightarrow> u \<in> set (leaves t) \<Longrightarrow> agree lo s u"
proof (induction t arbitrary: lo)
  case (Node l r b ob)
  let ?k = "cb_index b ob"
  have "lo \<le> ?k" using Node.prems by simp
  have "agree (Suc ?k) s u \<or> agree ?k s u"
    using Node by (auto intro: agree_sym)
  then show ?case using \<open>lo \<le> ?k\<close> by (auto elim: agree_mono)
qed simp

lemma cb_inv_key: "cb_inv lo t \<Longrightarrow> s \<in> set (leaves t) \<Longrightarrow> is_key s"
  by (induction t arbitrary: lo) auto

lemma is_key_cstr: "is_key s \<Longrightarrow> is_cstr s"
  by (simp add: is_key_def)

lemma cb_walk_in_leaves: "cb_walk t str \<in> set (leaves t)"
  by (induction t) auto

lemma cb_walk_member: "cb_inv lo t \<Longrightarrow> str \<in> set (leaves t) \<Longrightarrow> cb_walk t str = str"
  by (induction t arbitrary: lo) (auto simp: cb_direction_bitat)

lemma cb_walk_iff: "cb_inv lo t \<Longrightarrow> cb_walk t str = str \<longleftrightarrow> str \<in> set (leaves t)"
  using cb_walk_member cb_walk_in_leaves by metis

subsection \<open>Insertion\<close>

lemma unat_ob_of: "i < 8 \<Longrightarrow> unat (ob_of i) = 255 - 2 ^ (7 - i)"
proof -
  assume "i < 8"
  then consider "i = 0" | "i = 1" | "i = 2" | "i = 3" | "i = 4" | "i = 5" | "i = 6" | "i = 7"
    by linarith
  then show ?thesis
    by cases (simp_all add: ob_of_def)
qed

lemma ob_of_less_iff:
  assumes "i < 8" "k < 8"
  shows "(ucast (ob_of k) :: u32) > ucast (ob_of i) \<longleftrightarrow> i < k"
proof -
  have p: "(2::nat) ^ (7 - i) \<le> 128" "(2::nat) ^ (7 - k) \<le> 128"
    using power_increasing [of "7 - i" 7 "2::nat"] power_increasing [of "7 - k" 7 "2::nat"] by auto
  have "(ucast (ob_of k) :: u32) > ucast (ob_of i) \<longleftrightarrow> unat (ob_of i) < unat (ob_of k)"
    using unat_u8_less [of "ob_of i"] unat_u8_less [of "ob_of k"]
    by (simp add: word_less_nat_alt unsigned_ucast_eq take_bit_nat_eq_self)
  also have "\<dots> \<longleftrightarrow> (2::nat) ^ (7 - k) < 2 ^ (7 - i)"
    using p unfolding unat_ob_of [OF assms(1)] unat_ob_of [OF assms(2)] by linarith
  also have "\<dots> \<longleftrightarrow> i < k"
    using assms by (auto simp: power_strict_increasing_iff)
  finally show ?thesis .
qed

text \<open>The source orders nodes by byte and then by mask: this is the order of bit indices.\<close>

lemma cb_index_less:
  assumes "ob_ok ob" "i < 8" "n < 2 ^ 32"
  shows "of_nat n < b \<or> (b = of_nat n \<and> (ucast ob :: u32) > ucast (ob_of i)) \<longleftrightarrow>
    8 * n + i < cb_index b ob"
proof -
  have n: "unat (of_nat n :: u32) = n" using assms(3) by (simp add: unat_of_nat)
  have "(of_nat n < b) \<longleftrightarrow> n < unat b" by (simp add: word_less_nat_alt n)
  moreover have "b = of_nat n \<longleftrightarrow> unat b = n" using n by auto
  moreover have "(ucast ob :: u32) > ucast (ob_of i) \<longleftrightarrow> i < ob_rank ob"
    using ob_of_less_iff [of i "ob_rank ob"] assms by (simp add: ob_ok_def)
  ultimately show ?thesis
    using assms unfolding cb_index_def ob_ok_def by auto
qed

lemma cb_index_ob_of: "i < 8 \<Longrightarrow> n < 2 ^ 32 \<Longrightarrow> cb_index (of_nat n) (ob_of i) = 8 * n + i"
  by (simp add: cb_index_def ob_rank_ob_of unat_of_nat)

lemma cb_newnode_inv:
  assumes sub: "cb_inv (Suc j) sub" "p \<in> set (leaves sub)" and j: "j = 8 * n + i" "i < 8" "n < 2 ^ 32"
    and "lo \<le> j" "is_key x" and ag: "agree j p x" and df: "bitat p j \<noteq> bitat x j"
  shows "cb_inv lo (cb_newnode x (of_nat n) (ucast (ob_of i)) (of_bool (bitat p j)) sub)"
    and "set (leaves (cb_newnode x (of_nat n) (ucast (ob_of i)) (of_bool (bitat p j)) sub)) =
      insert x (set (leaves sub))"
proof -
  have idx: "cb_index (of_nat n) (ob_of i) = j" using j by (simp add: cb_index_ob_of)
  have ob: "ucast (ucast (ob_of i) :: u32) = ob_of i"
    by (rule bit_word_eqI) (simp add: bit_simps)
  have s: "agree (Suc j) p s" if "s \<in> set (leaves sub)" for s
    using cb_inv_agree [OF sub(1) sub(2) that] .
  have bits: "bitat s j = bitat p j" if "s \<in> set (leaves sub)" for s
    using s [OF that] by (simp add: agree_def)
  have ags: "agree j s x" "agree j x s" if "s \<in> set (leaves sub)" for s
    using agree_trans [OF agree_sym [OF agree_mono [OF s [OF that]]] ag] by (auto intro: agree_sym)
  show "cb_inv lo (cb_newnode x (of_nat n) (ucast (ob_of i)) (of_bool (bitat p j)) sub)"
    using assms idx bits ags ob by (auto simp: cb_newnode_def simp del: unsigned_of_nat)
  show "set (leaves (cb_newnode x (of_nat n) (ucast (ob_of i)) (of_bool (bitat p j)) sub)) =
      insert x (set (leaves sub))"
    by (auto simp: cb_newnode_def)
qed

lemma cb_hang_inv:
  assumes j: "j = 8 * n + i" "i < 8" "n < 2 ^ 32" and x: "is_key x"
    and "cb_inv lo t" "lo \<le> j" "agree j (cb_walk t x) x" "bitat (cb_walk t x) j \<noteq> bitat x j"
  shows "cb_inv lo (cb_hang t x (of_nat n) (ucast (ob_of i)) (of_bool (bitat (cb_walk t x) j))) \<and>
    set (leaves (cb_hang t x (of_nat n) (ucast (ob_of i)) (of_bool (bitat (cb_walk t x) j)))) =
      insert x (set (leaves t))"
  using assms(5-)
proof (induction t arbitrary: lo)
  case (Leaf p)
  then show ?case using cb_newnode_inv [of j "Leaf p" p n i lo x] j x by simp
next
  case (Node l r b ob)
  let ?k = "cb_index b ob" and ?p = "cb_walk (Node l r b ob) x"
  have ob: "ob_ok ob" using Node.prems by simp
  note less = cb_index_less [OF ob j(2,3), of b]
  show ?case
  proof (cases "j < ?k")
    case True
    have sub: "cb_inv (Suc j) (Node l r b ob)" using Node.prems True by simp
    have in_sub: "?p \<in> set (leaves (Node l r b ob))" by (rule cb_walk_in_leaves)
    note new = cb_newnode_inv [OF sub in_sub j Node.prems(2) x Node.prems(3,4)]
    have "cb_hang (Node l r b ob) x (of_nat n) (ucast (ob_of i)) d =
        cb_newnode x (of_nat n) (ucast (ob_of i)) d (Node l r b ob)" for d
      using less True j(1) by auto
    then show ?thesis by (simp only: new simp_thms)
  next
    case False
    have side: "cb_hang (Node l r b ob) x (of_nat n) (ucast (ob_of i)) d =
        (if bitat x ?k then Node l (cb_hang r x (of_nat n) (ucast (ob_of i)) d) b ob
         else Node (cb_hang l x (of_nat n) (ucast (ob_of i)) d) r b ob)" for d
      using less False j(1) by (auto simp: cb_direction_bitat [OF ob])
    have p: "?p = (if bitat x ?k then cb_walk r x else cb_walk l x)"
      using ob by (simp add: cb_direction_bitat)
    have pk: "bitat ?p ?k = bitat x ?k"
      using Node.prems(1) cb_walk_in_leaves [of l x] cb_walk_in_leaves [of r x] unfolding p by auto
    then have "?k \<noteq> j" using Node.prems by auto
    then have kj: "?k < j" using False by simp
    have agk: "agree ?k ?p x" using Node.prems(3) kj by (simp add: agree_mono)
    show ?thesis
    proof (cases "bitat x ?k")
      case True
      have IH: "cb_inv (Suc ?k) (cb_hang r x (of_nat n) (ucast (ob_of i)) (of_bool (bitat ?p j)))"
        "set (leaves (cb_hang r x (of_nat n) (ucast (ob_of i)) (of_bool (bitat ?p j)))) = insert x (set (leaves r))"
        using Node.IH(2) [of "Suc ?k"] Node.prems kj p True by simp_all
      have "agree ?k s x" if "s \<in> set (leaves l)" for s
      proof (rule agree_trans)
        show "agree ?k s (cb_walk r x)" using Node.prems(1) that cb_walk_in_leaves [of r x] by simp
        show "agree ?k (cb_walk r x) x" using agk True p by simp
      qed
      then show ?thesis
        unfolding side using IH True Node.prems(1) by auto
    next
      case False
      have IH: "cb_inv (Suc ?k) (cb_hang l x (of_nat n) (ucast (ob_of i)) (of_bool (bitat ?p j)))"
        "set (leaves (cb_hang l x (of_nat n) (ucast (ob_of i)) (of_bool (bitat ?p j)))) = insert x (set (leaves l))"
        using Node.IH(1) [of "Suc ?k"] Node.prems kj p False by simp_all
      have "agree ?k x s" if "s \<in> set (leaves r)" for s
      proof (rule agree_trans)
        show "agree ?k (cb_walk l x) s" using Node.prems(1) that cb_walk_in_leaves [of l x] by simp
        show "agree ?k x (cb_walk l x)" using agk False p by (simp add: agree_sym)
      qed
      then show ?thesis
        unfolding side using IH False Node.prems(1) by auto
    qed
  qed
qed

text \<open>What \<open>cb_tree_insert\<close> returns and stores, on each of its exits.\<close>

lemma cb_insert_new:
  assumes inv: "cb_inv 0 p0" and x: "is_key x" and d: "crit_diff (cb_walk p0 x) x 0 = Some (n, w)"
  shows "cb_inv 0 (cb_hang p0 x (of_nat n) (crit_otherbits w)
            (cb_direction (crit_otherbits w) (cbyte (cb_walk p0 x) n))) \<and>
    set (leaves (cb_hang p0 x (of_nat n) (crit_otherbits w)
            (cb_direction (crit_otherbits w) (cbyte (cb_walk p0 x) n)))) = insert x (set (leaves p0))"
proof -
  let ?p = "cb_walk p0 x"
  have p: "is_cstr ?p" "is_cstr x"
    using cb_inv_key [OF inv cb_walk_in_leaves] x by (auto simp: is_key_def)
  obtain i where i: "i < 8" "crit_otherbits w = ucast (ob_of i)" "agree (8 * n + i) ?p x"
    "bitat ?p (8 * n + i) \<noteq> bitat x (8 * n + i)" "n \<le> length x"
    using crit_diff_index [OF d p] by blast
  have n: "n < 2 ^ 32" using i(5) x by (simp add: is_key_def)
  have "cb_direction (crit_otherbits w) (cbyte ?p n) = of_bool (bitat ?p (8 * n + i))"
    using i by (simp add: cb_direction_ob_of bitat_byte)
  then show ?thesis
    using cb_hang_inv [OF refl i(1) n x inv _ i(3,4)] i(2) by simp
qed

lemma cb_tree_insert_allocator [simp]: "malloc_align (snd (cb_tree_insert t x)) = malloc_align t"
  by (simp add: cb_tree_insert_def Let_def split: option.split prod.split)

lemma cb_tree_insert_ok:
  assumes "cb_tree_ok t" "is_key x"
  shows "cb_tree_ok (snd (cb_tree_insert t x))"
proof (cases "root t")
  case (Some p0)
  then have "cb_inv 0 p0" using assms by (simp add: cb_tree_ok_def)
  then show ?thesis
    using assms Some cb_insert_new [of p0 x]
    by (auto simp: cb_tree_insert_def cb_tree_ok_def Let_def split: option.split)
qed (use assms in \<open>simp add: cb_tree_insert_def cb_tree_ok_def\<close>)

lemma cb_tree_insert_keys:
  assumes "cb_tree_ok t" "is_key x" "fst (cb_tree_insert t x) = 0"
  shows "set (keys (snd (cb_tree_insert t x))) = insert x (set (keys t))"
proof (cases "root t")
  case (Some p0)
  then have inv: "cb_inv 0 p0" using assms by (simp add: cb_tree_ok_def)
  show ?thesis
  proof (cases "crit_diff (cb_walk p0 x) x 0")
    case None
    then show ?thesis using assms(3) Some by (simp add: cb_tree_insert_def)
  next
    case d: (Some nw)
    then show ?thesis
      using assms(3) Some cb_insert_new [OF inv assms(2), of "fst nw" "snd nw"]
      by (simp add: cb_tree_insert_def Let_def ENOMEM_def split: if_splits prod.splits)
  qed
qed (use assms(3) in \<open>simp add: cb_tree_insert_def ENOMEM_def split: if_splits\<close>)

lemma cb_tree_insert_status:
  assumes "cb_tree_ok t" "is_key x"
  shows "fst (cb_tree_insert t x) =
    (if x \<in> set (keys t) then 1
     else if root t \<noteq> None \<and> \<not> malloc_align t sizeof_voidp sizeof_cb_node then ENOMEM
     else if \<not> malloc_align t sizeof_voidp (length x + 1) then ENOMEM else 0)"
proof (cases "root t")
  case (Some p0)
  then have inv: "cb_inv 0 p0" using assms by (simp add: cb_tree_ok_def)
  have "crit_diff (cb_walk p0 x) x 0 = None \<longleftrightarrow> x \<in> set (keys t)"
    using crit_diff_None_iff [of "cb_walk p0 x" x] cb_inv_key [OF inv cb_walk_in_leaves]
      cb_walk_iff [OF inv] assms Some by (auto simp: is_key_def)
  then show ?thesis
    using Some by (auto simp: cb_tree_insert_def Let_def split: option.splits)
qed (simp add: cb_tree_insert_def)

lemma cb_tree_insert_fail: "fst (cb_tree_insert t x) \<noteq> 0 \<Longrightarrow> snd (cb_tree_insert t x) = t"
  by (auto simp: cb_tree_insert_def Let_def split: option.splits if_splits)

lemma cb_tree_contains_keys: "cb_tree_ok t \<Longrightarrow> cb_tree_contains t x \<longleftrightarrow> x \<in> set (keys t)"
  using cb_walk_iff [of 0 _ x]
  by (auto simp: cb_tree_ok_def cb_tree_contains_def eq_commute [of x] split: option.splits)

subsection \<open>Deletion\<close>

lemma cb_unlink_None: "cb_unlink t x = None \<longleftrightarrow> (\<exists>s. t = Leaf s)"
  by (cases t) (auto split: option.splits)

lemma cb_unlink_inv:
  "cb_inv lo t \<Longrightarrow> x \<in> set (leaves t) \<Longrightarrow> cb_unlink t x = Some t' \<Longrightarrow>
     cb_inv lo t' \<and> set (leaves t') = set (leaves t) - {x}"
proof (induction t arbitrary: lo t')
  case (Node l r b ob)
  let ?k = "cb_index b ob"
  have ob: "ob_ok ob" and lr: "cb_inv (Suc ?k) l" "cb_inv (Suc ?k) r" and lo: "lo \<le> ?k"
    using Node.prems by auto
  show ?case
  proof (cases "bitat x ?k")
    case True
    then have xr: "x \<in> set (leaves r)" "x \<notin> set (leaves l)" using Node.prems by auto
    show ?thesis
    proof (cases "cb_unlink r x")
      case None
      then show ?thesis
        using Node.prems True ob xr lr lo
        by (auto simp: cb_direction_bitat cb_unlink_None intro: cb_inv_mono [of "Suc ?k"])
    next
      case (Some r')
      then show ?thesis
        using Node.IH(2) [OF lr(2) xr(1) Some] Node.prems True ob xr
        by (auto simp: cb_direction_bitat)
    qed
  next
    case False
    then have xl: "x \<in> set (leaves l)" "x \<notin> set (leaves r)" using Node.prems by auto
    show ?thesis
    proof (cases "cb_unlink l x")
      case None
      then show ?thesis
        using Node.prems False ob xl lr lo
        by (auto simp: cb_direction_bitat cb_unlink_None intro: cb_inv_mono [of "Suc ?k"])
    next
      case (Some l')
      then show ?thesis
        using Node.IH(1) [OF lr(1) xl(1) Some] Node.prems False ob xl
        by (auto simp: cb_direction_bitat)
    qed
  qed
qed simp

lemma cb_tree_delete_allocator [simp]: "malloc_align (snd (cb_tree_delete t x)) = malloc_align t"
  by (simp add: cb_tree_delete_def split: option.split)

lemma cb_tree_delete_ok: "cb_tree_ok t \<Longrightarrow> cb_tree_ok (snd (cb_tree_delete t x))"
proof (cases "root t")
  case (Some p0)
  assume "cb_tree_ok t"
  then have inv: "cb_inv 0 p0" using Some by (simp add: cb_tree_ok_def)
  show ?thesis
    using Some inv cb_unlink_inv [OF inv] cb_walk_iff [OF inv, of x]
    by (auto simp: cb_tree_delete_def cb_tree_ok_def split: option.splits)
qed (simp add: cb_tree_delete_def cb_tree_ok_def)

lemma cb_tree_delete_keys: "cb_tree_ok t \<Longrightarrow> set (keys (snd (cb_tree_delete t x))) = set (keys t) - {x}"
proof (cases "root t")
  case (Some p0)
  assume "cb_tree_ok t"
  then have inv: "cb_inv 0 p0" using Some by (simp add: cb_tree_ok_def)
  show ?thesis
  proof (cases "cb_unlink p0 x")
    case None
    then obtain s where "p0 = Leaf s" by (auto simp: cb_unlink_None)
    then show ?thesis using Some by (simp add: cb_tree_delete_def)
  next
    case (Some t')
    then show ?thesis
      using \<open>root t = Some p0\<close> cb_unlink_inv [OF inv _ Some] cb_walk_iff [OF inv, of x]
      by (auto simp: cb_tree_delete_def eq_commute [of x])
  qed
qed (simp add: cb_tree_delete_def)

lemma cb_tree_delete_status:
  "cb_tree_ok t \<Longrightarrow> fst (cb_tree_delete t x) = (if x \<in> set (keys t) then 0 else 1)"
  using cb_walk_iff [of 0 _ x]
  by (auto simp: cb_tree_delete_def cb_tree_ok_def eq_commute [of x] split: option.splits)

subsection \<open>The prefix walk\<close>

lemma cb_top_stays: "cb_inv lo t \<Longrightarrow> 8 * length p \<le> lo \<Longrightarrow> cb_top t tp p = tp"
proof (induction t arbitrary: lo)
  case (Node l r b ob)
  have k: "8 * length p \<le> cb_index b ob" "ob_rank ob < 8" using Node.prems by (auto simp: ob_ok_def)
  then have "\<not> unat b < length p" by (auto simp: cb_index_def)
  moreover have "cb_top l tp p = tp" "cb_top r tp p = tp"
    using Node k by auto
  ultimately show ?case by simp
qed simp

lemma cb_top_leaves:
  "cb_inv lo t \<Longrightarrow> is_cstr p \<Longrightarrow> s0 \<in> set (leaves t) \<Longrightarrow> starts_with s0 p \<Longrightarrow>
     leaves (cb_top t t p) = filter (\<lambda>s. starts_with s p) (leaves t)"
proof (induction t arbitrary: lo)
  case (Node l r b ob)
  let ?k = "cb_index b ob" and ?t = "Node l r b ob"
  have ob: "ob_ok ob" and lr: "cb_inv (Suc ?k) l" "cb_inv (Suc ?k) r" using Node.prems by auto
  have key: "is_cstr s" if "s \<in> set (leaves ?t)" for s
    using cb_inv_key [OF Node.prems(1) that] by (rule is_key_cstr)
  show ?case
  proof (cases "unat b < length p")
    case True
    then have k: "?k < 8 * length p" using ob by (simp add: cb_index_def ob_ok_def)
    have bit: "bitat s ?k = bitat p ?k" if "s \<in> set (leaves ?t)" "starts_with s p" for s
      using that key [OF that(1)] Node.prems(2) k by (simp add: starts_with_agree agree_def)
    show ?thesis
    proof (cases "bitat p ?k")
      case bt: True
      then have "s0 \<in> set (leaves r)" and "filter (\<lambda>s. starts_with s p) (leaves l) = []"
        using Node.prems bit by (auto simp: filter_empty_conv)
      then show ?thesis
        using Node.IH(2) [OF lr(2)] Node.prems True bt ob by (simp add: cb_direction_bitat)
    next
      case bf: False
      then have "s0 \<in> set (leaves l)" and "filter (\<lambda>s. starts_with s p) (leaves r) = []"
        using Node.prems bit by (auto simp: filter_empty_conv)
      then show ?thesis
        using Node.IH(1) [OF lr(1)] Node.prems True bf ob by (simp add: cb_direction_bitat)
    qed
  next
    case False
    then have k: "8 * length p \<le> ?k" by (simp add: cb_index_def)
    have inv: "cb_inv ?k ?t" using Node.prems by simp
    have "starts_with s p" if s: "s \<in> set (leaves ?t)" for s
    proof -
      have "agree ?k s s0" using cb_inv_agree [OF inv s Node.prems(3)] .
      moreover have "agree (8 * length p) s0 p"
        using starts_with_agree [OF key [OF Node.prems(3)] Node.prems(2)] Node.prems(4) by simp
      ultimately have "agree (8 * length p) s p" using agree_mono [OF _ k] agree_trans by blast
      then show ?thesis using starts_with_agree [OF key [OF s] Node.prems(2)] by simp
    qed
    then have "filter (\<lambda>s. starts_with s p) (leaves ?t) = leaves ?t" by (simp add: filter_id_conv)
    moreover have "cb_top ?t ?t p = ?t" using cb_top_stays [OF inv k] .
    ultimately show ?thesis by (simp only:)
  qed
qed simp

lemma cb_top_subset: "set (leaves (cb_top t tp p)) \<subseteq> set (leaves t) \<union> set (leaves tp)"
proof (induction t arbitrary: tp)
  case (Node l r b ob)
  show ?case using Node.IH(1) [of l] Node.IH(1) [of tp] Node.IH(2) [of r] Node.IH(2) [of tp] by auto
qed auto

text \<open>A callback that never stops the traversal is folded over the leaves.\<close>

lemma cbt_traverse_fold:
  assumes "\<And>s a. fst (f s a) = 0"
  shows "cbt_traverse_prefixed t f a = (0, fold (\<lambda>s a. snd (f s a)) (leaves t) a)"
proof (induction t arbitrary: a)
  case (Leaf s)
  then show ?case using assms [of s a] by (cases "f s a") simp
qed simp

section \<open>Order\<close>

lemma cbyte_Cons_0 [simp]: "cbyte (c # s) 0 = of_char c"
  by (simp add: cbyte_def)

lemma cbyte_Cons_Suc [simp]: "cbyte (c # s) (Suc i) = cbyte s i"
  by (simp add: cbyte_def)

lemma cbyte_Nil [simp]: "cbyte [] i = 0"
  by (simp add: cbyte_def)

lemma strcmp_lessI:
  "is_cstr s \<Longrightarrow> is_cstr t \<Longrightarrow> \<forall>m < n. cbyte s m = cbyte t m \<Longrightarrow> unat (cbyte s n) < unat (cbyte t n) \<Longrightarrow>
     strcmp_less s t"
proof (induction s t arbitrary: n rule: strcmp_less.induct)
  case (3 c s d t)
  show ?case
  proof (cases n)
    case 0
    then show ?thesis using 3 by simp
  next
    case (Suc n')
    then have "c = d" and "\<forall>m < n'. cbyte s m = cbyte t m"
      using "3.prems"(3) by (auto dest: spec [of _ 0] spec [of _ "Suc _"])
    then show ?thesis using 3 Suc by auto
  qed
qed auto

text \<open>At the first differing bit the string with the zero is the smaller one.\<close>

lemma bit_less_u8:
  fixes a b :: u8
  assumes "i < 8" "\<not> bit a (7 - i)" "bit b (7 - i)" "\<And>j. j < i \<Longrightarrow> bit a (7 - j) = bit b (7 - j)"
  shows "unat a < unat b"
proof -
  let ?k = "7 - i"
  have hi: "drop_bit (Suc ?k) (unat a) = drop_bit (Suc ?k) (unat b)"
  proof (rule bit_eqI)
    fix m
    show "bit (drop_bit (Suc ?k) (unat a)) m = bit (drop_bit (Suc ?k) (unat b)) m"
    proof (cases "Suc ?k + m < 8")
      case True
      then have "7 - (Suc ?k + m) < i" "7 - (7 - (Suc ?k + m)) = Suc ?k + m" using assms(1) by auto
      then show ?thesis using assms(4) by (metis bit_drop_bit_eq bit_unsigned_iff comp_apply)
    next
      case False
      then show ?thesis
        using bit_imp_le_length [of a "Suc ?k + m"] bit_imp_le_length [of b "Suc ?k + m"]
        by (auto simp: bit_drop_bit_eq bit_unsigned_iff)
    qed
  qed
  have "\<not> bit (unat a) ?k" "bit (unat b) ?k"
    using assms(2,3) by (auto simp: bit_unsigned_iff)
  then have "even (unat a div 2 ^ ?k)" "odd (unat b div 2 ^ ?k)"
    by (auto simp: bit_iff_odd)
  moreover have "unat a div 2 ^ ?k div 2 = unat b div 2 ^ ?k div 2"
    using hi by (simp add: drop_bit_eq_div div_mult2_eq power_Suc2 del: power_Suc)
  ultimately have "unat a div 2 ^ ?k < unat b div 2 ^ ?k"
    by (metis even_two_times_div_two less_Suc_eq odd_two_times_div_two_succ Suc_eq_plus1)
  then show ?thesis by (meson div_le_mono leD leI)
qed

lemma first_bit_strcmp:
  assumes "is_cstr s" "is_cstr t" "agree k s t" "\<not> bitat s k" "bitat t k"
  shows "strcmp_less s t"
proof (rule strcmp_lessI [OF assms(1,2)])
  have k: "k = 8 * (k div 8) + k mod 8" "k mod 8 < 8" by simp_all
  show "\<forall>m < k div 8. cbyte s m = cbyte t m"
    using agree_mono [OF assms(3), of "8 * (k div 8)"] by (simp add: agree_bytes)
  have "bit (cbyte s (k div 8)) (7 - j) = bit (cbyte t (k div 8)) (7 - j)" if "j < k mod 8" for j
  proof -
    have "8 * (k div 8) + j < k" "j < 8" using that k by linarith+
    then show ?thesis using assms(3) by (metis agree_bit bitat_byte)
  qed
  then show "unat (cbyte s (k div 8)) < unat (cbyte t (k div 8))"
    using assms(4,5) k(2) by (intro bit_less_u8 [of "k mod 8"]) (auto simp: bitat_def)
qed

lemma leaves_sorted: "cb_inv lo t \<Longrightarrow> sorted_wrt strcmp_less (leaves t)"
proof (induction t arbitrary: lo)
  case (Node l r b ob)
  let ?k = "cb_index b ob"
  have lr: "cb_inv (Suc ?k) l" "cb_inv (Suc ?k) r" using Node.prems by auto
  have "strcmp_less s t" if "s \<in> set (leaves l)" "t \<in> set (leaves r)" for s t
    using that Node.prems lr cb_inv_key is_key_cstr by (intro first_bit_strcmp [of s t ?k]) auto
  then show ?case using Node.IH lr by (auto simp: sorted_wrt_append)
qed simp

lemma strcmp_less_irrefl [simp]: "\<not> strcmp_less s s"
  by (induction s) auto

lemma leaves_distinct: "cb_inv lo t \<Longrightarrow> distinct (leaves t)"
  using leaves_sorted strcmp_less_irrefl
  by (metis distinct_conv_nth nat_neq_iff sorted_wrt_iff_nth_less)

lemma keys_distinct: "cb_tree_ok t \<Longrightarrow> distinct (keys t)"
  by (cases "root t") (auto simp: cb_tree_ok_def leaves_distinct)

section \<open>The tree as a set of strings\<close>

lemma memory_enough [simp]: "mem_enough memory"
  by (simp add: mem_enough_def memory_def)

interpretation cbs: string_set elems tree_ok is_key cb_tree_contains cb_tree_insert cb_tree_delete
proof unfold_locales
  fix t x
  assume t: "tree_ok t"
  show "cb_tree_contains t x \<longleftrightarrow> x \<in> elems t"
    using t by (simp add: tree_ok_def elems_def cb_tree_contains_keys)
  show "tree_ok (snd (cb_tree_delete t x))" "elems (snd (cb_tree_delete t x)) = elems t - {x}"
    using t by (simp_all add: tree_ok_def elems_def cb_tree_delete_ok cb_tree_delete_keys)
  assume x: "is_key x"
  show "tree_ok (snd (cb_tree_insert t x))"
    using t x by (simp add: tree_ok_def cb_tree_insert_ok)
  show st: "fst (cb_tree_insert t x) = (if x \<in> elems t then 1 else 0)"
    using t x by (simp add: tree_ok_def mem_enough_def elems_def cb_tree_insert_status)
  show "elems (snd (cb_tree_insert t x)) = insert x (elems t)"
    using t x st cb_tree_insert_keys [of t x] cb_tree_insert_fail [of t x]
    by (auto simp: tree_ok_def elems_def split: if_splits)
qed

lemma cb_tree_make_ok [simp]: "tree_ok (cb_tree_make mem) \<longleftrightarrow> mem_enough mem" "elems (cb_tree_make mem) = {}"
  by (simp_all add: tree_ok_def mem_enough_def malloc_align_std_def elems_def cb_tree_make_def cb_tree_ok_def)

lemma cb_tree_clear_ok: "tree_ok t \<Longrightarrow> tree_ok (cb_tree_clear t)" "elems (cb_tree_clear t) = {}"
  by (simp_all add: tree_ok_def elems_def cb_tree_clear_def cb_tree_ok_def)

lemma elems_key: "tree_ok t \<Longrightarrow> x \<in> elems t \<Longrightarrow> is_key x"
  by (cases "root t") (auto simp: tree_ok_def cb_tree_ok_def elems_def intro: cb_inv_key)

lemma elems_finite [simp]: "finite (elems t)"
  by (simp add: elems_def)

section \<open>Properties\<close>

lemma demo_tree_ok: "tree_ok demo_tree" "elems demo_tree = {''a'', ''ab'', ''b''}"
proof -
  have key: "is_key ''a''" "is_key ''ab''" "is_key ''b''" by (simp_all add: is_key_def)
  let ?es = "[(CHR ''+'', ''a''), (CHR ''+'', ''ab''), (CHR ''+'', ''b'')]"
  have "demo_tree = replay cb_tree_insert cb_tree_delete (cb_tree_make memory) ?es"
    by (simp add: demo_tree_def)
  then show "tree_ok demo_tree" "elems demo_tree = {''a'', ''ab'', ''b''}"
    using cbs.replay_refines [of "cb_tree_make memory" ?es] key by auto
qed

text \<open>
  C19. Insertion: a tree of the crit-bit shape keeps it; the status is 1 for a string that is there,
  \<open>ENOMEM\<close> when an allocation is refused and 0 otherwise; on 0 exactly the new string is added, on
  anything else the tree is unchanged.
\<close>

theorem cb_tree_insert_correct:
  assumes "cb_tree_ok t" "is_key x"
  shows "cb_tree_ok (snd (cb_tree_insert t x)) \<and>
    fst (cb_tree_insert t x) =
      (if x \<in> set (keys t) then 1
       else if root t \<noteq> None \<and> \<not> malloc_align t sizeof_voidp sizeof_cb_node then ENOMEM
       else if \<not> malloc_align t sizeof_voidp (length x + 1) then ENOMEM else 0) \<and>
    (if fst (cb_tree_insert t x) = 0
     then set (keys (snd (cb_tree_insert t x))) = insert x (set (keys t))
     else snd (cb_tree_insert t x) = t)"
  by (intro conjI cb_tree_insert_ok [OF assms] cb_tree_insert_status [OF assms])
    (simp add: cb_tree_insert_keys [OF assms] cb_tree_insert_fail)

theorem cb_tree_insert_correct_witness:
  "fst (cb_tree_insert demo_tree ''abc'') = 0 \<and>
   set (keys (snd (cb_tree_insert demo_tree ''abc''))) = {''abc'', ''a'', ''ab'', ''b''} \<and>
   fst (cb_tree_insert demo_tree ''ab'') = 1 \<and>
   fst (cb_tree_insert (demo_tree\<lparr>malloc_align := (\<lambda>_ _. False)\<rparr>) ''abc'') = ENOMEM"
proof -
  let ?t = "demo_tree\<lparr>malloc_align := (\<lambda>_ _. False)\<rparr>"
  have ok: "cb_tree_ok demo_tree" and ks: "set (keys demo_tree) = {''a'', ''ab'', ''b''}"
    and std: "malloc_align demo_tree sizeof_voidp n" for n
    using demo_tree_ok by (simp_all add: tree_ok_def mem_enough_def elems_def)
  have ok': "cb_tree_ok ?t" "keys ?t = keys demo_tree" using ok by (simp_all add: cb_tree_ok_def keys_def)
  have key: "is_key ''abc''" "is_key ''ab''" by (simp_all add: is_key_def)
  show ?thesis
    using cb_tree_insert_correct [OF ok key(1)] cb_tree_insert_correct [OF ok key(2)]
      cb_tree_insert_correct [OF ok'(1) key(1)] ks ok'(2)
    by (simp add: std)
qed

text \<open>
  C21. Deletion: the crit-bit shape is kept, exactly the given string is removed and the status says
  whether it was there.
\<close>

theorem cb_tree_delete_correct:
  assumes "cb_tree_ok t"
  shows "cb_tree_ok (snd (cb_tree_delete t x)) \<and>
    set (keys (snd (cb_tree_delete t x))) = set (keys t) - {x} \<and>
    fst (cb_tree_delete t x) = (if x \<in> set (keys t) then 0 else 1)"
  using cb_tree_delete_ok [OF assms] cb_tree_delete_keys [OF assms] cb_tree_delete_status [OF assms] by metis

theorem cb_tree_delete_correct_witness:
  "set (keys (snd (cb_tree_delete demo_tree ''a''))) = {''ab'', ''b''} \<and> fst (cb_tree_delete demo_tree ''c'') = 1"
proof -
  have ok: "cb_tree_ok demo_tree" and ks: "set (keys demo_tree) = {''a'', ''ab'', ''b''}"
    using demo_tree_ok by (simp_all add: tree_ok_def elems_def)
  show ?thesis using cb_tree_delete_correct [OF ok, of "''a''"] cb_tree_delete_correct [OF ok, of "''c''"] ks by auto
qed

text \<open>
  C39. Lookup: on a tree of the crit-bit shape the single comparison at the end of the walk decides
  membership, for every string, also one that is not in the tree.
\<close>

theorem cb_tree_contains_correct:
  assumes "cb_tree_ok t"
  shows "cb_tree_contains t x \<longleftrightarrow> x \<in> set (keys t)"
  using assms by (rule cb_tree_contains_keys)

theorem cb_tree_contains_correct_witness:
  "cb_tree_contains demo_tree ''ab'' \<and> \<not> cb_tree_contains demo_tree ''abc''"
proof -
  have ok: "cb_tree_ok demo_tree" and ks: "set (keys demo_tree) = {''a'', ''ab'', ''b''}"
    using demo_tree_ok by (simp_all add: tree_ok_def elems_def)
  show ?thesis
    using cb_tree_contains_correct [OF ok, of "''ab''"] cb_tree_contains_correct [OF ok, of "''abc''"] ks by simp
qed

text \<open>
  C20. The prefix walk: when some string of the tree has the prefix, a callback that never stops the
  walk is called on exactly the strings with the prefix, each once, in ascending \<open>strcmp\<close> order.
\<close>

theorem cb_tree_walk_prefixed_correct:
  assumes "cb_tree_ok t" "is_cstr p" "s \<in> set (keys t)" "starts_with s p" "\<And>u a. fst (f u a) = 0"
  shows "cb_tree_walk_prefixed t p f a =
      (0, fold (\<lambda>u a. snd (f u a)) (filter (\<lambda>u. starts_with u p) (keys t)) a) \<and>
    distinct (keys t) \<and> sorted_wrt strcmp_less (keys t)"
proof (cases "root t")
  case None
  then show ?thesis using assms(3) by simp
next
  case (Some q)
  then have inv: "cb_inv 0 q" and s: "s \<in> set (leaves q)" using assms(1,3) by (simp_all add: cb_tree_ok_def)
  show ?thesis
    using Some cb_top_leaves [OF inv assms(2) s assms(4)] cbt_traverse_fold [of f, OF assms(5)]
      leaves_sorted [OF inv] keys_distinct [OF assms(1)]
    by (simp add: cb_tree_walk_prefixed_def)
qed

theorem cb_tree_walk_prefixed_correct_witness:
  "cb_tree_walk_prefixed demo_tree ''a'' (\<lambda>u acc. (0, acc @ [u])) [] = (0, [''a'', ''ab''])"
proof -
  have ok: "cb_tree_ok demo_tree" and ks: "''a'' \<in> set (keys demo_tree)"
    using demo_tree_ok by (simp_all add: tree_ok_def elems_def)
  have "keys demo_tree = [''a'', ''ab'', ''b'']" by code_simp
  then show ?thesis
    using cb_tree_walk_prefixed_correct [OF ok _ ks, of "''a''" "\<lambda>u acc. (0, acc @ [u])" "[]"]
    by (simp add: starts_with_def)
qed

text \<open>
  When no string of the tree has the prefix, the walk still calls the callback on some string:
  below the last node that tests a byte of the prefix.
\<close>

theorem cb_tree_walk_prefixed_no_match:
  assumes "cb_tree_ok t" "keys t \<noteq> []" "\<forall>s \<in> set (keys t). \<not> starts_with s p" "\<And>u a. fst (f u a) = 0"
  shows "\<exists>us. us \<noteq> [] \<and> set us \<subseteq> set (keys t) \<and> (\<forall>u \<in> set us. \<not> starts_with u p) \<and>
    cb_tree_walk_prefixed t p f a = (0, fold (\<lambda>u a. snd (f u a)) us a)"
proof (cases "root t")
  case (Some q)
  let ?us = "leaves (cb_top q q p)"
  have "set ?us \<subseteq> set (keys t)" using Some cb_top_subset [of q q p] by simp
  moreover have "cb_tree_walk_prefixed t p f a = (0, fold (\<lambda>u a. snd (f u a)) ?us a)"
    using Some cbt_traverse_fold [of f, OF assms(4)] by (simp add: cb_tree_walk_prefixed_def)
  ultimately show ?thesis using assms(3) by (intro exI [of _ ?us]) auto
qed (use assms(2) in simp)

theorem cb_tree_walk_prefixed_no_match_witness:
  "\<exists>us. us \<noteq> [] \<and> cb_tree_walk_prefixed demo_tree ''x'' (\<lambda>u acc. (0, acc @ [u])) [] =
     (0, fold (\<lambda>u a. a @ [u]) us []) \<and> (\<forall>u \<in> set us. \<not> starts_with u ''x'')"
proof -
  have "keys demo_tree = [''a'', ''ab'', ''b'']" by code_simp
  then have "keys demo_tree \<noteq> []" "\<forall>s \<in> set (keys demo_tree). \<not> starts_with s ''x''"
    by (simp_all add: starts_with_def)
  moreover have "cb_tree_ok demo_tree" using demo_tree_ok by (simp add: tree_ok_def)
  ultimately obtain us where "us \<noteq> []" "\<forall>u \<in> set us. \<not> starts_with u ''x''"
    "cb_tree_walk_prefixed demo_tree ''x'' (\<lambda>u acc. (0, acc @ [u])) [] = (0, fold (\<lambda>u a. snd (0, a @ [u])) us [])"
    using cb_tree_walk_prefixed_no_match [of demo_tree "''x''" "\<lambda>u acc. (0, acc @ [u])" "[]"] by fastforce
  then show ?thesis by (intro exI [of _ us]) simp
qed

end
