(* ===== verification/Rhash.thy ===== *)
theory Rhash
  imports Interfaces
begin

text \<open>
  The hash of \<open>src/rhash.c\<close> on top of \<open>apr_hash_t\<close>. An \<open>apr_hash_t\<close> is the list of its
  entries in the order APR's iterator yields them, with distinct keys; where a new key falls in
  that order is APR's choice, and the theorems hold for every list. Keys are the bytes the
  source passes (with \<open>APR_HASH_KEY_STRING\<close>, the C string). An \<open>rhash_t\<close> stores for each key
  an entry that owns a copy of the key and of the value.
\<close>

section \<open>Definitions\<close>

type_synonym 'v apr_hash = "(string \<times> 'v) list"

definition apr_hash_get :: "'v apr_hash \<Rightarrow> string \<Rightarrow> 'v option" where
  "apr_hash_get ht k = map_of ht k"

fun apr_hash_put :: "'v apr_hash \<Rightarrow> string \<Rightarrow> 'v \<Rightarrow> 'v apr_hash" where
  "apr_hash_put [] k v = [(k, v)]"
| "apr_hash_put ((k', v') # ht) k v =
     (if k' = k then (k', v) # ht else (k', v') # apr_hash_put ht k v)"

text \<open>\<open>apr_hash_set\<close> with a NULL value removes the key.\<close>

definition apr_hash_set :: "'v apr_hash \<Rightarrow> string \<Rightarrow> 'v option \<Rightarrow> 'v apr_hash" where
  "apr_hash_set ht k v =
     (case v of None \<Rightarrow> filter (\<lambda>e. fst e \<noteq> k) ht | Some v' \<Rightarrow> apr_hash_put ht k v')"

definition apr_hash_ok :: "'v apr_hash \<Rightarrow> bool" where
  "apr_hash_ok ht \<longleftrightarrow> distinct (map fst ht)"

record 'v entry =
  ekey :: string
  evalue :: 'v

type_synonym 'v rhash = "'v entry apr_hash"

definition rhash_make :: "'v rhash" where
  "rhash_make = []"

definition rhash_clear :: "'v rhash \<Rightarrow> 'v rhash" where
  "rhash_clear ht = []"

definition rhash_set :: "'v rhash \<Rightarrow> string \<Rightarrow> 'v option \<Rightarrow> 'v rhash" where
  "rhash_set ht key val =
     (case apr_hash_get ht key of
        None \<Rightarrow>
          (case val of
             None \<Rightarrow> ht
           | Some v \<Rightarrow> apr_hash_set ht key (Some \<lparr>ekey = key, evalue = v\<rparr>))
      | Some e \<Rightarrow>
          (case val of
             None \<Rightarrow> apr_hash_set ht key None
           | Some v \<Rightarrow> apr_hash_set ht key (Some (e\<lparr>evalue := v\<rparr>))))"

definition rhash_get :: "'v rhash \<Rightarrow> string \<Rightarrow> 'v option" where
  "rhash_get ht key = map_option evalue (apr_hash_get ht key)"

text \<open>
  \<open>rhash_this\<close> assigns its own parameter \<open>val\<close> instead of \<open>*val\<close>: the caller receives the key
  and keeps whatever its own variable held.
\<close>

definition rhash_this :: "string \<times> 'v entry \<Rightarrow> 'w \<Rightarrow> string \<times> 'w" where
  "rhash_this hi val = (fst hi, val)"

definition rhash_count :: "'v rhash \<Rightarrow> nat" where
  "rhash_count ht = length ht"

text \<open>Every entry owns a copy of the key it is filed under.\<close>

definition rhash_owns :: "'v rhash \<Rightarrow> bool" where
  "rhash_owns ht \<longleftrightarrow> (\<forall>(k, e) \<in> set ht. ekey e = k)"

section \<open>Laws\<close>

lemma apr_hash_put_get: "map_of (apr_hash_put ht k v) = (map_of ht)(k \<mapsto> v)"
  by (induction ht k v rule: apr_hash_put.induct) (auto simp: fun_eq_iff)

lemma apr_hash_put_keys: "set (map fst (apr_hash_put ht k v)) = insert k (set (map fst ht))"
  by (induction ht k v rule: apr_hash_put.induct) auto

lemma apr_hash_put_ok: "apr_hash_ok ht \<Longrightarrow> apr_hash_ok (apr_hash_put ht k v)"
  unfolding apr_hash_ok_def
proof (induction ht k v rule: apr_hash_put.induct)
  case (2 k' v' ht k v)
  then show ?case using apr_hash_put_keys [of ht k v] by auto
qed simp

lemma map_of_filter_key: "map_of (filter (\<lambda>e. fst e \<noteq> k) ht) = (map_of ht)(k := None)"
  by (induction ht) (auto simp: fun_eq_iff)

lemma apr_hash_filter_ok: "apr_hash_ok ht \<Longrightarrow> apr_hash_ok (filter P ht)"
  unfolding apr_hash_ok_def by (induction ht) (auto simp: image_iff)

interpretation apr: hash_map apr_hash_get apr_hash_set apr_hash_ok
proof unfold_locales
  show "apr_hash_ok (apr_hash_set h k v)" if "apr_hash_ok h" for h :: "'v apr_hash" and k v
    using that by (auto simp: apr_hash_set_def apr_hash_put_ok apr_hash_filter_ok split: option.split)
  show "apr_hash_get (apr_hash_set h k v) k' = (if k' = k then v else apr_hash_get h k')"
    for h :: "'v apr_hash" and k v k'
    by (auto simp: apr_hash_get_def apr_hash_set_def apr_hash_put_get map_of_filter_key split: option.split)
qed

interpretation rh: hash_map rhash_get rhash_set apr_hash_ok
proof unfold_locales
  show "apr_hash_ok (rhash_set h k v)" if "apr_hash_ok h" for h :: "'v rhash" and k v
    using that by (auto simp: rhash_set_def apr.ok_put split: option.split)
  show "rhash_get (rhash_set h k v) k' = (if k' = k then v else rhash_get h k')"
    if "apr_hash_ok h" for h :: "'v rhash" and k v k'
    using that by (auto simp: rhash_get_def rhash_set_def apr.get_put split: option.split)
qed

lemma rhash_make_ok [simp]: "apr_hash_ok rhash_make"
  by (simp add: rhash_make_def apr_hash_ok_def)

lemma rhash_get_make [simp]: "rhash_get rhash_make k = None"
  by (simp add: rhash_get_def rhash_make_def apr_hash_get_def)

lemma set_apr_hash_put: "set (apr_hash_put ht k v) \<subseteq> insert (k, v) (set ht)"
  by (induction ht k v rule: apr_hash_put.induct) auto

lemma rhash_set_owns: "rhash_owns ht \<Longrightarrow> rhash_owns (rhash_set ht k v)"
  using set_apr_hash_put [of ht k] map_of_SomeD [of ht k]
  by (fastforce simp: rhash_owns_def rhash_set_def apr_hash_set_def apr_hash_get_def split: option.splits)

end
