(* ===== verification/Mukv.thy ===== *)
theory Mukv
  imports Rhash
begin

text \<open>
  The key-value store of \<open>src/mukv.c\<close>: an append-only file and an in-memory index from keys to
  offset and size. The \<open>FILE\<close> is the record \<open>cfile\<close>: its bytes, its position and the size the
  medium lets it grow to, so that \<open>fwrite\<close> can be short and \<open>mukv_store\<close> can fail half way.
  \<open>ferr\<close> gives the errno of \<open>fseek\<close> to an offset, 0 for success.

  \<open>mukv_ok\<close> says that every indexed range lies inside the file and that the file can be positioned, as
  a regular file can; under it the store is the map
  \<open>mukv_abs\<close>, which the interpretation of \<open>kv_store\<close> at the end establishes.
\<close>

section \<open>The C stream\<close>

record cfile =
  fdata :: string
  fpos :: nat
  fcap :: nat
  ferr :: "nat \<Rightarrow> int"

definition fseek_set :: "cfile \<Rightarrow> nat \<Rightarrow> int \<times> cfile" where
  "fseek_set f off = (if ferr f off \<noteq> 0 then (ferr f off, f) else (0, f\<lparr>fpos := off\<rparr>))"

definition fseek_end :: "cfile \<Rightarrow> int \<times> cfile" where
  "fseek_end f = fseek_set f (length (fdata f))"

definition ftell :: "cfile \<Rightarrow> nat" where
  "ftell f = fpos f"

definition fwrite :: "cfile \<Rightarrow> string \<Rightarrow> nat \<times> cfile" where
  "fwrite f bs =
     (let n = min (length bs) (fcap f - fpos f);
          old = fdata f @ replicate (fpos f - length (fdata f)) nul
      in (n, f\<lparr>fdata := take (fpos f) old @ take n bs @ drop (fpos f + n) old, fpos := fpos f + n\<rparr>))"

definition fread :: "cfile \<Rightarrow> nat \<Rightarrow> string \<times> cfile" where
  "fread f n = (let bs = take n (drop (fpos f) (fdata f)) in (bs, f\<lparr>fpos := fpos f + length bs\<rparr>))"

definition ENOSPC :: int where
  "ENOSPC = 28"

section \<open>Definitions\<close>

record mentry =
  moff :: nat
  msize :: nat

record mukv =
  index :: "mentry rhash"
  kvpath :: string
  kvfile :: cfile

text \<open>\<open>fopen(path, "w+")\<close> either fails or yields an empty file with some room and the outcomes of
  positioning it.\<close>

type_synonym fopen = "string \<Rightarrow> (nat \<times> (nat \<Rightarrow> int)) option"

definition mukv_open :: "fopen \<Rightarrow> string \<Rightarrow> mukv option" where
  "mukv_open fopen path =
     (case fopen path of
        None \<Rightarrow> None
      | Some (cap, err) \<Rightarrow>
          Some \<lparr>index = rhash_make, kvpath = path, kvfile = \<lparr>fdata = [], fpos = 0, fcap = cap, ferr = err\<rparr>\<rparr>)"

text \<open>\<open>fclose\<close> and \<open>unlink\<close> report their outcome as an errno, 0 for success.\<close>

definition mukv_close :: "int \<Rightarrow> int \<Rightarrow> mukv \<Rightarrow> int \<times> mukv" where
  "mukv_close fclose_errno unlink_errno kv =
     (let kv' = kv\<lparr>index := rhash_clear (index kv)\<rparr>
      in if fclose_errno \<noteq> 0 then (fclose_errno, kv')
         else if unlink_errno \<noteq> 0 then (unlink_errno, kv')
         else (0, kv'))"

definition mukv_store :: "mukv \<Rightarrow> string \<Rightarrow> string \<Rightarrow> int \<times> mukv" where
  "mukv_store kv key val =
     (case fseek_end (kvfile kv) of
        (errno, f) \<Rightarrow>
          if errno \<noteq> 0 then (errno, kv)
          else (let e = \<lparr>moff = ftell f, msize = length val\<rparr>;
                    (n, f') = fwrite f val
                in if n \<noteq> length val then (ENOSPC, kv\<lparr>kvfile := f'\<rparr>)
                   else (0, kv\<lparr>kvfile := f', index := rhash_set (index kv) key (Some e)\<rparr>)))"

definition mukv_fetch :: "mukv \<Rightarrow> string \<Rightarrow> string option \<times> mukv" where
  "mukv_fetch kv key =
     (case rhash_get (index kv) key of
        None \<Rightarrow> (None, kv)
      | Some e \<Rightarrow>
          (case (if ftell (kvfile kv) \<noteq> moff e then fseek_set (kvfile kv) (moff e) else (0, kvfile kv)) of
             (errno, f) \<Rightarrow>
               if errno \<noteq> 0 then (None, kv)
               else (let (bs, f') = fread f (msize e)
                     in if length bs \<noteq> msize e then (None, kv\<lparr>kvfile := f'\<rparr>)
                        else (Some bs, kv\<lparr>kvfile := f'\<rparr>))))"

definition mukv_delete :: "mukv \<Rightarrow> string \<Rightarrow> int \<times> mukv" where
  "mukv_delete kv key =
     (case rhash_get (index kv) key of
        None \<Rightarrow> (0, kv)
      | Some e \<Rightarrow> (0, kv\<lparr>index := rhash_set (index kv) key None\<rparr>))"

definition mukv_exists :: "mukv \<Rightarrow> string \<Rightarrow> bool" where
  "mukv_exists kv key \<longleftrightarrow> rhash_get (index kv) key \<noteq> None"

section \<open>The store as a map\<close>

definition slice :: "string \<Rightarrow> mentry \<Rightarrow> string" where
  "slice bs e = take (msize e) (drop (moff e) bs)"

text \<open>Files that can be positioned.\<close>

definition seeks :: "fopen \<Rightarrow> bool" where
  "seeks fopen \<longleftrightarrow> (\<forall>p cap err. fopen p = Some (cap, err) \<longrightarrow> (\<forall>off. err off = 0))"

definition disk :: "nat \<Rightarrow> fopen" where
  "disk cap = (\<lambda>_. Some (cap, \<lambda>_. 0))"

definition mukv_ok :: "mukv \<Rightarrow> bool" where
  "mukv_ok kv \<longleftrightarrow> apr_hash_ok (index kv) \<and> (\<forall>off. ferr (kvfile kv) off = 0) \<and>
     (\<forall>k e. rhash_get (index kv) k = Some e \<longrightarrow> moff e + msize e \<le> length (fdata (kvfile kv)))"

definition mukv_abs :: "mukv \<Rightarrow> string \<Rightarrow> string option" where
  "mukv_abs kv k = map_option (slice (fdata (kvfile kv))) (rhash_get (index kv) k)"



text \<open>A store with room for eight bytes and one pair in it, for the examples.\<close>

definition demo_kv :: mukv where
  "demo_kv = snd (mukv_store (the (mukv_open (disk 8) ''/tmp/kv'')) ''k'' ''abc'')"

lemma fread_data [simp]: "fdata (snd (fread f n)) = fdata f"
  by (simp add: fread_def Let_def)

lemma seeks_disk [simp]: "seeks (disk n)"
  by (simp add: seeks_def disk_def)

lemma fseek_ok:
  assumes "\<forall>off. ferr f off = 0"
  shows "fseek_set f n = (0, f\<lparr>fpos := n\<rparr>)" "fseek_end f = (0, f\<lparr>fpos := length (fdata f)\<rparr>)"
  using assms by (simp_all add: fseek_set_def fseek_end_def)

lemma fwrite_end:
  "fwrite (f\<lparr>fpos := length (fdata f)\<rparr>) bs =
     (min (length bs) (fcap f - length (fdata f)),
      f\<lparr>fdata := fdata f @ take (min (length bs) (fcap f - length (fdata f))) bs,
        fpos := length (fdata f) + min (length bs) (fcap f - length (fdata f))\<rparr>)"
  by (simp add: fwrite_def Let_def)

lemma mukv_store_eq:
  assumes "mukv_ok kv"
  shows "mukv_store kv key val =
    (let n = min (length val) (fcap (kvfile kv) - length (fdata (kvfile kv)));
         f' = (kvfile kv)\<lparr>fdata := fdata (kvfile kv) @ take n val, fpos := length (fdata (kvfile kv)) + n\<rparr>
     in if n \<noteq> length val then (ENOSPC, kv\<lparr>kvfile := f'\<rparr>)
        else (0, kv\<lparr>kvfile := f', index := rhash_set (index kv) key (Some \<lparr>moff = length (fdata (kvfile kv)), msize = length val\<rparr>)\<rparr>))"
  using assms by (simp add: mukv_store_def mukv_ok_def fseek_ok fwrite_end ftell_def Let_def)

lemma slice_append: "moff e + msize e \<le> length bs \<Longrightarrow> slice (bs @ cs) e = slice bs e"
  by (simp add: slice_def)

lemma mukv_fetch_val:
  assumes "mukv_ok kv"
  shows "fst (mukv_fetch kv k) = mukv_abs kv k"
proof (cases "rhash_get (index kv) k")
  case (Some e)
  then have "moff e + msize e \<le> length (fdata (kvfile kv))" "\<forall>off. ferr (kvfile kv) off = 0"
    using assms by (auto simp: mukv_ok_def)
  then show ?thesis
    using Some by (simp add: mukv_fetch_def mukv_abs_def slice_def fread_def ftell_def fseek_ok Let_def)
qed (simp add: mukv_fetch_def mukv_abs_def)

lemma mukv_fetch_frame:
  "index (snd (mukv_fetch kv k)) = index kv" "fdata (kvfile (snd (mukv_fetch kv k))) = fdata (kvfile kv)"
  "ferr (kvfile (snd (mukv_fetch kv k))) = ferr (kvfile kv)"
  by (auto simp: mukv_fetch_def fread_def fseek_set_def Let_def split: option.split)

lemma mukv_store_ok: "mukv_ok kv \<Longrightarrow> mukv_ok (snd (mukv_store kv k v))"
  by (auto simp: mukv_store_eq, auto simp: mukv_ok_def rh.ok_put rh.get_put Let_def
      split: if_splits dest: add_leD1 intro: trans_le_add1)

lemma mukv_store_abs:
  assumes "mukv_ok kv" "fst (mukv_store kv k v) = 0"
  shows "mukv_abs (snd (mukv_store kv k v)) = (mukv_abs kv)(k \<mapsto> v)"
proof
  fix k'
  have full: "min (length v) (fcap (kvfile kv) - length (fdata (kvfile kv))) = length v"
    using assms by (auto simp: mukv_store_eq Let_def ENOSPC_def split: if_splits)
  show "mukv_abs (snd (mukv_store kv k v)) k' = ((mukv_abs kv)(k \<mapsto> v)) k'"
  proof (cases "rhash_get (index kv) k'")
    case (Some e)
    then have "moff e + msize e \<le> length (fdata (kvfile kv))" using assms(1) by (auto simp: mukv_ok_def)
    then have "msize e \<le> length (fdata (kvfile kv)) - moff e" by simp
    then show ?thesis
      using assms(1) full Some
      by (simp add: mukv_store_eq, simp add: mukv_abs_def mukv_ok_def rh.get_put
          slice_def Let_def)
  next
    case None
    then show ?thesis
      using assms(1) full
      by (simp add: mukv_store_eq, simp add: mukv_abs_def mukv_ok_def rh.get_put
          slice_def Let_def)
  qed
qed

lemma mukv_store_abs_fail:
  assumes "mukv_ok kv" "fst (mukv_store kv k v) \<noteq> 0"
  shows "mukv_abs (snd (mukv_store kv k v)) = mukv_abs kv"
proof
  fix k'
  show "mukv_abs (snd (mukv_store kv k v)) k' = mukv_abs kv k'"
    using assms by (cases "rhash_get (index kv) k'")
      (auto simp: mukv_store_eq mukv_abs_def mukv_ok_def slice_append Let_def split: if_splits)
qed

lemma mukv_delete_abs: "mukv_ok kv \<Longrightarrow> mukv_abs (snd (mukv_delete kv k)) = (mukv_abs kv)(k := None)"
  by (auto simp: fun_eq_iff mukv_abs_def mukv_delete_def mukv_ok_def rh.get_put split: option.split)

lemma mukv_delete_ok: "mukv_ok kv \<Longrightarrow> mukv_ok (snd (mukv_delete kv k))"
  by (auto simp: mukv_ok_def mukv_delete_def rh.ok_put rh.get_put split: option.split)

interpretation kv: kv_store mukv_abs mukv_ok mukv_store mukv_fetch mukv_delete mukv_exists
proof unfold_locales
  show "mukv_ok (snd (mukv_fetch s k))" if "mukv_ok s" for s k
    using that by (simp add: mukv_ok_def mukv_fetch_frame)
  show "mukv_abs (snd (mukv_fetch s k)) = mukv_abs s" for s k
    by (simp add: mukv_abs_def mukv_fetch_frame fun_eq_iff)
  show "fst (mukv_delete s k) = 0" for s k
    by (simp add: mukv_delete_def split: option.split)
  show "mukv_exists s k \<longleftrightarrow> mukv_abs s k \<noteq> None" for s k
    by (simp add: mukv_exists_def mukv_abs_def)
qed (simp_all add: mukv_store_ok mukv_store_abs mukv_store_abs_fail mukv_fetch_val mukv_delete_ok mukv_delete_abs)

lemma mukv_open_ok: "mukv_open fopen p = Some kv \<Longrightarrow> seeks fopen \<Longrightarrow> mukv_ok kv \<and> mukv_abs kv = Map.empty"
  by (auto simp: mukv_open_def seeks_def mukv_ok_def mukv_abs_def fun_eq_iff split: option.splits)

section \<open>Properties\<close>

lemma demo_kv_ok: "mukv_ok demo_kv"
  unfolding demo_kv_def by (rule kv.ok_store) (simp add: mukv_open_def disk_def mukv_ok_def)

text \<open>
  C27. A store succeeds exactly when the value fits behind the data already written. After a success
  the key yields the value and every other key what it yielded before; after a failure (a short
  write) every key yields what it yielded before, although part of the value is in the file.
\<close>

theorem mukv_store_fetch:
  assumes "mukv_ok kv"
  shows "(fst (mukv_store kv k v) = 0 \<longleftrightarrow> length v \<le> fcap (kvfile kv) - length (fdata (kvfile kv))) \<and>
    mukv_ok (snd (mukv_store kv k v)) \<and>
    fst (mukv_fetch (snd (mukv_store kv k v)) k') =
      (if fst (mukv_store kv k v) = 0 \<and> k' = k then Some v else fst (mukv_fetch kv k'))"
proof -
  have "fst (mukv_store kv k v) = 0 \<longleftrightarrow> length v \<le> fcap (kvfile kv) - length (fdata (kvfile kv))"
    using assms by (auto simp: mukv_store_eq Let_def ENOSPC_def)
  then show ?thesis using assms by (auto simp: kv.ok_kv kv.abs_kv)
qed

theorem mukv_store_fetch_witness:
  "fst (mukv_fetch (snd (mukv_store demo_kv ''j'' ''de'')) ''k'') = Some ''abc'' \<and>
   fst (mukv_store demo_kv ''k'' ''defghi'') \<noteq> 0 \<and>
   fst (mukv_fetch (snd (mukv_store demo_kv ''k'' ''defghi'')) ''k'') = Some ''abc''"
proof -
  have "fst (mukv_fetch demo_kv ''k'') = Some ''abc''" "fcap (kvfile demo_kv) = 8" "length (fdata (kvfile demo_kv)) = 3"
    by code_simp+
  then show ?thesis
    using mukv_store_fetch [OF demo_kv_ok, of "''j''" "''de''" "''k''"]
      mukv_store_fetch [OF demo_kv_ok, of "''k''" "''defghi''" "''k''"] by simp
qed

end
