(* ===== verification/Types.thy ===== *)
theory Types
  imports Rhash "HOL-Library.List_Lexorder" "HOL-Library.Char_ord"
begin

text \<open>
  The data that the components of \<open>src/\<close> pass to each other: the dump options of \<open>dump.h\<close>,
  the log entries of \<open>log.h\<close>, the part of the session of \<open>session.h\<close> that the dump logic reads,
  the remote repository as the answers of the Subversion RA functions, and the two public
  helpers of \<open>delta.c\<close> on copy sources that both \<open>delta.c\<close> and \<open>path_repo.c\<close> call. The sorting
  wrapper of \<open>utils.c\<close> is here too: strings are ordered by their unsigned bytes, which is the
  order of \<open>strcmp\<close>.
\<close>

unbundle bit_operations_syntax

section \<open>Options, logs, session\<close>

definition DF_USE_DELTAS :: u32 where "DF_USE_DELTAS = 0x01"
definition DF_KEEP_REVNUMS :: u32 where "DF_KEEP_REVNUMS = 0x02"
definition DF_INCREMENTAL :: u32 where "DF_INCREMENTAL = 0x04"
definition DF_INITIAL_DRY_RUN :: u32 where "DF_INITIAL_DRY_RUN = 0x08"
definition DF_NO_INCREMENTAL_HEADER :: u32 where "DF_NO_INCREMENTAL_HEADER = 0x10"
definition DF_DRY_RUN :: u32 where "DF_DRY_RUN = 0x20"

lemmas DF_defs = DF_USE_DELTAS_def DF_KEEP_REVNUMS_def DF_INCREMENTAL_def DF_INITIAL_DRY_RUN_def
  DF_NO_INCREMENTAL_HEADER_def DF_DRY_RUN_def

record dump_options =
  temp_dir :: "string option"
  opt_prefix :: "string option"
  opt_start :: revnum
  opt_end :: revnum
  opt_flags :: u32
  dump_format :: int

definition has_flag :: "dump_options \<Rightarrow> u32 \<Rightarrow> bool" where
  "has_flag opts f \<longleftrightarrow> opt_flags opts AND f \<noteq> 0"

definition dump_options_create :: dump_options where
  "dump_options_create =
     \<lparr>temp_dir = None, opt_prefix = None, opt_start = 0, opt_end = -1, opt_flags = 0, dump_format = 2\<rparr>"

text \<open>\<open>svn_log_changed_path_t\<close> and \<open>log_revision_t\<close>.\<close>

record changed_path =
  cp_action :: char
  cp_copyfrom_path :: "string option"
  cp_copyfrom_rev :: revnum

record log_revision =
  lr_revision :: revnum
  lr_author :: "string option"
  lr_date :: "string option"
  lr_message :: "string option"
  lr_changed_paths :: "changed_path apr_hash option"

datatype node_kind = node_none | node_file | node_dir | node_unknown

text \<open>
  The remote repository: \<open>svn_ra_get_dir2\<close> and \<open>svn_ra_stat\<close> at a path and a revision. \<open>None\<close> is
  an error; \<open>svn_ra_stat\<close> answers \<open>Some None\<close> for a path that does not exist.
\<close>

record ra =
  ra_get_dir :: "string \<Rightarrow> revnum \<Rightarrow> (string \<times> node_kind) list option"
  ra_stat :: "string \<Rightarrow> revnum \<Rightarrow> node_kind option option"

text \<open>
  A pointer to a string in a pool that has been destroyed or cleared, with the string that was there. What a read through it
  gives is up to the memory: any text, or an access that is refused.
\<close>

datatype freed = Freed string

section \<open>Copy sources\<close>

definition delta_get_local_copyfrom_path :: "string \<Rightarrow> string \<Rightarrow> string option" where
  "delta_get_local_copyfrom_path pre path =
     (if \<not> starts_with path pre then None
      else Some (dropWhile (\<lambda>c. c = slash) (drop (length pre) path)))"

text \<open>The backwards loop of \<open>delta_get_local_copyfrom_rev\<close>; \<open>n\<close> is the value of \<open>rev\<close> before the
  decrement of the loop condition.\<close>

fun copyfrom_rev_loop :: "revnum \<Rightarrow> log_revision list \<Rightarrow> nat \<Rightarrow> revnum" where
  "copyfrom_rev_loop original logs 0 = -1"
| "copyfrom_rev_loop original logs (Suc rv) =
     (let logrev = logs ! rv
      in if original = lr_revision logrev then int rv
         else if lr_revision logrev < original then int rv
         else copyfrom_rev_loop original logs rv)"

definition delta_get_local_copyfrom_rev ::
  "revnum \<Rightarrow> dump_options \<Rightarrow> log_revision list \<Rightarrow> revnum \<Rightarrow> revnum" where
  "delta_get_local_copyfrom_rev original opts logs local_revnum =
     (if has_flag opts DF_KEEP_REVNUMS then original
      else if logs = [] then -2
      else copyfrom_rev_loop original logs (length logs - 1))"

section \<open>The compressor\<close>

text \<open>
  What the path repository and the property storage use to compress stored data: snappy with
  \<open>USE_SNAPPY\<close>, nothing without it. They rely on decompression undoing compression, for the data
  \<open>D\<close> they are given: snappy keeps the promise for everything below 2 GiB (theory \<open>Snappy\<close>).
\<close>

record codec =
  compress :: "string \<Rightarrow> string option"
  uncompress :: "string \<Rightarrow> string option"

definition codec_none :: codec where
  "codec_none = \<lparr>compress = Some, uncompress = Some\<rparr>"

definition codec_ok :: "codec \<Rightarrow> string set \<Rightarrow> bool" where
  "codec_ok cdc D \<longleftrightarrow> (\<forall>d \<in> D. \<exists>z. compress cdc d = Some z \<and> uncompress cdc z = Some d)"

section \<open>Sorting\<close>

definition utils_sort :: "string list \<Rightarrow> string list" where
  "utils_sort a = sort a"

definition demo_revs :: "log_revision list" where
  "demo_revs = map (\<lambda>r. \<lparr>lr_revision = r, lr_author = None, lr_date = None, lr_message = None, lr_changed_paths = None\<rparr>) [3, 9]"

section \<open>Facts\<close>

lemma codec_none_ok: "codec_ok codec_none D"
  by (simp add: codec_ok_def codec_none_def)

text \<open>The latest log index, the last one excluded, whose revision is not after the original.\<close>

lemma copyfrom_rev_loop_spec:
  "n \<le> length logs \<Longrightarrow>
     (copyfrom_rev_loop original logs n = -1 \<and> (\<forall>i < n. original < lr_revision (logs ! i))) \<or>
     (\<exists>r < n. copyfrom_rev_loop original logs n = int r \<and> lr_revision (logs ! r) \<le> original \<and>
        (\<forall>i. r < i \<and> i < n \<longrightarrow> original < lr_revision (logs ! i)))"
proof (induction original logs n rule: copyfrom_rev_loop.induct)
  case (2 original logs rv)
  show ?case
  proof (cases "lr_revision (logs ! rv) \<le> original")
    case True
    then show ?thesis by (intro disjI2 exI [of _ rv]) (auto simp: Let_def)
  next
    case False
    then have eq: "copyfrom_rev_loop original logs (Suc rv) = copyfrom_rev_loop original logs rv"
      by (simp add: Let_def)
    show ?thesis
      using "2.IH" [OF refl] "2.prems" False unfolding eq by (fastforce simp: less_Suc_eq)
  qed
qed simp

lemma copyfrom_path_append [simp]:
  "c \<noteq> slash \<Longrightarrow> delta_get_local_copyfrom_path pre (pre @ slash # c # s) = Some (c # s)"
  by (simp add: delta_get_local_copyfrom_path_def)

section \<open>Properties\<close>

text \<open>
  C32. Without \<open>--keep-revnums\<close> the local copy source revision is the latest dumped revision, the
  current one excluded, whose original number is not after the original copy source, and -1 when
  there is none.
\<close>

theorem delta_get_local_copyfrom_rev_correct:
  assumes "\<not> has_flag opts DF_KEEP_REVNUMS" "logs \<noteq> []"
  shows "(delta_get_local_copyfrom_rev original opts logs l = -1 \<and>
            (\<forall>i < length logs - 1. original < lr_revision (logs ! i))) \<or>
         (\<exists>r < length logs - 1. delta_get_local_copyfrom_rev original opts logs l = int r \<and>
            lr_revision (logs ! r) \<le> original \<and>
            (\<forall>i. r < i \<and> i < length logs - 1 \<longrightarrow> original < lr_revision (logs ! i)))"
  using copyfrom_rev_loop_spec [of "length logs - 1" logs original] assms
  by (simp add: delta_get_local_copyfrom_rev_def)

theorem delta_get_local_copyfrom_rev_correct_witness:
  "delta_get_local_copyfrom_rev 7 dump_options_create demo_revs 1 = 0"
proof -
  have "\<not> has_flag dump_options_create DF_KEEP_REVNUMS" by code_simp
  moreover have "demo_revs \<noteq> []" "length demo_revs = 2" "lr_revision (demo_revs ! 0) = 3" by (simp_all add: demo_revs_def)
  ultimately show ?thesis
    using delta_get_local_copyfrom_rev_correct [of dump_options_create demo_revs 7 1] by auto
qed

end
