(* ===== verification/Path_Repo.thy ===== *)
theory Path_Repo
  imports Critbit Mukv Types
begin

text \<open>
  The versioned path storage of \<open>src/path_repo.c\<close>: which paths exist in which revision. The
  current tree is a crit-bit tree; scheduled actions are collected in \<open>delta\<close>; a commit writes
  them (or, every \<open>SNAPSHOT_INTERVAL\<close> revisions, the whole tree) under the revision number into
  the key-value store; older trees are rebuilt from the last snapshot and kept in a small FIFO
  cache.

  The record \<open>path_repo\<close> has the fields of \<open>struct path_repo_t\<close> but for the pools and the debug
  counters. The compressor is the argument \<open>cdc\<close>: with \<open>USE_SNAPPY\<close> it is snappy, without it
  (\<open>codec_none\<close>) data is stored as it is. Operations that can run into undefined behaviour or a
  failed assertion return an option, \<open>None\<close> for that case; the integer they return else is the
  status of the source, 0 for success.
\<close>

unbundle bit_operations_syntax

section \<open>Definitions\<close>

definition SNAPSHOT_INTERVAL :: int where
  "SNAPSHOT_INTERVAL = 1024"

definition CACHE_SIZE :: nat where
  "CACHE_SIZE = 4"

record path_repo =
  db :: mukv
  delta :: "action list"
  delta_len :: int
  tree :: cb_tree
  head :: revnum
  cache :: "(revnum \<times> cb_tree) list"
  cache_index :: nat

text \<open>\<open>apr_itoa\<close> takes an \<open>int\<close>: the revision number is truncated to 32 bits.\<close>

definition apr_itoa :: "int \<Rightarrow> string" where
  "apr_itoa n = dec_int (c_int n)"

definition pr_cache_init :: "memalign \<Rightarrow> nat \<Rightarrow> (revnum \<times> cb_tree) list" where
  "pr_cache_init memalign sz = replicate sz (-1, cb_tree_make memalign)"

text \<open>
  The callback reads \<open>elem[path_len]\<close>. Past the terminator of \<open>elem\<close> the read is out of bounds:
  the collected array becomes \<open>None\<close>.
\<close>

definition pr_tree_to_array_cb :: "nat \<Rightarrow> string \<Rightarrow> string list option \<Rightarrow> int \<times> string list option" where
  "pr_tree_to_array_cb path_len elem data =
     (0, case data of
           None \<Rightarrow> None
         | Some arr \<Rightarrow>
             if path_len = 0 then Some (arr @ [elem])
             else if length elem < path_len then None
             else if path_len = length elem \<or> elem ! path_len = slash then Some (arr @ [elem])
             else Some arr)"

definition pr_tree_to_array :: "cb_tree \<Rightarrow> string \<Rightarrow> string list option" where
  "pr_tree_to_array t path =
     (case cb_tree_walk_prefixed t path (pr_tree_to_array_cb (length path)) (Some []) of
        (ret, data) \<Rightarrow> if ret \<noteq> 0 then None else data)"

text \<open>An action in the buffer: the action character, the path and its terminator.\<close>

definition enc_action :: "action \<Rightarrow> string" where
  "enc_action e = fst e # snd e @ [nul]"

definition pr_encode :: "cb_tree \<Rightarrow> int \<times> string" where
  "pr_encode t =
     (case pr_tree_to_array t '''' of
        None \<Rightarrow> (-1, [])
      | Some arr \<Rightarrow> (0, concat (map (\<lambda>p. enc_action (CHR ''+'', p)) arr)))"

text \<open>The length is an \<open>int\<close>; \<open>len\<close> is what is left of it.\<close>

function pr_delta_loop :: "cb_tree \<Rightarrow> string \<Rightarrow> int \<Rightarrow> cb_tree" where
  "pr_delta_loop t [] len = t"
| "pr_delta_loop t (a # rest) len =
     (if len \<le> 0 then t
      else (let p = cstr_of rest;
                t' = snd (if a = CHR ''+'' then cb_tree_insert t p else cb_tree_delete t p)
            in pr_delta_loop t' (drop (1 + length p) rest) (len - (2 + int (length p)))))"
  by pat_completeness auto
termination
  by (relation "measure (\<lambda>(t, s, len). length s)") auto

definition pr_delta_apply :: "cb_tree \<Rightarrow> string \<Rightarrow> int \<Rightarrow> cb_tree" where
  "pr_delta_apply t data len = pr_delta_loop t data (c_int len)"

function pr_recon_loop ::
  "codec \<Rightarrow> mukv \<Rightarrow> cb_tree \<Rightarrow> revnum \<Rightarrow> revnum \<Rightarrow> int \<times> mukv \<times> cb_tree" where
  "pr_recon_loop cdc kv t r revision =
     (if r \<le> revision
      then let key = apr_itoa r
           in if mukv_exists kv key
              then (case mukv_fetch kv key of
                      (None, kv') \<Rightarrow> (-1, kv', t)
                    | (Some val, kv') \<Rightarrow>
                        (case uncompress cdc val of
                           None \<Rightarrow> (-1, kv', t)
                         | Some d \<Rightarrow> pr_recon_loop cdc kv' (pr_delta_apply t d (int (length d))) (r + 1) revision))
              else pr_recon_loop cdc kv t (r + 1) revision
      else (0, kv, t))"
  by pat_completeness auto
termination
  by (relation "measure (\<lambda>(cdc, kv, t, r, revision). nat (revision - r + 1))") auto

declare pr_recon_loop.simps [simp del]

definition pr_reconstruct :: "codec \<Rightarrow> mukv \<Rightarrow> cb_tree \<Rightarrow> revnum \<Rightarrow> int \<times> mukv \<times> cb_tree" where
  "pr_reconstruct cdc kv t revision =
     pr_recon_loop cdc kv t (revision AND NOT (SNAPSHOT_INTERVAL - 1)) revision"

fun cache_find :: "revnum \<Rightarrow> (revnum \<times> cb_tree) list \<Rightarrow> cb_tree option" where
  "cache_find revision [] = None"
| "cache_find revision ((r, t) # cs) = (if r = revision then Some t else cache_find revision cs)"

definition pr_tree :: "codec \<Rightarrow> path_repo \<Rightarrow> revnum \<Rightarrow> cb_tree option \<times> path_repo" where
  "pr_tree cdc repo revision =
     (case cache_find revision (cache repo) of
        Some t \<Rightarrow> (Some t, repo)
      | None \<Rightarrow>
          (let i = cache_index repo;
               (r, t) = cache repo ! i;
               t = (if root t \<noteq> None then cb_tree_clear t else t);
               (st, kv, t) = pr_reconstruct cdc (db repo) t revision
           in if st \<noteq> 0 then (None, repo\<lparr>db := kv, cache := (cache repo)[i := (r, t)]\<rparr>)
              else (Some t,
                repo\<lparr>db := kv, cache := (cache repo)[i := (revision, t)],
                     cache_index := (if length (cache repo) \<le> i + 1 then 0 else i + 1)\<rparr>)))"

text \<open>
  The remote listing: an error of a subdirectory is dropped, as the result of the recursive
  call is. \<open>fuel\<close> bounds the depth of the remote tree; \<open>None\<close> means that it is deeper.
\<close>

fun pr_fetch_paths_rec :: "ra \<Rightarrow> nat \<Rightarrow> string list \<Rightarrow> string \<Rightarrow> revnum \<Rightarrow> (int \<times> string list) option" where
  "pr_fetch_paths_rec ra 0 paths path rv = None"
| "pr_fetch_paths_rec ra (Suc fuel) paths path rv =
     (case ra_get_dir ra path rv of
        None \<Rightarrow> Some (-1, paths)
      | Some dirents \<Rightarrow>
          fold (\<lambda>(entry, kind) acc.
              (case acc of
                 None \<Rightarrow> None
               | Some (ret, ps) \<Rightarrow>
                   (let subpath = (if path \<noteq> [] then path @ [slash] @ entry else entry)
                    in if kind = node_file then Some (ret, ps @ [subpath])
                       else if kind = node_dir
                       then map_option (\<lambda>(_, ps'). (ret, ps'))
                              (pr_fetch_paths_rec ra fuel (ps @ [subpath]) subpath rv)
                       else Some (ret, ps))))
            dirents (Some (0, paths)))"

definition pr_fetch_paths :: "ra \<Rightarrow> nat \<Rightarrow> string list \<Rightarrow> string \<Rightarrow> revnum \<Rightarrow> (int \<times> string list) option" where
  "pr_fetch_paths ra fuel paths path rv =
     (case ra_stat ra path rv of
        None \<Rightarrow> Some (-1, paths)
      | Some None \<Rightarrow> Some (0, paths)
      | Some (Some kind) \<Rightarrow>
          if kind = node_file then Some (0, paths @ [path])
          else pr_fetch_paths_rec ra fuel (paths @ [path]) path rv)"

text \<open>\<open>snappy_init\<close> is the outcome of \<open>snappy_init_env\<close>, true where snappy is not used.\<close>

definition path_repo_create :: "bool \<Rightarrow> memalign \<Rightarrow> fopen \<Rightarrow> string \<Rightarrow> path_repo option" where
  "path_repo_create snappy_init memalign fopen tmpdir =
     (case mukv_open fopen (tmpdir @ ''/paths.db'') of
        None \<Rightarrow> None
      | Some kv \<Rightarrow>
          if \<not> snappy_init then None
          else Some \<lparr>db = kv, delta = [], delta_len = 0, tree = cb_tree_make memalign, head = 0,
                     cache = pr_cache_init memalign CACHE_SIZE, cache_index = 0\<rparr>)"

text \<open>\<open>delta_len\<close> is an \<open>int\<close>: the sum is converted to 32 bits.\<close>

definition path_repo_add :: "path_repo \<Rightarrow> string \<Rightarrow> int \<times> path_repo" where
  "path_repo_add repo path =
     (let (st, t) = cb_tree_insert (tree repo) path;
          repo' = repo\<lparr>delta := delta repo @ [(CHR ''+'', path)],
                       delta_len := c_int (delta_len repo + (2 + int (length path))), tree := t\<rparr>
      in if st \<noteq> 0 then (-1, repo') else (0, repo'))"

definition pr_delete_one :: "string \<Rightarrow> path_repo \<Rightarrow> path_repo" where
  "pr_delete_one p repo =
     repo\<lparr>delta := delta repo @ [(CHR ''-'', p)],
          delta_len := c_int (delta_len repo + (2 + int (length p))),
          tree := snd (cb_tree_delete (tree repo) p)\<rparr>"

definition path_repo_delete :: "path_repo \<Rightarrow> string \<Rightarrow> (int \<times> path_repo) option" where
  "path_repo_delete repo path =
     (case pr_tree_to_array (tree repo) path of
        None \<Rightarrow> None
      | Some paths \<Rightarrow> Some (0, fold pr_delete_one paths repo))"

definition is_snapshot :: "revnum \<Rightarrow> bool" where
  "is_snapshot revision \<longleftrightarrow> revision > 0 \<and> revision mod SNAPSHOT_INTERVAL = 0"

text \<open>The scheduled actions in a buffer of \<open>delta_len\<close> bytes: \<open>None\<close> when they do not fill it exactly, since then
  the source writes past the end of the buffer or stores bytes that it did not write.\<close>

definition pr_delta_encode :: "path_repo \<Rightarrow> string option" where
  "pr_delta_encode repo =
     (let bs = concat (map enc_action (delta repo))
      in if int (length bs) \<noteq> delta_len repo then None else Some bs)"

definition path_repo_commit :: "codec \<Rightarrow> path_repo \<Rightarrow> revnum \<Rightarrow> (int \<times> path_repo) option" where
  "path_repo_commit cdc repo revision =
     (let snapshot = is_snapshot revision
      in if delta_len repo \<le> 0 \<and> \<not> snapshot then Some (0, repo\<lparr>head := revision\<rparr>)
         else (case (if \<not> snapshot then map_option (Pair 0) (pr_delta_encode repo)
                     else Some (pr_encode (tree repo))) of
                 None \<Rightarrow> None
               | Some (st, val) \<Rightarrow>
                   if st \<noteq> 0 then Some (-1, repo)
                   else (case compress cdc val of
                           None \<Rightarrow> Some (-1, repo)
                         | Some z \<Rightarrow>
                             (case mukv_store (db repo) (apr_itoa revision) z of
                                (rc, kv) \<Rightarrow>
                                  if rc \<noteq> 0 then Some (-1, repo\<lparr>db := kv\<rparr>)
                                  else Some (0, repo\<lparr>db := kv, head := revision, delta_len := 0, delta := []\<rparr>)))))"

definition path_repo_discard :: "codec \<Rightarrow> path_repo \<Rightarrow> int \<times> path_repo" where
  "path_repo_discard cdc repo =
     (case pr_reconstruct cdc (db repo) (cb_tree_clear (tree repo)) (head repo) of
        (st, kv, t) \<Rightarrow> (st, repo\<lparr>delta_len := 0, delta := [], db := kv, tree := t\<rparr>))"

definition path_repo_exists :: "codec \<Rightarrow> path_repo \<Rightarrow> string \<Rightarrow> revnum \<Rightarrow> int \<times> path_repo" where
  "path_repo_exists cdc repo path revision =
     (if revision < 0 then (0, repo)
      else (case pr_tree cdc repo revision of
              (None, repo') \<Rightarrow> (-1, repo')
            | (Some t, repo') \<Rightarrow> (if cb_tree_contains t path then 1 else 0, repo')))"

definition path_repo_check_parent ::
  "codec \<Rightarrow> path_repo \<Rightarrow> string \<Rightarrow> string \<Rightarrow> revnum \<Rightarrow> int \<times> path_repo" where
  "path_repo_check_parent cdc repo parent child revision =
     (if revision < 0 then (0, repo)
      else (case pr_tree cdc repo revision of
              (None, repo') \<Rightarrow> (-1, repo')
            | (Some t, repo') \<Rightarrow>
                (if cb_tree_contains t (parent @ [slash] @ child) then 1 else 0, repo')))"

text \<open>The results of these additions are dropped by the source.\<close>

definition pr_add_all :: "string list \<Rightarrow> path_repo \<Rightarrow> path_repo" where
  "pr_add_all ps repo = fold (\<lambda>p r. snd (path_repo_add r p)) ps repo"

text \<open>One iteration of the loop of \<open>path_repo_commit_log\<close>, its part after the \<open>continue\<close> first; a
  failed assertion is \<open>None\<close>.\<close>

definition pr_log_add ::
  "codec \<Rightarrow> ra \<Rightarrow> nat \<Rightarrow> string \<Rightarrow> dump_options \<Rightarrow> log_revision list \<Rightarrow> revnum \<Rightarrow> revnum \<Rightarrow>
     string \<Rightarrow> changed_path \<Rightarrow> path_repo \<Rightarrow> (int \<times> path_repo) option" where
  "pr_log_add cdc ra fuel sprefix opts logs logrev revision path info repo =
     (if cp_action info \<noteq> CHR ''A'' \<and> cp_action info \<noteq> CHR ''R'' then Some (0, repo)
     else (case cp_copyfrom_path info of
             None \<Rightarrow> Some (0, pr_add_all [path] repo)
           | Some cfpath \<Rightarrow>
               (case delta_get_local_copyfrom_path sprefix cfpath of
                  None \<Rightarrow>
                    (case pr_fetch_paths ra fuel [] path logrev of
                       None \<Rightarrow> None
                     | Some (st, cpaths) \<Rightarrow>
                         if st \<noteq> 0 then Some (-1, repo) else Some (0, pr_add_all cpaths repo))
                | Some copyfrom_path \<Rightarrow>
                    (case pr_tree cdc repo
                            (delta_get_local_copyfrom_rev (cp_copyfrom_rev info) opts logs revision) of
                       (None, repo2) \<Rightarrow> Some (-1, repo2)
                     | (Some t, repo2) \<Rightarrow>
                         (case pr_tree_to_array t copyfrom_path of
                            None \<Rightarrow> None
                          | Some cpaths \<Rightarrow>
                              if cpaths = [] then None
                              else if length cpaths = 1 then Some (0, pr_add_all [path] repo2)
                              else if \<exists>rel \<in> set cpaths. length rel < length copyfrom_path then None
                              else Some (0, pr_add_all
                                     (map (\<lambda>rel. path @ drop (length copyfrom_path) rel) cpaths) repo2))))))"

definition pr_log_path ::
  "codec \<Rightarrow> ra \<Rightarrow> nat \<Rightarrow> string \<Rightarrow> dump_options \<Rightarrow> log_revision list \<Rightarrow> revnum \<Rightarrow> revnum \<Rightarrow>
     string \<Rightarrow> changed_path \<Rightarrow> path_repo \<Rightarrow> (int \<times> path_repo) option" where
  "pr_log_path cdc ra fuel sprefix opts logs logrev revision path info repo =
     (case (if cp_action info = CHR ''D'' \<or> cp_action info = CHR ''R''
            then map_option snd (path_repo_delete repo path) else Some repo) of
        None \<Rightarrow> None
      | Some repo1 \<Rightarrow> pr_log_add cdc ra fuel sprefix opts logs logrev revision path info repo1)"

fun pr_log_paths ::
  "(string \<Rightarrow> changed_path \<Rightarrow> path_repo \<Rightarrow> (int \<times> path_repo) option) \<Rightarrow>
     changed_path apr_hash \<Rightarrow> string list \<Rightarrow> path_repo \<Rightarrow> (int \<times> path_repo) option" where
  "pr_log_paths step changed [] repo = Some (0, repo)"
| "pr_log_paths step changed (path # paths) repo =
     (case apr_hash_get changed path of
        None \<Rightarrow> None
      | Some info \<Rightarrow>
          (case step path info repo of
             None \<Rightarrow> None
           | Some (st, repo') \<Rightarrow> if st \<noteq> 0 then Some (st, repo') else pr_log_paths step changed paths repo'))"

definition path_repo_commit_log ::
  "codec \<Rightarrow> ra \<Rightarrow> nat \<Rightarrow> string \<Rightarrow> dump_options \<Rightarrow> path_repo \<Rightarrow> log_revision \<Rightarrow> revnum \<Rightarrow>
     log_revision list \<Rightarrow> (int \<times> path_repo) option" where
  "path_repo_commit_log cdc ra fuel sprefix opts repo log revision logs =
     (case lr_changed_paths log of
        None \<Rightarrow> path_repo_commit cdc repo revision
      | Some changed \<Rightarrow>
          (case pr_log_paths
                  (pr_log_path cdc ra fuel sprefix opts logs (lr_revision log) revision)
                  changed (utils_sort (map fst changed)) repo of
             None \<Rightarrow> None
           | Some (st, repo') \<Rightarrow>
               if st \<noteq> 0 then Some (st, repo') else path_repo_commit cdc repo' revision))"

section \<open>What the repository promises\<close>

text \<open>
  \<open>vpaths\<close> is the specification: the set of paths under construction, the set of paths of every
  revision, the last committed revision, whether anything was committed yet, and the revisions that were
  asked for before their commit. The cache keeps what it had for these, so nothing is promised for them.
\<close>

record vpaths =
  vcur :: "string set"
  vhist :: "revnum \<Rightarrow> string set"
  vhead :: revnum
  vfresh :: bool
  vearly :: "revnum set"

definition v_create :: vpaths where
  "v_create = \<lparr>vcur = {}, vhist = (\<lambda>_. {}), vhead = 0, vfresh = True, vearly = {}\<rparr>"

definition v_add :: "string \<Rightarrow> vpaths \<Rightarrow> vpaths" where
  "v_add p v = v\<lparr>vcur := insert p (vcur v)\<rparr>"

text \<open>A path and everything below it.\<close>

definition is_under :: "string \<Rightarrow> string \<Rightarrow> bool" where
  "is_under path e \<longleftrightarrow> path = [] \<or> e = path \<or> starts_with e (path @ [slash])"

definition v_delete :: "string \<Rightarrow> vpaths \<Rightarrow> vpaths" where
  "v_delete p v = v\<lparr>vcur := {q \<in> vcur v. \<not> is_under p q}\<rparr>"

definition v_commit :: "revnum \<Rightarrow> vpaths \<Rightarrow> vpaths" where
  "v_commit r v = v\<lparr>vhist := (\<lambda>x. if r \<le> x then vcur v else vhist v x), vhead := r, vfresh := False\<rparr>"

definition v_discard :: "vpaths \<Rightarrow> vpaths" where
  "v_discard v = v\<lparr>vcur := vhist v (vhead v)\<rparr>"

text \<open>Asking for a revision.\<close>

definition committed :: "vpaths \<Rightarrow> revnum \<Rightarrow> bool" where
  "committed v r \<longleftrightarrow> r \<le> vhead v \<and> \<not> vfresh v"

definition v_ask :: "revnum \<Rightarrow> vpaths \<Rightarrow> vpaths" where
  "v_ask r v = (if r < 0 \<or> committed v r then v else v\<lparr>vearly := insert r (vearly v)\<rparr>)"

text \<open>The revisions a commit may use: no snapshot revision may be skipped.\<close>

definition commit_ok :: "vpaths \<Rightarrow> revnum \<Rightarrow> bool" where
  "commit_ok v r \<longleftrightarrow> r < 2 ^ 31 \<and>
     (if r = 0 then vfresh v
      else vhead v < r \<and> (r - 1) div SNAPSHOT_INTERVAL = vhead v div SNAPSHOT_INTERVAL)"

text \<open>What the store holds: a ghost log of the actions stored for each revision.\<close>

definition log_step :: "action list option \<Rightarrow> string set \<Rightarrow> string set" where
  "log_step es S = (case es of None \<Rightarrow> S | Some es \<Rightarrow> set_replay S es)"

primrec log_replay :: "(revnum \<Rightarrow> action list option) \<Rightarrow> string set \<Rightarrow> revnum \<Rightarrow> nat \<Rightarrow> string set" where
  "log_replay L S r 0 = S"
| "log_replay L S r (Suc n) = log_step (L (r + int n)) (log_replay L S r n)"

definition base_rev :: "revnum \<Rightarrow> revnum" where
  "base_rev r = r div SNAPSHOT_INTERVAL * SNAPSHOT_INTERVAL"

definition recon_set :: "(revnum \<Rightarrow> action list option) \<Rightarrow> revnum \<Rightarrow> string set" where
  "recon_set L r = log_replay L {} (base_rev r) (nat (r - base_rev r + 1))"

definition acts_ok :: "action list \<Rightarrow> bool" where
  "acts_ok es \<longleftrightarrow> (\<forall>e \<in> set es. is_key (snd e))"

text \<open>What may be stored: the length of the buffer must be representable as an \<open>int\<close>.\<close>

definition stored_ok :: "action list \<Rightarrow> bool" where
  "stored_ok es \<longleftrightarrow> acts_ok es \<and> int (length (concat (map enc_action es))) < 2 ^ 31"

definition db_log :: "codec \<Rightarrow> (string \<Rightarrow> string option) \<Rightarrow> (revnum \<Rightarrow> action list option) \<Rightarrow> bool" where
  "db_log cdc m L \<longleftrightarrow> (\<forall>r. 0 \<le> r \<and> r < 2 ^ 31 \<longrightarrow>
     (case m (apr_itoa r) of
        None \<Rightarrow> L r = None
      | Some z \<Rightarrow> \<exists>es. L r = Some es \<and> stored_ok es \<and> uncompress cdc z = Some (concat (map enc_action es))))"

text \<open>
  The invariant ties a repository to its specification in two parts: the tree under construction
  with the scheduled actions, and the committed revisions with the cache.
\<close>

definition cur_ok :: "cb_tree \<Rightarrow> action list \<Rightarrow> int \<Rightarrow> string set \<Rightarrow> string set \<Rightarrow> bool" where
  "cur_ok t es len cur base \<longleftrightarrow>
     tree_ok t \<and> elems t = cur \<and> acts_ok es \<and> len = c_int (\<Sum>e \<leftarrow> es. 2 + int (length (snd e))) \<and>
     cur = set_replay base es"

definition cache_ok :: "(revnum \<Rightarrow> string set) \<Rightarrow> revnum \<Rightarrow> bool \<Rightarrow> revnum set \<Rightarrow> (revnum \<times> cb_tree) list \<Rightarrow> bool" where
  "cache_ok H h fresh early cs \<longleftrightarrow> length cs = CACHE_SIZE \<and>
     (\<forall>(r, t) \<in> set cs. tree_ok t \<and> (0 \<le> r \<and> r \<notin> early \<longrightarrow> \<not> fresh \<and> r \<le> h \<and> elems t = H r))"

definition hist_ok :: "codec \<Rightarrow> mukv \<Rightarrow> (revnum \<Rightarrow> string set) \<Rightarrow> revnum \<Rightarrow> bool \<Rightarrow> bool" where
  "hist_ok cdc kv H h fresh \<longleftrightarrow>
     mukv_ok kv \<and> 0 \<le> h \<and> h < 2 ^ 31 \<and> (fresh \<longrightarrow> h = 0 \<and> H 0 = {}) \<and>
     (\<forall>x. h < x \<longrightarrow> H x = H h) \<and>
     (\<exists>L. db_log cdc (mukv_abs kv) L \<and> (\<forall>r. h < r \<or> (fresh \<and> r = 0) \<longrightarrow> L r = None) \<and>
        (\<forall>r. 0 \<le> r \<and> r \<le> h \<longrightarrow> recon_set L r = H r))"

definition pr_inv :: "codec \<Rightarrow> path_repo \<Rightarrow> vpaths \<Rightarrow> bool" where
  "pr_inv cdc repo v \<longleftrightarrow>
     cur_ok (tree repo) (delta repo) (delta_len repo) (vcur v) (vhist v (vhead v)) \<and>
     hist_ok cdc (db repo) (vhist v) (vhead v) (vfresh v) \<and>
     cache_ok (vhist v) (vhead v) (vfresh v) (vearly v) (cache repo) \<and> cache_index repo < CACHE_SIZE \<and> head repo = vhead v"

text \<open>
  The operations in any order, under these conditions. Memory does not run out and the file can be positioned.
  Paths are deleted only when some path starts with them. Commits use increasing revision numbers that
  skip no snapshot revision, and store less than 2 GiB of data that the compressor can handle
  (\<open>commit_ok\<close>, \<open>commit_fits\<close>). Any revision may be asked for, committed or not. The program does not keep to these conditions in
  all cases: \<open>path_repo_delete_absent\<close> and \<open>path_repo_skipped_snapshot\<close> below show what happens otherwise.
\<close>

definition commit_data :: "path_repo \<Rightarrow> revnum \<Rightarrow> string" where
  "commit_data repo r = (if is_snapshot r then snd (pr_encode (tree repo)) else concat (map enc_action (delta repo)))"

definition commit_fits :: "string set \<Rightarrow> path_repo \<Rightarrow> revnum \<Rightarrow> bool" where
  "commit_fits D repo r \<longleftrightarrow> commit_data repo r \<in> D \<and> int (length (commit_data repo r)) < 2 ^ 31"

inductive pr_reach :: "codec \<Rightarrow> string set \<Rightarrow> path_repo \<Rightarrow> vpaths \<Rightarrow> bool" for cdc :: codec and D :: "string set" where
  create: "path_repo_create snappy_init mem fopen tmp = Some repo \<Longrightarrow> mem_enough mem \<Longrightarrow> seeks fopen \<Longrightarrow>
    pr_reach cdc D repo v_create"
| add: "pr_reach cdc D repo v \<Longrightarrow> is_key p \<Longrightarrow> path_repo_add repo p = (st, repo') \<Longrightarrow>
    pr_reach cdc D repo' (v_add p v)"
| delete: "pr_reach cdc D repo v \<Longrightarrow> is_cstr p \<Longrightarrow> s \<in> vcur v \<Longrightarrow> starts_with s p \<Longrightarrow>
    path_repo_delete repo p = Some (st, repo') \<Longrightarrow> pr_reach cdc D repo' (v_delete p v)"
| commit: "pr_reach cdc D repo v \<Longrightarrow> commit_ok v r \<Longrightarrow> commit_fits D repo r \<Longrightarrow>
    path_repo_commit cdc repo r = Some (0, repo') \<Longrightarrow>
    pr_reach cdc D repo' (v_commit r v)"
| commit_fail: "pr_reach cdc D repo v \<Longrightarrow> commit_ok v r \<Longrightarrow> commit_fits D repo r \<Longrightarrow>
    path_repo_commit cdc repo r = Some (st, repo') \<Longrightarrow>
    st \<noteq> 0 \<Longrightarrow> pr_reach cdc D repo' v"
| discard: "pr_reach cdc D repo v \<Longrightarrow> path_repo_discard cdc repo = (st, repo') \<Longrightarrow>
    pr_reach cdc D repo' (v_discard v)"
| exists: "pr_reach cdc D repo v \<Longrightarrow> r < 2 ^ 31 \<Longrightarrow>
    path_repo_exists cdc repo p r = (st, repo') \<Longrightarrow> pr_reach cdc D repo' (v_ask r v)"
| check_parent: "pr_reach cdc D repo v \<Longrightarrow> r < 2 ^ 31 \<Longrightarrow>
    path_repo_check_parent cdc repo parent child r = (st, repo') \<Longrightarrow> pr_reach cdc D repo' (v_ask r v)"

text \<open>
  What the server has below a directory: the entries in the order of its answers. \<open>listed\<close> are the paths
  of all entries on all levels; \<open>serves\<close> says that the answers of the server are those of the listing.
\<close>

datatype listing = Done | File_entry string listing | Dir_entry string listing listing

definition entry_path :: "string \<Rightarrow> string \<Rightarrow> string" where
  "entry_path path entry = (if path \<noteq> [] then path @ [slash] @ entry else entry)"

fun dirents :: "listing \<Rightarrow> (string \<times> node_kind) list" where
  "dirents Done = []"
| "dirents (File_entry n l) = (n, node_file) # dirents l"
| "dirents (Dir_entry n sub l) = (n, node_dir) # dirents l"

fun listed :: "string \<Rightarrow> listing \<Rightarrow> string list" where
  "listed path Done = []"
| "listed path (File_entry n l) = entry_path path n # listed path l"
| "listed path (Dir_entry n sub l) = entry_path path n # listed (entry_path path n) sub @ listed path l"

fun serves_below :: "ra \<Rightarrow> revnum \<Rightarrow> string \<Rightarrow> listing \<Rightarrow> bool" where
  "serves_below ra rv path Done \<longleftrightarrow> True"
| "serves_below ra rv path (File_entry n l) \<longleftrightarrow> serves_below ra rv path l"
| "serves_below ra rv path (Dir_entry n sub l) \<longleftrightarrow>
     ra_get_dir ra (entry_path path n) rv = Some (dirents sub) \<and> serves_below ra rv (entry_path path n) sub \<and>
     serves_below ra rv path l"

definition serves :: "ra \<Rightarrow> revnum \<Rightarrow> string \<Rightarrow> listing \<Rightarrow> bool" where
  "serves ra rv path l \<longleftrightarrow> ra_stat ra path rv = Some (Some node_dir) \<and>
     ra_get_dir ra path rv = Some (dirents l) \<and> serves_below ra rv path l"

fun levels :: "listing \<Rightarrow> nat" where
  "levels Done = 0"
| "levels (File_entry n l) = levels l"
| "levels (Dir_entry n sub l) = max (Suc (levels sub)) (levels l)"

text \<open>Names in a directory are different from each other, not empty and without a slash.\<close>

fun names_ok :: "listing \<Rightarrow> bool" where
  "names_ok Done \<longleftrightarrow> True"
| "names_ok (File_entry n l) \<longleftrightarrow> n \<noteq> [] \<and> slash \<notin> set n \<and> n \<notin> fst ` set (dirents l) \<and> names_ok l"
| "names_ok (Dir_entry n sub l) \<longleftrightarrow> n \<noteq> [] \<and> slash \<notin> set n \<and> n \<notin> fst ` set (dirents l) \<and> names_ok sub \<and> names_ok l"

text \<open>What is at a path: nothing, a file or a directory with a listing of so many levels.\<close>

definition fetchable :: "ra \<Rightarrow> nat \<Rightarrow> revnum \<Rightarrow> string \<Rightarrow> string list \<Rightarrow> bool" where
  "fetchable ra fuel rv path ps \<longleftrightarrow>
     (ra_stat ra path rv = Some None \<and> ps = []) \<or> (ra_stat ra path rv = Some (Some node_file) \<and> ps = [path]) \<or>
     (\<exists>l. serves ra rv path l \<and> levels l < fuel \<and> ps = path # listed path l)"

text \<open>
  What a log entry means for the set of paths: deletions take everything below a path, copies
  bring along what was below the source in its revision; \<open>fetch\<close> lists what the server has below
  a path copied from outside of the dumped part.
\<close>

definition v_log_delete :: "string \<Rightarrow> changed_path \<Rightarrow> vpaths \<Rightarrow> vpaths" where
  "v_log_delete path info v = (if cp_action info \<in> {CHR ''D'', CHR ''R''} then v_delete path v else v)"

definition v_log_path ::
  "string \<Rightarrow> dump_options \<Rightarrow> log_revision list \<Rightarrow> (string \<Rightarrow> string list) \<Rightarrow> revnum \<Rightarrow>
     string \<Rightarrow> changed_path \<Rightarrow> vpaths \<Rightarrow> vpaths" where
  "v_log_path sprefix opts logs fetch revision path info v =
     (let v1 = v_log_delete path info v
      in if cp_action info \<notin> {CHR ''A'', CHR ''R''} then v1
         else (case cp_copyfrom_path info of
                 None \<Rightarrow> v_add path v1
               | Some cf \<Rightarrow>
                   (case delta_get_local_copyfrom_path sprefix cf of
                      None \<Rightarrow> v1\<lparr>vcur := vcur v1 \<union> set (fetch path)\<rparr>
                    | Some lp \<Rightarrow>
                        (let src = vhist v (delta_get_local_copyfrom_rev (cp_copyfrom_rev info) opts logs revision)
                         in v1\<lparr>vcur := vcur v1 \<union>
                              (\<lambda>q. path @ drop (length lp) q) ` {q \<in> src. is_under lp q}\<rparr>))))"

definition copy_src_ok :: "vpaths \<Rightarrow> string \<Rightarrow> string \<Rightarrow> revnum \<Rightarrow> bool" where
  "copy_src_ok v path lp cr \<longleftrightarrow> 0 \<le> cr \<and> committed v cr \<and> cr \<notin> vearly v \<and> lp \<noteq> [] \<and> lp \<in> vhist v cr \<and>
     (\<forall>q \<in> vhist v cr. is_under lp q \<longrightarrow> is_key (path @ drop (length lp) q))"

definition log_path_ok ::
  "ra \<Rightarrow> nat \<Rightarrow> string \<Rightarrow> dump_options \<Rightarrow> log_revision list \<Rightarrow> (string \<Rightarrow> string list) \<Rightarrow> revnum \<Rightarrow> revnum \<Rightarrow>
     string \<Rightarrow> changed_path \<Rightarrow> vpaths \<Rightarrow> bool" where
  "log_path_ok ra fuel sprefix opts logs fetch logrev revision path info v \<longleftrightarrow>
     is_key path \<and>
     (cp_action info \<in> {CHR ''D'', CHR ''R''} \<longrightarrow> (\<exists>s \<in> vcur v. starts_with s path)) \<and>
     (cp_action info \<in> {CHR ''A'', CHR ''R''} \<longrightarrow>
        (case cp_copyfrom_path info of
           None \<Rightarrow> True
         | Some cf \<Rightarrow>
             (case delta_get_local_copyfrom_path sprefix cf of
                None \<Rightarrow> fetchable ra fuel logrev path (fetch path) \<and> (\<forall>p \<in> set (fetch path). is_key p)
              | Some lp \<Rightarrow> copy_src_ok v path lp
                  (delta_get_local_copyfrom_rev (cp_copyfrom_rev info) opts logs revision))))"

fun v_log_paths ::
  "(string \<Rightarrow> changed_path \<Rightarrow> vpaths \<Rightarrow> vpaths) \<Rightarrow> changed_path apr_hash \<Rightarrow> string list \<Rightarrow> vpaths \<Rightarrow> vpaths" where
  "v_log_paths step changed [] v = v"
| "v_log_paths step changed (path # paths) v =
     v_log_paths step changed paths (step path (the (apr_hash_get changed path)) v)"

definition v_log ::
  "string \<Rightarrow> dump_options \<Rightarrow> log_revision list \<Rightarrow> (string \<Rightarrow> string list) \<Rightarrow> revnum \<Rightarrow>
     changed_path apr_hash \<Rightarrow> vpaths \<Rightarrow> vpaths" where
  "v_log sprefix opts logs fetch revision changed v =
     v_log_paths (v_log_path sprefix opts logs fetch revision) changed (utils_sort (map fst changed)) v"

fun log_paths_ok ::
  "(string \<Rightarrow> changed_path \<Rightarrow> vpaths \<Rightarrow> bool) \<Rightarrow> (string \<Rightarrow> changed_path \<Rightarrow> vpaths \<Rightarrow> vpaths) \<Rightarrow>
     changed_path apr_hash \<Rightarrow> string list \<Rightarrow> vpaths \<Rightarrow> bool" where
  "log_paths_ok good step changed [] v \<longleftrightarrow> True"
| "log_paths_ok good step changed (path # paths) v \<longleftrightarrow>
     (case apr_hash_get changed path of
        None \<Rightarrow> False
      | Some info \<Rightarrow> good path info v \<and> log_paths_ok good step changed paths (step path info v))"

text \<open>
  A short run for the examples below: an empty repository, one with \<open>trunk\<close> and \<open>trunk/a\<close>
  committed as revision 1.
\<close>

definition demo_empty :: path_repo where
  "demo_empty = the (path_repo_create True memory (disk 4096) ''/tmp'')"

definition demo_paths :: path_repo where
  "demo_paths = pr_add_all [''trunk'', ''trunk/a''] demo_empty"

definition demo_repo :: path_repo where
  "demo_repo = snd (the (path_repo_commit codec_none demo_paths 1))"

definition demo_v :: vpaths where
  "demo_v = v_commit 1 (v_add ''trunk/a'' (v_add ''trunk'' v_create))"

definition demo_opts :: dump_options where
  "demo_opts = dump_options_create"

text \<open>Revision 2 copies \<open>trunk\<close> to \<open>tag\<close>.\<close>

definition demo_changed :: "changed_path apr_hash" where
  "demo_changed = [(''tag'', \<lparr>cp_action = CHR ''A'', cp_copyfrom_path = Some ''trunk'', cp_copyfrom_rev = 1\<rparr>)]"

definition demo_log :: "revnum \<Rightarrow> changed_path apr_hash option \<Rightarrow> log_revision" where
  "demo_log r changed = \<lparr>lr_revision = r, lr_author = None, lr_date = None, lr_message = None, lr_changed_paths = changed\<rparr>"

definition demo_logs :: "log_revision list" where
  "demo_logs = [demo_log 0 None, demo_log 1 None, demo_log 2 (Some demo_changed)]"

definition no_ra :: ra where
  "no_ra = \<lparr>ra_get_dir = (\<lambda>_ _. None), ra_stat = (\<lambda>_ _. None)\<rparr>"

section \<open>The server's listing\<close>

lemma pr_fetch_paths_rec_listed:
  "ra_get_dir ra path rv = Some (dirents l) \<Longrightarrow> serves_below ra rv path l \<Longrightarrow> levels l < fuel \<Longrightarrow>
   pr_fetch_paths_rec ra fuel ps path rv = Some (0, ps @ listed path l)"
proof (induction fuel arbitrary: ps path l)
  case (Suc fuel)
  define step where "step = (\<lambda>(entry, kind) acc.
      (case acc of
         None \<Rightarrow> None
       | Some (ret :: int, ps) \<Rightarrow>
           if kind = node_file then Some (ret, ps @ [entry_path path entry])
           else if kind = node_dir
           then map_option (\<lambda>(_, ps'). (ret, ps'))
                  (pr_fetch_paths_rec ra fuel (ps @ [entry_path path entry]) (entry_path path entry) rv)
           else Some (ret, ps)))"
  have "fold step (dirents k) (Some (0, qs)) = Some (0, qs @ listed path k)" if "serves_below ra rv path k" "levels k \<le> fuel" for k qs
    using that
  proof (induction k arbitrary: qs)
    case (Dir_entry n sub k)
    have "pr_fetch_paths_rec ra fuel (qs @ [entry_path path n]) (entry_path path n) rv =
        Some (0, (qs @ [entry_path path n]) @ listed (entry_path path n) sub)"
      by (rule Suc.IH) (use Dir_entry.prems in auto)
    then show ?case using Dir_entry.IH(2) Dir_entry.prems by (simp add: step_def)
  qed (simp_all add: step_def)
  moreover have "pr_fetch_paths_rec ra (Suc fuel) ps path rv = fold step (dirents l) (Some (0, ps))"
    unfolding step_def entry_path_def pr_fetch_paths_rec.simps Let_def Suc.prems(1) option.case by (rule refl)
  ultimately show ?case using Suc.prems by simp
qed simp

lemma pr_fetch_paths_listed: "fetchable ra fuel rv path ps \<Longrightarrow> pr_fetch_paths ra fuel [] path rv = Some (0, ps)"
  using pr_fetch_paths_rec_listed [of ra path rv _ fuel "[path]"]
  by (auto simp: fetchable_def serves_def pr_fetch_paths_def simp del: pr_fetch_paths_rec.simps)

lemma names_ok_entry: "names_ok l \<Longrightarrow> n \<in> fst ` set (dirents l) \<Longrightarrow> n \<noteq> [] \<and> slash \<notin> set n"
  by (induction l) auto

lemma entry_path_nonempty: "n \<noteq> [] \<Longrightarrow> entry_path path n \<noteq> []"
  by (simp add: entry_path_def)

lemma entry_path_inj:
  assumes "entry_path path n @ r = entry_path path m @ s" "slash \<notin> set n" "slash \<notin> set m"
    "r = [] \<or> hd r = slash" "s = [] \<or> hd s = slash"
  shows "n = m"
proof -
  have "takeWhile (\<lambda>c. c \<noteq> slash) (w @ t) = w" if "slash \<notin> set w" "t = [] \<or> hd t = slash" for w t
    using that by (cases t) (auto simp: takeWhile_append)
  moreover have "n @ r = m @ s" using assms(1) by (auto simp: entry_path_def split: if_splits)
  ultimately show ?thesis using assms(2-5) by metis
qed

text \<open>A path of the listing tells the entry it belongs to.\<close>

lemma listed_entry:
  "names_ok l \<Longrightarrow> p \<in> set (listed path l) \<Longrightarrow>
   \<exists>n \<in> fst ` set (dirents l). \<exists>r. p = entry_path path n @ r \<and> (r = [] \<or> hd r = slash)"
proof (induction path l rule: listed.induct)
  case (3 path n sub l)
  have "\<exists>r. p = entry_path path n @ r \<and> (r = [] \<or> hd r = slash)" if sub: "p \<in> set (listed (entry_path path n) sub)"
  proof -
    obtain m r where "p = entry_path (entry_path path n) m @ r" using "3.IH"(1) [OF _ sub] "3.prems"(1) by auto
    moreover have "entry_path path n \<noteq> []" using "3.prems"(1) by (simp add: entry_path_nonempty)
    ultimately show ?thesis by (intro exI [of _ "slash # m @ r"]) (simp add: entry_path_def)
  qed
  then show ?case using "3.IH"(2) "3.prems" by auto
qed auto

lemma listed_other:
  assumes "names_ok l" "p \<in> set (listed path l)" "n \<notin> fst ` set (dirents l)" "slash \<notin> set n" "r = [] \<or> hd r = slash"
  shows "p \<noteq> entry_path path n @ r"
  using listed_entry [OF assms(1,2)] names_ok_entry [OF assms(1)] entry_path_inj [of path n r] assms(3-5) by metis

lemma listed_below:
  assumes "names_ok l" "p \<in> set (listed path l)" "path \<noteq> []"
  shows "\<exists>r. p = path @ slash # r"
  using listed_entry [OF assms(1,2)] assms(3) by (auto simp: entry_path_def)

lemma listed_nonempty: "names_ok l \<Longrightarrow> [] \<notin> set (listed path l)"
  using listed_entry [of l "[]" path] names_ok_entry [of l] by (auto simp: entry_path_def split: if_splits)

lemma listed_distinct: "names_ok l \<Longrightarrow> distinct (listed path l)"
proof (induction path l rule: listed.induct)
  case (2 path n l)
  then show ?case using listed_other [of l _ path n "[]"] by auto
next
  case (3 path n sub l)
  have n: "entry_path path n \<noteq> []" "slash \<notin> set n" "n \<notin> fst ` set (dirents l)" "names_ok sub" "names_ok l"
    using "3.prems" by (auto simp: entry_path_nonempty)
  have "p \<notin> set (listed path l) \<and> p \<noteq> entry_path path n" if p: "p \<in> set (listed (entry_path path n) sub)" for p
  proof -
    obtain r where "p = entry_path path n @ slash # r" using listed_below [OF n(4) p n(1)] by blast
    then show ?thesis using listed_other [OF n(5) _ n(3,2), of p path "slash # r"] by auto
  qed
  moreover have "entry_path path n \<notin> set (listed path l)" using listed_other [OF n(5) _ n(3,2), of _ path "[]"] by auto
  ultimately show ?case using "3.IH" n(4,5) by auto
qed simp

section \<open>Trees, arrays and buffers\<close>

lemma fold_collect:
  assumes "\<And>e. e \<in> set es \<Longrightarrow> n = 0 \<or> n \<le> length e"
  shows "fold (\<lambda>e d. snd (pr_tree_to_array_cb n e d)) es (Some arr) =
    Some (arr @ filter (\<lambda>e. n = 0 \<or> n = length e \<or> e ! n = slash) es)"
  using assms
proof (induction es arbitrary: arr)
  case (Cons e es)
  have "n = 0 \<or> n \<le> length e" using Cons.prems by simp
  then have "snd (pr_tree_to_array_cb n e (Some arr)) =
      Some (arr @ filter (\<lambda>e. n = 0 \<or> n = length e \<or> e ! n = slash) [e])"
    by (auto simp: pr_tree_to_array_cb_def)
  then show ?case using Cons by simp
qed simp

lemma is_under_alt:
  "starts_with e path \<Longrightarrow>
     (path = [] \<or> length path = length e \<or> e ! length path = slash) \<longleftrightarrow> is_under path e"
proof -
  assume "starts_with e path"
  then obtain t where "e = path @ t" by (auto simp: starts_with_iff)
  then show ?thesis by (cases t) (auto simp: is_under_def starts_with_iff)
qed

lemma is_under_starts_with: "is_under path e \<Longrightarrow> starts_with e path"
  by (auto simp: is_under_def starts_with_iff)

text \<open>The array of a path: the path and everything below it, in \<open>strcmp\<close> order, provided some
  string of the tree starts with the path.\<close>

lemma pr_tree_to_array_match:
  assumes "tree_ok t" "is_cstr path" "s \<in> elems t" "starts_with s path"
  shows "pr_tree_to_array t path = Some (filter (is_under path) (keys t))"
proof (cases "root t")
  case None
  then show ?thesis using assms(3) by (simp add: elems_def)
next
  case (Some p)
  then have inv: "cb_inv 0 p" and s: "s \<in> set (leaves p)"
    using assms by (auto simp: tree_ok_def cb_tree_ok_def elems_def)
  let ?es = "filter (\<lambda>s. starts_with s path) (leaves p)"
  have lv: "leaves (cb_top p p path) = ?es"
    by (rule cb_top_leaves [OF inv assms(2) s assms(4)])
  have "cb_tree_walk_prefixed t path (pr_tree_to_array_cb (length path)) (Some []) =
      (0, fold (\<lambda>e d. snd (pr_tree_to_array_cb (length path) e d)) ?es (Some []))"
    using Some lv by (simp add: cb_tree_walk_prefixed_def cbt_traverse_fold pr_tree_to_array_cb_def)
  also have "\<dots> = (0, Some (filter (\<lambda>e. length path = 0 \<or> length path = length e \<or> e ! length path = slash) ?es))"
    using fold_collect [of ?es "length path" "[]"] starts_with_length by auto
  also have "filter (\<lambda>e. length path = 0 \<or> length path = length e \<or> e ! length path = slash) ?es =
      filter (is_under path) (leaves p)"
    using is_under_alt [of _ path] is_under_starts_with
    by (auto simp: filter_filter intro!: filter_cong)
  finally show ?thesis using Some by (simp add: pr_tree_to_array_def)
qed

lemma pr_tree_to_array_all: "tree_ok t \<Longrightarrow> pr_tree_to_array t [] = Some (keys t)"
proof (cases "root t")
  case None
  then show ?thesis by (simp add: pr_tree_to_array_def cb_tree_walk_prefixed_def)
next
  case (Some p)
  assume "tree_ok t"
  moreover have "hd (leaves p) \<in> elems t" using Some by (simp add: elems_def)
  ultimately show ?thesis using pr_tree_to_array_match [of t "[]"] by (simp add: is_under_def)
qed

lemma pr_encode_eq:
  "tree_ok t \<Longrightarrow> pr_encode t = (0, concat (map enc_action (map (Pair CHR ''+'') (keys t))))"
  by (simp add: pr_encode_def pr_tree_to_array_all comp_def)

text \<open>Reading a buffer back replays the actions that were written to it.\<close>

lemma pr_delta_loop_enc:
  "\<forall>e \<in> set es. is_cstr (snd e) \<Longrightarrow>
     pr_delta_loop t (concat (map enc_action es)) (int (length (concat (map enc_action es)))) =
       replay cb_tree_insert cb_tree_delete t es"
proof (induction es arbitrary: t)
  case (Cons e es)
  then show ?case
    by (cases e) (simp add: enc_action_def Let_def algebra_simps)
qed simp

lemma length_enc: "int (length (concat (map enc_action es))) = (\<Sum>e \<leftarrow> es. 2 + int (length (snd e)))"
  by (induction es) (auto simp: enc_action_def)

lemma pr_delta_apply_set:
  assumes "tree_ok t" "stored_ok es"
  defines "bs \<equiv> concat (map enc_action es)"
  shows "tree_ok (pr_delta_apply t bs (int (length bs)))"
    and "elems (pr_delta_apply t bs (int (length bs))) = set_replay (elems t) es"
proof -
  have "c_int (int (length bs)) = int (length bs)" using assms(2) by (intro c_int_id) (auto simp: stored_ok_def bs_def)
  moreover have k: "\<forall>e \<in> set es. is_key (snd e)" using assms(2) by (simp add: stored_ok_def acts_ok_def)
  ultimately have "pr_delta_apply t bs (int (length bs)) = replay cb_tree_insert cb_tree_delete t es"
    using is_key_cstr unfolding pr_delta_apply_def bs_def by (simp add: pr_delta_loop_enc)
  then show "tree_ok (pr_delta_apply t bs (int (length bs)))"
    "elems (pr_delta_apply t bs (int (length bs))) = set_replay (elems t) es"
    using cbs.replay_refines [OF assms(1) k] by simp_all
qed

section \<open>Reconstruction\<close>

lemma apr_itoa_small: "0 \<le> r \<Longrightarrow> r < 2 ^ 31 \<Longrightarrow> apr_itoa r = dec_int r"
  by (simp add: apr_itoa_def c_int_id)

lemma apr_itoa_inj:
  "0 \<le> r \<Longrightarrow> r < 2 ^ 31 \<Longrightarrow> 0 \<le> s \<Longrightarrow> s < 2 ^ 31 \<Longrightarrow> apr_itoa r = apr_itoa s \<longleftrightarrow> r = s"
  by (simp add: apr_itoa_small)

lemma and_not_snapshot: "r AND NOT (SNAPSHOT_INTERVAL - 1) = base_rev r"
proof -
  have m: "SNAPSHOT_INTERVAL - 1 = mask 10" by (simp add: mask_eq_exp_minus_1 SNAPSHOT_INTERVAL_def)
  have "r AND NOT (SNAPSHOT_INTERVAL - 1) = push_bit 10 (drop_bit 10 r)"
    unfolding m by (rule bit_eqI) (auto simp: bit_and_iff bit_not_iff bit_mask_iff bit_push_bit_iff bit_drop_bit_eq)
  then show ?thesis
    by (simp add: push_bit_eq_mult drop_bit_eq_div base_rev_def SNAPSHOT_INTERVAL_def)
qed

lemma base_rev_le: "base_rev r \<le> r" "0 \<le> r \<Longrightarrow> 0 \<le> base_rev r" "r - base_rev r < SNAPSHOT_INTERVAL"
  by (auto simp: base_rev_def SNAPSHOT_INTERVAL_def minus_div_mult_eq_mod)

lemma log_replay_front:
  "log_replay L S r (Suc n) = log_replay L (log_step (L r) S) (r + 1) n"
  by (induction n) (simp_all add: algebra_simps)

lemma log_replay_cong:
  "(\<And>k. r \<le> k \<Longrightarrow> k < r + int n \<Longrightarrow> L k = L' k) \<Longrightarrow> log_replay L S r n = log_replay L' S r n"
  by (induction n) auto

lemma pr_recon_loop_spec:
  assumes "db_log cdc (mukv_abs kv) L" "mukv_ok kv" "tree_ok t" "0 \<le> r" "revision < 2 ^ 31"
  shows "\<exists>kv' t'. pr_recon_loop cdc kv t r revision = (0, kv', t') \<and> mukv_ok kv' \<and>
    mukv_abs kv' = mukv_abs kv \<and> tree_ok t' \<and>
    elems t' = log_replay L (elems t) r (nat (revision - r + 1))"
  using assms
proof (induction cdc kv t r revision rule: pr_recon_loop.induct)
  case (1 cdc kv t r revision)
  note prems = "1.prems"
  show ?case
  proof (cases "r \<le> revision")
    case False
    then show ?thesis using prems by (subst pr_recon_loop.simps) simp
  next
    case True
    let ?k = "apr_itoa r" and ?n = "nat (revision - (r + 1) + 1)"
    have n: "nat (revision - r + 1) = Suc ?n" using True by simp
    have L: "case mukv_abs kv ?k of None \<Rightarrow> L r = None
      | Some z \<Rightarrow> \<exists>es. L r = Some es \<and> stored_ok es \<and> uncompress cdc z = Some (concat (map enc_action es))"
      using prems(1,4,5) True unfolding db_log_def by auto
    show ?thesis
    proof (cases "mukv_abs kv ?k")
      case None
      then have "pr_recon_loop cdc kv t r revision = pr_recon_loop cdc kv t (r + 1) revision"
        using True prems(2) by (subst pr_recon_loop.simps) (simp add: kv.exists_iff)
      moreover have "log_step (L r) (elems t) = elems t" using L None by (simp add: log_step_def)
      ultimately show ?thesis
        using "1.IH"(2) [OF True refl] None prems unfolding n log_replay_front by (simp add: kv.exists_iff)
    next
      case (Some z)
      then obtain es where es: "L r = Some es" "stored_ok es" "uncompress cdc z = Some (concat (map enc_action es))"
        using L by auto
      let ?t = "pr_delta_apply t (concat (map enc_action es)) (int (length (concat (map enc_action es))))"
      obtain kv2 where f: "mukv_fetch kv ?k = (Some z, kv2)"
        using kv.fetch_val [OF prems(2), of ?k] Some by (cases "mukv_fetch kv ?k") simp
      have step: "pr_recon_loop cdc kv t r revision = pr_recon_loop cdc kv2 ?t (r + 1) revision"
        using True Some f es(3) prems(2) by (subst pr_recon_loop.simps) (simp add: kv.exists_iff)
      have "mukv_ok kv2" "mukv_abs kv2 = mukv_abs kv"
        using kv.ok_fetch [OF prems(2), of ?k] kv.abs_fetch [OF prems(2), of ?k] f by simp_all
      moreover have "tree_ok ?t" "elems ?t = log_step (L r) (elems t)"
        using pr_delta_apply_set [OF prems(3) es(2)] es(1) by (simp_all add: log_step_def)
      moreover have "mukv_exists kv ?k" using prems(2) Some by (simp add: kv.exists_iff)
      ultimately show ?thesis
        using "1.IH"(1) [OF True refl _ f [symmetric] refl es(3)] prems step
        unfolding n log_replay_front by simp
    qed
  qed
qed

lemma pr_reconstruct_spec:
  assumes "db_log cdc (mukv_abs kv) L" "mukv_ok kv" "tree_ok t" "elems t = {}" "0 \<le> revision" "revision < 2 ^ 31"
  obtains kv' t' where "pr_reconstruct cdc kv t revision = (0, kv', t')" "mukv_ok kv'"
    "mukv_abs kv' = mukv_abs kv" "tree_ok t'" "elems t' = recon_set L revision"
  using pr_recon_loop_spec [OF assms(1,2,3) base_rev_le(2) [OF assms(5)] assms(6)] assms(4)
  unfolding pr_reconstruct_def and_not_snapshot recon_set_def by metis

lemma recon_set_cong:
  "(\<And>k. base_rev r \<le> k \<Longrightarrow> k \<le> r \<Longrightarrow> L k = L' k) \<Longrightarrow> recon_set L r = recon_set L' r"
  unfolding recon_set_def using base_rev_le [of r] by (intro log_replay_cong) simp

text \<open>Within a block of revisions the tree of a revision is that of its predecessor with its own
  actions replayed; at the start of a block only its own actions count.\<close>

lemma recon_set_step:
  assumes "(r - 1) div SNAPSHOT_INTERVAL = r div SNAPSHOT_INTERVAL"
  shows "recon_set L r = log_step (L r) (recon_set L (r - 1))"
proof -
  have b: "base_rev (r - 1) = base_rev r" using assms by (simp add: base_rev_def)
  have "nat (r - base_rev r + 1) = Suc (nat (r - 1 - base_rev r + 1))"
    using base_rev_le(1) [of "r - 1"] b by simp
  then show ?thesis
    using base_rev_le(1) [of "r - 1"] b by (simp add: recon_set_def)
qed

lemma recon_set_start: "r mod SNAPSHOT_INTERVAL = 0 \<Longrightarrow> recon_set L r = log_step (L r) {}"
  by (simp add: recon_set_def base_rev_def minus_mod_eq_div_mult [symmetric])

lemma recon_set_idle:
  assumes "h \<le> r" "r div SNAPSHOT_INTERVAL = h div SNAPSHOT_INTERVAL" "\<And>k. h < k \<Longrightarrow> k \<le> r \<Longrightarrow> L k = None"
  shows "recon_set L r = recon_set L h"
  using assms
proof (induction "nat (r - h)" arbitrary: r)
  case (Suc n)
  have "h \<le> r - 1" "n = nat (r - 1 - h)" using Suc by auto
  moreover have d: "(r - 1) div SNAPSHOT_INTERVAL = h div SNAPSHOT_INTERVAL"
    using Suc.prems calculation(1) unfolding SNAPSHOT_INTERVAL_def by linarith
  ultimately have "recon_set L (r - 1) = recon_set L h" using Suc by simp
  moreover have "L r = None" using Suc by auto
  ultimately show ?case using recon_set_step [of r L] d Suc.prems by (simp add: log_step_def)
qed simp

section \<open>Every operation refines its specification\<close>

lemma acts_ok_append [simp]: "acts_ok (es @ fs) \<longleftrightarrow> acts_ok es \<and> acts_ok fs"
  by (auto simp: acts_ok_def)

lemma acts_ok_simps [simp]: "acts_ok []" "acts_ok (e # es) \<longleftrightarrow> is_key (snd e) \<and> acts_ok es"
  by (auto simp: acts_ok_def)

lemma delta_len_zero: "(\<Sum>e \<leftarrow> es. 2 + int (length (snd e))) \<le> 0 \<longleftrightarrow> es = []"
proof (cases es)
  case (Cons e fs)
  have "0 \<le> (\<Sum>e \<leftarrow> fs. 2 + int (length (snd e)))" by (rule sum_list_nonneg) auto
  then have "0 < (\<Sum>e \<leftarrow> es. 2 + int (length (snd e)))" using Cons by simp
  then show ?thesis using Cons by (simp add: not_le)
qed simp

lemma cur_ok_add:
  assumes "cur_ok t es len cur base" "is_key p"
  shows "cur_ok (snd (cb_tree_insert t p)) (es @ [(CHR ''+'', p)]) (c_int (len + (2 + int (length p))))
    (insert p cur) base"
  using assms cbs.ok_ins [of t p] cbs.elems_ins [of t p]
  by (simp add: cur_ok_def c_int_add_left)

lemma cur_ok_del:
  assumes "cur_ok t es len cur base" "is_key p"
  shows "cur_ok (snd (cb_tree_delete t p)) (es @ [(CHR ''-'', p)]) (c_int (len + (2 + int (length p))))
    (cur - {p}) base"
  using assms cbs.ok_del [of t p] cbs.elems_del [of t p]
  by (simp add: cur_ok_def c_int_add_left)

lemma pr_inv_tree:
  "pr_inv cdc repo v \<Longrightarrow> tree_ok (tree repo)" "pr_inv cdc repo v \<Longrightarrow> elems (tree repo) = vcur v"
  by (auto simp: pr_inv_def cur_ok_def)

lemma pr_inv_db: "pr_inv cdc repo v \<Longrightarrow> mukv_ok (db repo)"
  unfolding pr_inv_def hist_ok_def by (elim conjE)

lemma hist_ok_kv:
  "hist_ok cdc kv H h fresh \<Longrightarrow> mukv_ok kv' \<Longrightarrow> mukv_abs kv' = mukv_abs kv \<Longrightarrow> hist_ok cdc kv' H h fresh"
  by (simp add: hist_ok_def)

lemma path_repo_add_eq:
  "path_repo_add repo p = (if fst (cb_tree_insert (tree repo) p) \<noteq> 0 then -1 else 0,
     repo\<lparr>delta := delta repo @ [(CHR ''+'', p)],
          delta_len := c_int (delta_len repo + (2 + int (length p))), tree := snd (cb_tree_insert (tree repo) p)\<rparr>)"
  by (simp add: path_repo_add_def Let_def split_beta)

lemma pr_inv_add:
  assumes "pr_inv cdc repo v" "is_key p"
  shows "pr_inv cdc (snd (path_repo_add repo p)) (v_add p v)"
    and "fst (path_repo_add repo p) = (if p \<in> vcur v then -1 else 0)"
proof -
  show "fst (path_repo_add repo p) = (if p \<in> vcur v then -1 else 0)"
    using cbs.ins_status [OF pr_inv_tree(1) [OF assms(1)] assms(2)] pr_inv_tree(2) [OF assms(1)]
    by (simp add: path_repo_add_eq)
  show "pr_inv cdc (snd (path_repo_add repo p)) (v_add p v)"
    using assms cur_ok_add [OF _ assms(2)] by (simp add: pr_inv_def v_add_def path_repo_add_eq)
qed

lemma pr_inv_add_all:
  "pr_inv cdc repo v \<Longrightarrow> \<forall>p \<in> set ps. is_key p \<Longrightarrow>
     pr_inv cdc (pr_add_all ps repo) (v\<lparr>vcur := vcur v \<union> set ps\<rparr>)"
proof (induction ps arbitrary: repo v)
  case (Cons p ps)
  then have "pr_inv cdc (pr_add_all ps (snd (path_repo_add repo p)))
      ((v_add p v)\<lparr>vcur := vcur (v_add p v) \<union> set ps\<rparr>)"
    using pr_inv_add(1) by simp
  then show ?case by (simp add: pr_add_all_def v_add_def)
qed (simp add: pr_add_all_def)

text \<open>Deleting a list of paths one by one: the loop of \<open>path_repo_delete\<close>.\<close>

lemma pr_inv_delete_one:
  assumes "pr_inv cdc repo v" "is_key p"
  shows "pr_inv cdc (pr_delete_one p repo) (v\<lparr>vcur := vcur v - {p}\<rparr>)"
  using assms cur_ok_del [OF _ assms(2)] by (simp add: pr_inv_def pr_delete_one_def)

lemma pr_inv_delete_all:
  "pr_inv cdc repo v \<Longrightarrow> \<forall>p \<in> set ps. is_key p \<Longrightarrow>
     pr_inv cdc (fold pr_delete_one ps repo) (v\<lparr>vcur := vcur v - set ps\<rparr>)"
proof (induction ps arbitrary: repo v)
  case (Cons p ps)
  then have "pr_inv cdc (pr_delete_one p repo) (v\<lparr>vcur := vcur v - {p}\<rparr>)" by (simp add: pr_inv_delete_one)
  then have "pr_inv cdc (fold pr_delete_one ps (pr_delete_one p repo)) (v\<lparr>vcur := vcur v - {p} - set ps\<rparr>)"
    using Cons.IH [of "pr_delete_one p repo" "v\<lparr>vcur := vcur v - {p}\<rparr>"] Cons.prems(2) by simp
  moreover have "vcur v - {p} - set ps = vcur v - set (p # ps)" by auto
  ultimately show ?case by simp
qed simp

lemma pr_inv_delete:
  assumes "pr_inv cdc repo v" "is_cstr path" "s \<in> vcur v" "starts_with s path"
  obtains repo' where "path_repo_delete repo path = Some (0, repo')" "pr_inv cdc repo' (v_delete path v)"
proof -
  note t = pr_inv_tree [OF assms(1)]
  let ?ps = "filter (is_under path) (keys (tree repo))"
  have ps: "pr_tree_to_array (tree repo) path = Some ?ps"
    using pr_tree_to_array_match [OF t(1) assms(2)] t(2) assms(3,4) by blast
  have "vcur v - set ?ps = {q \<in> vcur v. \<not> is_under path q}"
    using t(2) by (auto simp: elems_def)
  moreover have "\<forall>p \<in> set ?ps. is_key p" using elems_key [OF t(1)] by (auto simp: elems_def)
  ultimately have "pr_inv cdc (fold pr_delete_one ?ps repo) (v_delete path v)"
    using pr_inv_delete_all [OF assms(1), of ?ps] by (simp add: v_delete_def)
  then show thesis using that ps by (simp add: path_repo_delete_def)
qed

lemma pr_inv_create:
  assumes "path_repo_create snappy_init mem fopen tmp = Some repo" "mem_enough mem" "seeks fopen"
  shows "pr_inv cdc repo v_create"
proof -
  obtain kv where kv: "mukv_open fopen (tmp @ ''/paths.db'') = Some kv" and
    repo: "repo = \<lparr>db = kv, delta = [], delta_len = 0, tree = cb_tree_make mem, head = 0,
                cache = pr_cache_init mem CACHE_SIZE, cache_index = 0\<rparr>"
    using assms(1) by (auto simp: path_repo_create_def split: option.splits if_splits)
  note kv = mukv_open_ok [OF kv assms(3)]
  have "db_log cdc (mukv_abs kv) (\<lambda>_. None)" using kv by (simp add: db_log_def)
  moreover have "recon_set (\<lambda>_. None) r = {}" for r
  proof -
    have "log_replay (\<lambda>_. None) {} b n = {}" for b n by (induction n) (auto simp: log_step_def)
    then show ?thesis by (simp add: recon_set_def)
  qed
  ultimately have "hist_ok cdc kv (\<lambda>_. {}) 0 True" using kv by (auto simp: hist_ok_def)
  moreover have "cache_ok (\<lambda>_. {}) 0 True {} (pr_cache_init mem CACHE_SIZE)"
    using assms(2) by (auto simp: cache_ok_def pr_cache_init_def)
  ultimately show ?thesis
    using assms(2) by (simp add: pr_inv_def repo v_create_def cur_ok_def CACHE_SIZE_def)
qed

section \<open>Commits\<close>

text \<open>Storing under the key of a new revision extends the ghost log there.\<close>

lemma db_log_upd:
  assumes "db_log cdc m L" "0 \<le> r" "r < 2 ^ 31" "stored_ok es"
    "uncompress cdc z = Some (concat (map enc_action es))"
  shows "db_log cdc (m(apr_itoa r \<mapsto> z)) (L(r := Some es))"
  unfolding db_log_def
proof (intro allI impI)
  fix k :: revnum assume k: "0 \<le> k \<and> k < 2 ^ 31"
  show "case (m(apr_itoa r \<mapsto> z)) (apr_itoa k) of None \<Rightarrow> (L(r := Some es)) k = None
    | Some y \<Rightarrow> \<exists>fs. (L(r := Some es)) k = Some fs \<and> stored_ok fs \<and> uncompress cdc y = Some (concat (map enc_action fs))"
  proof (cases "k = r")
    case False
    then have "apr_itoa k \<noteq> apr_itoa r" using apr_itoa_inj [of k r] k assms(2,3) by simp
    then show ?thesis using assms(1) [unfolded db_log_def, rule_format, OF k] False
      by (auto split: option.splits)
  qed (use assms in simp)
qed

text \<open>What the stored actions have to do: rebuild the new set from the last one, or, in a snapshot
  revision, from nothing.\<close>

lemma pred_div: "r mod SNAPSHOT_INTERVAL \<noteq> 0 \<Longrightarrow> (r - 1) div SNAPSHOT_INTERVAL = r div SNAPSHOT_INTERVAL"
proof -
  assume "r mod SNAPSHOT_INTERVAL \<noteq> 0"
  then have "0 < r mod 1024" "r mod 1024 < 1024" by (auto simp: SNAPSHOT_INTERVAL_def less_le)
  moreover have "r - 1 = r div 1024 * 1024 + (r mod 1024 - 1)" by simp
  ultimately show ?thesis
    unfolding SNAPSHOT_INTERVAL_def by (intro int_div_pos_eq [of _ _ _ "r mod 1024 - 1"]) auto
qed

lemma hist_okE:
  assumes "hist_ok cdc kv H h fresh"
  obtains L where "mukv_ok kv" "0 \<le> h" "h < 2 ^ 31" "fresh \<Longrightarrow> h = 0" "fresh \<Longrightarrow> H 0 = {}" "\<And>x. h \<le> x \<Longrightarrow> H x = H h"
    "db_log cdc (mukv_abs kv) L" "\<And>r. h < r \<Longrightarrow> L r = None" "fresh \<Longrightarrow> L 0 = None"
    "\<And>r. 0 \<le> r \<Longrightarrow> r \<le> h \<Longrightarrow> recon_set L r = H r"
proof -
  obtain L where L: "db_log cdc (mukv_abs kv) L" "\<forall>r. h < r \<or> fresh \<and> r = 0 \<longrightarrow> L r = None"
    "\<forall>r. 0 \<le> r \<and> r \<le> h \<longrightarrow> recon_set L r = H r" using assms unfolding hist_ok_def by blast
  have later: "H x = H h" if "h \<le> x" for x
    using assms that by (cases "h = x") (auto simp: hist_ok_def)
  have rest: "mukv_ok kv" "0 \<le> h" "h < 2 ^ 31" "fresh \<Longrightarrow> h = 0" "fresh \<Longrightarrow> H 0 = {}"
    using assms by (simp_all add: hist_ok_def)
  show thesis
    by (rule that [OF rest later L(1)]) (use L(2,3) in auto)
qed

lemma hist_ok_commit:
  assumes H: "hist_ok cdc kv H h fresh" and c: "r < 2 ^ 31"
    "if r = 0 then fresh else h < r \<and> (r - 1) div SNAPSHOT_INTERVAL = h div SNAPSHOT_INTERVAL"
    and kv: "mukv_ok kv'" "case es of None \<Rightarrow> mukv_abs kv' = mukv_abs kv
      | Some fs \<Rightarrow> stored_ok fs \<and> (\<exists>z. mukv_abs kv' = (mukv_abs kv)(apr_itoa r \<mapsto> z) \<and>
          uncompress cdc z = Some (concat (map enc_action fs)))"
    and S: "S = log_step es (if is_snapshot r then {} else H h)"
  shows "hist_ok cdc kv' (\<lambda>x. if r \<le> x then S else H x) r False"
proof -
  obtain L where L: "db_log cdc (mukv_abs kv) L" "\<And>k. h < k \<Longrightarrow> L k = None"
    "\<And>k. 0 \<le> k \<Longrightarrow> k \<le> h \<Longrightarrow> recon_set L k = H k" "fresh \<Longrightarrow> L 0 = None"
    and h: "0 \<le> h" "fresh \<Longrightarrow> h = 0" "\<And>k. h \<le> k \<Longrightarrow> H k = H h" "fresh \<Longrightarrow> H 0 = {}"
    by (rule hist_okE [OF H]) (rule that)
  have r: "0 \<le> r" "h \<le> r" "L r = None"
    using c(2) h(1,2) L(2) [of r] L(4) by (cases "r = 0"; simp)+
  let ?L = "L(r := es)"
  have old: "recon_set ?L k = recon_set L k" if "k < r" for k
    using that by (intro recon_set_cong) auto
  have gap: "recon_set L k = H h" if "h \<le> k" "k < r" for k
  proof -
    have "h div SNAPSHOT_INTERVAL \<le> k div SNAPSHOT_INTERVAL" "k div SNAPSHOT_INTERVAL \<le> (r - 1) div SNAPSHOT_INTERVAL"
      using that by (simp_all add: SNAPSHOT_INTERVAL_def zdiv_mono1)
    moreover have "r \<noteq> 0" using that h(1) by simp
    ultimately have "k div SNAPSHOT_INTERVAL = h div SNAPSHOT_INTERVAL" using c(2) by simp
    then show ?thesis using recon_set_idle [of h k L] that L(2) L(3) [of h] h(1) by auto
  qed
  have new: "recon_set ?L r = S"
  proof (cases "r mod SNAPSHOT_INTERVAL = 0")
    case True
    moreover have "r = 0 \<Longrightarrow> H h = {}" using h(2,4) c(2) by simp
    ultimately show ?thesis using recon_set_start [of r ?L] r(1) S by (auto simp: is_snapshot_def)
  next
    case False
    then have d: "(r - 1) div SNAPSHOT_INTERVAL = r div SNAPSHOT_INTERVAL" by (rule pred_div)
    have "r \<noteq> 0" using False by auto
    have "h \<le> r - 1" using c(2) \<open>r \<noteq> 0\<close> by simp
    then have "recon_set ?L (r - 1) = H h" using old [of "r - 1"] gap [of "r - 1"] by simp
    then show ?thesis using recon_set_step [OF d, of ?L] S False by (simp add: is_snapshot_def)
  qed
  have "db_log cdc (mukv_abs kv') ?L"
  proof (cases es)
    case None
    then have "?L = L" using r(3) by (simp add: fun_upd_idem)
    then show ?thesis using kv(2) L(1) None by simp
  next
    case (Some fs)
    then obtain z where "mukv_abs kv' = (mukv_abs kv)(apr_itoa r \<mapsto> z)" "stored_ok fs"
      "uncompress cdc z = Some (concat (map enc_action fs))" using kv(2) by auto
    then show ?thesis using db_log_upd [OF L(1) r(1) c(1)] Some by metis
  qed
  moreover have "\<forall>k. r < k \<longrightarrow> ?L k = None" using L(2) r(2) by simp
  moreover have "\<forall>k. 0 \<le> k \<and> k \<le> r \<longrightarrow> recon_set ?L k = (if r \<le> k then S else H k)"
  proof (intro allI impI)
    fix k assume k: "0 \<le> k \<and> k \<le> r"
    consider "k = r" | "k < r" "h \<le> k" | "k < r" "k \<le> h" using k by linarith
    then show "recon_set ?L k = (if r \<le> k then S else H k)"
    proof cases
      case 1
      then show ?thesis using new by simp
    next
      case 2
      then show ?thesis using old [of k] gap [of k] h(3) [of k] by simp
    next
      case 3
      then show ?thesis using old [of k] L(3) [of k] k by simp
    qed
  qed
  ultimately show ?thesis
    unfolding hist_ok_def using kv(1) c(1) r(1) by (intro conjI exI [of _ ?L]) simp_all
qed

lemma cache_ok_commit:
  "cache_ok H h fresh early cs \<Longrightarrow> (if r = 0 then fresh else h < r) \<Longrightarrow>
     cache_ok (\<lambda>x. if r \<le> x then S else H x) r False early cs"
  unfolding cache_ok_def by (force split: if_splits)

text \<open>The state after a commit, from what it stored.\<close>

lemma pr_inv_committed:
  assumes inv: "pr_inv cdc repo v" and c: "commit_ok v r"
    and kv: "mukv_ok kv'" "case es of None \<Rightarrow> mukv_abs kv' = mukv_abs (db repo)
      | Some fs \<Rightarrow> stored_ok fs \<and> (\<exists>z. mukv_abs kv' = (mukv_abs (db repo))(apr_itoa r \<mapsto> z) \<and>
          uncompress cdc z = Some (concat (map enc_action fs)))"
    and S: "vcur v = log_step es (if is_snapshot r then {} else vhist v (vhead v))"
  shows "pr_inv cdc (repo\<lparr>db := kv', head := r, delta_len := 0, delta := []\<rparr>) (v_commit r v)"
proof -
  have cond: "r < 2 ^ 31" "if r = 0 then vfresh v
      else vhead v < r \<and> (r - 1) div SNAPSHOT_INTERVAL = vhead v div SNAPSHOT_INTERVAL"
    using c unfolding commit_ok_def by fast+
  have hist: "hist_ok cdc (db repo) (vhist v) (vhead v) (vfresh v)"
    and cache: "cache_ok (vhist v) (vhead v) (vfresh v) (vearly v) (cache repo)" "cache_index repo < CACHE_SIZE"
    using inv by (simp_all add: pr_inv_def)
  have "hist_ok cdc kv' (\<lambda>x. if r \<le> x then vcur v else vhist v x) r False"
    by (rule hist_ok_commit [OF hist cond kv S])
  moreover have "cache_ok (\<lambda>x. if r \<le> x then vcur v else vhist v x) r False (vearly v) (cache repo)"
    using cond(2) by (intro cache_ok_commit [OF cache(1)]) (simp split: if_splits)
  moreover have "cur_ok (tree repo) [] 0 (vcur v) (vcur v)"
    using pr_inv_tree [OF inv] by (simp add: cur_ok_def)
  ultimately show ?thesis using cache(2) by (simp add: pr_inv_def v_commit_def)
qed

text \<open>Below 2 GiB the length of the scheduled actions is kept exactly.\<close>

lemma delta_len_exact:
  assumes "pr_inv cdc repo v" "int (length (concat (map enc_action (delta repo)))) < 2 ^ 31"
  shows "delta_len repo = int (length (concat (map enc_action (delta repo))))"
  using assms by (simp add: pr_inv_def cur_ok_def c_int_id length_enc [symmetric])

lemma pr_inv_commit:
  assumes inv: "pr_inv cdc repo v" and c: "commit_ok v r" and cdc: "codec_ok cdc D"
    and data: "commit_fits D repo r"
  obtains
    (ok) repo' where "path_repo_commit cdc repo r = Some (0, repo')" "pr_inv cdc repo' (v_commit r v)"
  | (full) repo' where "path_repo_commit cdc repo r = Some (-1, repo')" "pr_inv cdc repo' v"
proof -
  have cur: "acts_ok (delta repo)" "vcur v = set_replay (vhist v (vhead v)) (delta repo)"
    using inv by (simp_all add: pr_inv_def cur_ok_def)
  have len: "delta_len repo = int (length (concat (map enc_action (delta repo))))" if "\<not> is_snapshot r"
    using delta_len_exact [OF inv] data that by (simp add: commit_fits_def commit_data_def)
  have kvok: "mukv_ok (db repo)" using inv by (rule pr_inv_db)
  note t = pr_inv_tree [OF inv]
  show thesis
  proof (cases "delta_len repo \<le> 0 \<and> \<not> is_snapshot r")
    case True
    then have d: "delta repo = []" "delta_len repo = 0" using len delta_len_zero [of "delta repo"] by (simp_all add: length_enc)
    have "pr_inv cdc (repo\<lparr>db := db repo, head := r, delta_len := 0, delta := []\<rparr>) (v_commit r v)"
      using kvok cur(2) d True by (intro pr_inv_committed [OF inv c, where es = None]) (simp_all add: log_step_def)
    moreover have "repo\<lparr>db := db repo, head := r, delta_len := 0, delta := []\<rparr> = repo\<lparr>head := r\<rparr>"
      using d by (cases repo) simp
    ultimately show thesis using ok True by (simp add: path_repo_commit_def)
  next
    case False
    define es where "es = (if is_snapshot r then map (Pair CHR ''+'') (keys (tree repo)) else delta repo)"
    have es: "acts_ok es" "vcur v = log_step (Some es) (if is_snapshot r then {} else vhist v (vhead v))"
      using cur t elems_key [OF t(1)]
      by (auto simp: es_def acts_ok_def elems_def log_step_def set_replay_adds)
    have enc: "(if \<not> is_snapshot r then map_option (Pair 0) (pr_delta_encode repo) else Some (pr_encode (tree repo))) =
        Some (0 :: int, concat (map enc_action es))"
      using pr_encode_eq [OF t(1)] len by (simp add: es_def pr_delta_encode_def)
    have cd: "commit_data repo r = concat (map enc_action es)"
      using pr_encode_eq [OF t(1)] by (simp add: commit_data_def es_def)
    then have es': "stored_ok es" using es(1) data by (simp add: stored_ok_def commit_fits_def)
    obtain z where z: "compress cdc (concat (map enc_action es)) = Some z"
      "uncompress cdc z = Some (concat (map enc_action es))" using cdc data cd unfolding codec_ok_def commit_fits_def by metis
    obtain rc kv' where st: "mukv_store (db repo) (apr_itoa r) z = (rc, kv')" by fastforce
    have eq: "path_repo_commit cdc repo r = Some (if rc \<noteq> 0 then (-1, repo\<lparr>db := kv'\<rparr>)
        else (0, repo\<lparr>db := kv', head := r, delta_len := 0, delta := []\<rparr>))"
      unfolding path_repo_commit_def Let_def enc if_not_P [OF False] using z(1) st by simp
    have kv': "mukv_ok kv'" using kv.ok_store [OF kvok, of "apr_itoa r" z] st by simp
    show thesis
    proof (cases "rc = 0")
      case True
      then have "mukv_abs kv' = (mukv_abs (db repo))(apr_itoa r \<mapsto> z)"
        using kv.abs_store [OF kvok, of "apr_itoa r" z] st by simp
      then show thesis using ok eq True es(2) es' z(2) kv' pr_inv_committed [OF inv c kv', of "Some es"] by auto
    next
      case False
      then have "mukv_abs kv' = mukv_abs (db repo)"
        using kv.abs_store_fail [OF kvok, of "apr_itoa r" z] st by simp
      then have "pr_inv cdc (repo\<lparr>db := kv'\<rparr>) v" using inv kv' hist_ok_kv [of cdc "db repo"]
        by (simp add: pr_inv_def)
      then show thesis using full eq False by simp
    qed
  qed
qed

section \<open>Discarding and querying\<close>

lemma hist_ok_reconstruct:
  assumes "hist_ok cdc kv H h fresh" "tree_ok t" "elems t = {}" "0 \<le> r" "r \<le> h"
  obtains kv' t' where "pr_reconstruct cdc kv t r = (0, kv', t')" "hist_ok cdc kv' H h fresh"
    "tree_ok t'" "elems t' = H r"
proof -
  obtain L where L: "mukv_ok kv" "h < 2 ^ 31" "db_log cdc (mukv_abs kv) L"
    "\<And>r. 0 \<le> r \<Longrightarrow> r \<le> h \<Longrightarrow> recon_set L r = H r"
    by (rule hist_okE [OF assms(1)]) (rule that)
  have "r < 2 ^ 31" using assms(5) L(2) by linarith
  then obtain kv' t' where "pr_reconstruct cdc kv t r = (0, kv', t')" "mukv_ok kv'"
    "mukv_abs kv' = mukv_abs kv" "tree_ok t'" "elems t' = recon_set L r"
    by (rule pr_reconstruct_spec [OF L(3,1) assms(2-4)])
  then show thesis using that hist_ok_kv [OF assms(1)] L(4) [OF assms(4,5)] by metis
qed

lemma pr_inv_discard:
  assumes inv: "pr_inv cdc repo v"
  obtains repo' where "path_repo_discard cdc repo = (0, repo')" "pr_inv cdc repo' (v_discard v)"
proof -
  have h: "hist_ok cdc (db repo) (vhist v) (vhead v) (vfresh v)" "head repo = vhead v"
    using inv by (simp_all add: pr_inv_def)
  have clear: "tree_ok (cb_tree_clear (tree repo))" "elems (cb_tree_clear (tree repo)) = {}"
    using cb_tree_clear_ok pr_inv_tree(1) [OF inv] by simp_all
  have "0 \<le> vhead v" using h(1) by (simp add: hist_ok_def)
  then obtain kv' t' where r: "pr_reconstruct cdc (db repo) (cb_tree_clear (tree repo)) (vhead v) = (0, kv', t')"
    "hist_ok cdc kv' (vhist v) (vhead v) (vfresh v)" "tree_ok t'" "elems t' = vhist v (vhead v)"
    by (rule hist_ok_reconstruct [OF h(1) clear _ order_refl])
  then have "pr_inv cdc (repo\<lparr>delta_len := 0, delta := [], db := kv', tree := t'\<rparr>) (v_discard v)"
    using inv by (simp add: pr_inv_def v_discard_def cur_ok_def)
  then show thesis using that r(1) h(2) by (simp add: path_repo_discard_def)
qed

lemma cache_find_mem: "cache_find r cs = Some t \<Longrightarrow> (r, t) \<in> set cs"
  by (induction cs) (auto split: if_splits)

text \<open>Getting the tree of any revision, committed or not: a cached one, or a reconstructed one that goes to
  the cache.\<close>

lemma pr_tree_ask:
  assumes inv: "pr_inv cdc repo v" and r: "0 \<le> r" "r < 2 ^ 31"
  obtains t repo' where "pr_tree cdc repo r = (Some t, repo')" "pr_inv cdc repo' (v_ask r v)" "tree_ok t"
    "committed v r \<Longrightarrow> r \<notin> vearly v \<Longrightarrow> elems t = vhist v r" "tree repo' = tree repo" "delta repo' = delta repo"
proof (cases "cache_find r (cache repo)")
  case (Some t)
  have "(r, t) \<in> set (cache repo)" by (rule cache_find_mem [OF Some])
  then have t: "tree_ok t" "r \<notin> vearly v \<Longrightarrow> elems t = vhist v r"
    using inv r(1) by (auto simp: pr_inv_def cache_ok_def)
  have "pr_inv cdc repo (v_ask r v)" using inv by (auto simp: pr_inv_def v_ask_def cache_ok_def)
  then show thesis using that Some t by (simp add: pr_tree_def)
next
  case None
  have h: "hist_ok cdc (db repo) (vhist v) (vhead v) (vfresh v)"
    and c: "cache_ok (vhist v) (vhead v) (vfresh v) (vearly v) (cache repo)" "cache_index repo < CACHE_SIZE"
    using inv by (simp_all add: pr_inv_def)
  obtain L where L: "mukv_ok (db repo)" "db_log cdc (mukv_abs (db repo)) L"
    "\<And>r. 0 \<le> r \<Longrightarrow> r \<le> vhead v \<Longrightarrow> recon_set L r = vhist v r"
    by (rule hist_okE [OF h]) (rule that)
  obtain r0 t0 where e: "cache repo ! cache_index repo = (r0, t0)" by fastforce
  then have "(r0, t0) \<in> set (cache repo)" using c by (metis cache_ok_def nth_mem)
  then have "tree_ok t0" using c(1) by (auto simp: cache_ok_def)
  let ?t = "if root t0 \<noteq> None then cb_tree_clear t0 else t0"
  have "tree_ok ?t" "elems ?t = {}" using \<open>tree_ok t0\<close> cb_tree_clear_ok by (simp_all add: elems_def)
  then obtain kv' t' where rc: "pr_reconstruct cdc (db repo) ?t r = (0, kv', t')" "mukv_ok kv'"
    "mukv_abs kv' = mukv_abs (db repo)" "tree_ok t'" "elems t' = recon_set L r"
    using pr_reconstruct_spec [OF L(2,1) _ _ r] by blast
  let ?repo = "repo\<lparr>db := kv', cache := (cache repo)[cache_index repo := (r, t')],
      cache_index := (if length (cache repo) \<le> cache_index repo + 1 then 0 else cache_index repo + 1)\<rparr>"
  have "pr_tree cdc repo r = (Some t', ?repo)" using None e rc(1) by (simp add: pr_tree_def Let_def)
  moreover have el: "committed v r \<Longrightarrow> elems t' = vhist v r" using rc(5) L(3) [OF r(1)] by (simp add: committed_def)
  moreover have "cache_ok (vhist v) (vhead v) (vfresh v) (vearly (v_ask r v)) ((cache repo)[cache_index repo := (r, t')])"
    using c(1) rc(4) el set_update_subset_insert [of "cache repo"]
    by (fastforce simp: cache_ok_def v_ask_def committed_def)
  then have "pr_inv cdc ?repo (v_ask r v)"
    using inv hist_ok_kv [OF h rc(2,3)] c by (auto simp: pr_inv_def cache_ok_def v_ask_def)
  ultimately show thesis using that rc(4) by simp
qed

lemma v_ask_committed: "committed v r \<Longrightarrow> v_ask r v = v"
  by (simp add: v_ask_def)

lemma pr_tree_spec:
  assumes inv: "pr_inv cdc repo v" and r: "0 \<le> r" "committed v r" "r \<notin> vearly v"
  obtains t repo' where "pr_tree cdc repo r = (Some t, repo')" "pr_inv cdc repo' v" "tree_ok t"
    "elems t = vhist v r" "tree repo' = tree repo" "delta repo' = delta repo"
proof -
  have "r < 2 ^ 31" using inv r(2) by (auto simp: pr_inv_def hist_ok_def committed_def)
  from pr_tree_ask [OF inv r(1) this] show thesis
    using that r(2,3) v_ask_committed [OF r(2)] by metis
qed

lemma pr_inv_ask:
  assumes inv: "pr_inv cdc repo v" and "r < 2 ^ 31"
  obtains st repo' where "path_repo_exists cdc repo p r = (st, repo')" "pr_inv cdc repo' (v_ask r v)"
proof (cases "0 \<le> r")
  case True
  obtain t repo' where "pr_tree cdc repo r = (Some t, repo')" "pr_inv cdc repo' (v_ask r v)"
    by (rule pr_tree_ask [OF inv True assms(2)])
  then show thesis using that True by (simp add: path_repo_exists_def)
qed (use that inv in \<open>simp add: path_repo_exists_def v_ask_def\<close>)

lemma pr_inv_exists:
  assumes inv: "pr_inv cdc repo v" and "committed v r" "r \<notin> vearly v"
  obtains repo' where "path_repo_exists cdc repo p r = (if 0 \<le> r \<and> p \<in> vhist v r then 1 else 0, repo')"
    "pr_inv cdc repo' v" "tree repo' = tree repo" "delta repo' = delta repo"
proof (cases "0 \<le> r")
  case True
  then obtain t repo' where "pr_tree cdc repo r = (Some t, repo')" "pr_inv cdc repo' v" "tree_ok t"
    "elems t = vhist v r" "tree repo' = tree repo" "delta repo' = delta repo"
    by (rule pr_tree_spec [OF inv _ assms(2,3)])
  then show thesis using that True cbs.mem_iff [of t p] by (simp add: path_repo_exists_def)
qed (use that inv in \<open>simp add: path_repo_exists_def\<close>)

lemma check_parent_exists:
  "path_repo_check_parent cdc repo parent child r = path_repo_exists cdc repo (parent @ [slash] @ child) r"
  by (simp only: path_repo_check_parent_def path_repo_exists_def)

section \<open>Reachable repositories\<close>

lemma pr_reach_inv: "pr_reach cdc D repo v \<Longrightarrow> codec_ok cdc D \<Longrightarrow> pr_inv cdc repo v"
proof (induction rule: pr_reach.induct)
  case create
  then show ?case by (intro pr_inv_create)
next
  case (add repo v p st repo')
  then show ?case using pr_inv_add(1) [of cdc repo v p] by simp
next
  case (delete repo v p s st repo')
  have "pr_inv cdc repo v" using delete by simp
  then show ?case
    using delete.hyps by (elim pr_inv_delete [of cdc repo v p s]) simp_all
next
  case (commit repo v r repo')
  then have "pr_inv cdc repo v" by simp
  from this commit.hyps(2) commit.prems commit.hyps(3) show ?case
    by (rule pr_inv_commit) (use commit.hyps(4) in simp_all)
next
  case (commit_fail repo v r st repo')
  then have "pr_inv cdc repo v" by simp
  from this commit_fail.hyps(2) commit_fail.prems commit_fail.hyps(3) show ?case
    by (rule pr_inv_commit) (use commit_fail.hyps(4,5) in simp_all)
next
  case (discard repo v st repo')
  then show ?case using pr_inv_discard [of cdc repo v] by fastforce
next
  case (exists repo v r p st repo')
  then show ?case using pr_inv_ask [of cdc repo v r p] by fastforce
next
  case (check_parent repo v r parent child st repo')
  then show ?case using pr_inv_ask [of cdc repo v r "parent @ [slash] @ child"] by (fastforce simp: check_parent_exists)
qed

section \<open>Log entries\<close>

lemma pr_inv_log_copy:
  assumes inv: "pr_inv cdc repo v" and src: "copy_src_ok v path lp cr"
  obtains t repo2 where "pr_tree cdc repo cr = (Some t, repo2)"
    "pr_tree_to_array t lp = Some (filter (is_under lp) (keys t))"
    "lp \<in> set (filter (is_under lp) (keys t))"
    "pr_inv cdc (pr_add_all (map (\<lambda>q. path @ drop (length lp) q) (filter (is_under lp) (keys t))) repo2)
       (v\<lparr>vcur := vcur v \<union> (\<lambda>q. path @ drop (length lp) q) ` {q \<in> vhist v cr. is_under lp q}\<rparr>)"
proof -
  have r: "0 \<le> cr" "committed v cr" "cr \<notin> vearly v" and lp: "lp \<in> vhist v cr"
    and key: "\<And>q. q \<in> vhist v cr \<Longrightarrow> is_under lp q \<Longrightarrow> is_key (path @ drop (length lp) q)"
    using src by (simp_all add: copy_src_ok_def)
  obtain t repo2 where t: "pr_tree cdc repo cr = (Some t, repo2)" "pr_inv cdc repo2 v" "tree_ok t"
    "elems t = vhist v cr" by (rule pr_tree_spec [OF inv r])
  let ?ps = "filter (is_under lp) (keys t)"
  have keys: "set (keys t) = vhist v cr" using t(4) by (simp add: elems_def)
  have "is_cstr lp" using elems_key [OF t(3)] lp t(4) is_key_cstr by blast
  then have "pr_tree_to_array t lp = Some ?ps"
    using pr_tree_to_array_match [OF t(3), of lp lp] lp t(4) by (simp add: starts_with_iff)
  moreover have "lp \<in> set ?ps" using lp keys by (simp add: is_under_def)
  moreover have "set (map (\<lambda>q. path @ drop (length lp) q) ?ps) =
      (\<lambda>q. path @ drop (length lp) q) ` {q \<in> vhist v cr. is_under lp q}" using keys by auto
  then have "pr_inv cdc (pr_add_all (map (\<lambda>q. path @ drop (length lp) q) ?ps) repo2)
      (v\<lparr>vcur := vcur v \<union> (\<lambda>q. path @ drop (length lp) q) ` {q \<in> vhist v cr. is_under lp q}\<rparr>)"
    using pr_inv_add_all [OF t(2), of "map (\<lambda>q. path @ drop (length lp) q) ?ps"] key by auto
  ultimately show thesis using that t(1) by blast
qed

text \<open>The special case of the source for a single path adds what the general one would.\<close>

lemma single_copy:
  assumes "lp \<in> set ps" "length ps = 1"
  shows "[path] = map (\<lambda>q. path @ drop (length lp) q) ps"
  using assms by (cases ps) auto

lemma v_delete_fields [simp]:
  "vhist (v_delete p v) = vhist v" "vhead (v_delete p v) = vhead v" "vfresh (v_delete p v) = vfresh v"
  "vearly (v_delete p v) = vearly v"
  by (simp_all add: v_delete_def)

lemma v_log_delete_fields [simp]:
  "vhist (v_log_delete p i v) = vhist v" "vhead (v_log_delete p i v) = vhead v" "vfresh (v_log_delete p i v) = vfresh v"
  "vearly (v_log_delete p i v) = vearly v"
  by (simp_all add: v_log_delete_def)

lemma copy_src_ok_delete [simp]: "copy_src_ok (v_log_delete p i v) path lp cr \<longleftrightarrow> copy_src_ok v path lp cr"
  by (simp add: copy_src_ok_def committed_def)

lemma pr_log_delete_spec:
  assumes inv: "pr_inv cdc repo v" and key: "is_key path"
    and pre: "cp_action info \<in> {CHR ''D'', CHR ''R''} \<Longrightarrow> \<exists>s \<in> vcur v. starts_with s path"
  obtains repo1 where "pr_inv cdc repo1 (v_log_delete path info v)"
    "pr_log_path cdc ra fuel sprefix opts logs logrev revision path info repo =
       pr_log_add cdc ra fuel sprefix opts logs logrev revision path info repo1"
proof (cases "cp_action info \<in> {CHR ''D'', CHR ''R''}")
  case True
  then obtain s where "s \<in> vcur v" "starts_with s path" using pre by auto
  then obtain repo' where "path_repo_delete repo path = Some (0, repo')" "pr_inv cdc repo' (v_delete path v)"
    by (rule pr_inv_delete [OF inv is_key_cstr [OF key]])
  then show thesis using that [of repo'] True by (simp add: pr_log_path_def v_log_delete_def)
qed (use that inv in \<open>simp add: pr_log_path_def v_log_delete_def\<close>)

lemma pr_inv_log_path:
  assumes inv: "pr_inv cdc repo v"
    and good: "log_path_ok ra fuel sprefix opts logs fetch logrev revision path info v"
  obtains repo' where "pr_log_path cdc ra fuel sprefix opts logs logrev revision path info repo = Some (0, repo')"
    "pr_inv cdc repo' (v_log_path sprefix opts logs fetch revision path info v)"
proof -
  have key: "is_key path"
    and pre: "cp_action info \<in> {CHR ''D'', CHR ''R''} \<Longrightarrow> \<exists>s \<in> vcur v. starts_with s path"
    using good by (simp_all add: log_path_ok_def)
  obtain repo1 where inv1: "pr_inv cdc repo1 (v_log_delete path info v)"
    and eq: "pr_log_path cdc ra fuel sprefix opts logs logrev revision path info repo =
       pr_log_add cdc ra fuel sprefix opts logs logrev revision path info repo1"
    by (rule pr_log_delete_spec [OF inv key pre])
  note goal = that [unfolded eq]
  note unf = pr_log_add_def v_log_path_def Let_def
  show thesis
  proof (cases "cp_action info = CHR ''A'' \<or> cp_action info = CHR ''R''")
    case False
    then show thesis using goal inv1 by (simp add: unf)
  next
    case AR: True
    show thesis
    proof (cases "cp_copyfrom_path info")
      case None
      then show thesis
        using AR pr_inv_add(1) [OF inv1 key] by (intro goal) (auto simp: unf pr_add_all_def)
    next
      case (Some cf)
      show thesis
      proof (cases "delta_get_local_copyfrom_path sprefix cf")
        case None
        then have "pr_fetch_paths ra fuel [] path logrev = Some (0, fetch path)" "\<forall>p \<in> set (fetch path). is_key p"
          using good AR Some pr_fetch_paths_listed by (auto simp: log_path_ok_def)
        then show thesis
          using AR None Some pr_inv_add_all [OF inv1, of "fetch path"] by (intro goal) (auto simp: unf)
      next
        case lp: (Some lp)
        let ?cr = "delta_get_local_copyfrom_rev (cp_copyfrom_rev info) opts logs revision"
        have "copy_src_ok v path lp ?cr" using good AR Some lp by (auto simp: log_path_ok_def)
        then have src: "copy_src_ok (v_log_delete path info v) path lp ?cr" by simp
        obtain t repo2 where t: "pr_tree cdc repo1 ?cr = (Some t, repo2)"
          "pr_tree_to_array t lp = Some (filter (is_under lp) (keys t))" "lp \<in> set (filter (is_under lp) (keys t))"
          and inv2: "pr_inv cdc (pr_add_all (map (\<lambda>q. path @ drop (length lp) q) (filter (is_under lp) (keys t))) repo2)
             ((v_log_delete path info v)\<lparr>vcur := vcur (v_log_delete path info v) \<union>
                (\<lambda>q. path @ drop (length lp) q) ` {q \<in> vhist (v_log_delete path info v) ?cr. is_under lp q}\<rparr>)"
          by (rule pr_inv_log_copy [OF inv1 src])
        define ps where "ps = filter (is_under lp) (keys t)"
        have ne: "ps \<noteq> []" using t(3) unfolding ps_def [symmetric] by auto
        have len: "\<not> (\<exists>rel \<in> set ps. length rel < length lp)"
          using is_under_starts_with [of lp] starts_with_length [of _ lp] by (fastforce simp: ps_def)
        have "pr_log_add cdc ra fuel sprefix opts logs logrev revision path info repo1 =
            Some (0, pr_add_all (map (\<lambda>q. path @ drop (length lp) q) ps) repo2)"
          using AR Some lp t(1,2) ne len single_copy [OF t(3), of path]
          by (auto simp: pr_log_add_def ps_def [symmetric])
        then show thesis
          using AR Some lp inv2 by (intro goal) (auto simp: v_log_path_def Let_def ps_def)
      qed
    qed
  qed
qed

lemma pr_inv_log_paths:
  assumes "pr_inv cdc repo v"
    and "log_paths_ok (log_path_ok ra fuel sprefix opts logs fetch logrev revision)
      (v_log_path sprefix opts logs fetch revision) changed paths v"
  shows "\<exists>repo'. pr_log_paths (pr_log_path cdc ra fuel sprefix opts logs logrev revision) changed paths repo =
      Some (0, repo') \<and>
    pr_inv cdc repo' (v_log_paths (v_log_path sprefix opts logs fetch revision) changed paths v)"
  using assms
proof (induction paths arbitrary: repo v)
  case (Cons path paths)
  then obtain info where info: "apr_hash_get changed path = Some info"
    "log_path_ok ra fuel sprefix opts logs fetch logrev revision path info v"
    "log_paths_ok (log_path_ok ra fuel sprefix opts logs fetch logrev revision)
      (v_log_path sprefix opts logs fetch revision) changed paths
      (v_log_path sprefix opts logs fetch revision path info v)"
    by (auto split: option.splits)
  obtain repo1 where "pr_log_path cdc ra fuel sprefix opts logs logrev revision path info repo = Some (0, repo1)"
    "pr_inv cdc repo1 (v_log_path sprefix opts logs fetch revision path info v)"
    by (rule pr_inv_log_path [OF Cons.prems(1) info(2)])
  then show ?case using Cons.IH info(1,3) by simp
qed simp

text \<open>Processing a log entry changes only the set under construction.\<close>

lemma v_log_path_fields [simp]:
  "vhist (v_log_path sprefix opts logs fetch revision path info v) = vhist v"
  "vhead (v_log_path sprefix opts logs fetch revision path info v) = vhead v"
  "vfresh (v_log_path sprefix opts logs fetch revision path info v) = vfresh v"
  by (simp_all add: v_log_path_def Let_def v_add_def split: option.splits)

lemma v_log_paths_fields [simp]:
  "vhist (v_log_paths (v_log_path sprefix opts logs fetch revision) changed paths v) = vhist v"
  "vhead (v_log_paths (v_log_path sprefix opts logs fetch revision) changed paths v) = vhead v"
  "vfresh (v_log_paths (v_log_path sprefix opts logs fetch revision) changed paths v) = vfresh v"
  by (induction paths arbitrary: v) simp_all

lemma pr_inv_commit_log:
  assumes inv: "pr_inv cdc repo v" and c: "commit_ok v revision" and cdc: "codec_ok cdc D"
    and data: "\<And>repo1. pr_log_paths (pr_log_path cdc ra fuel sprefix opts logs (lr_revision log) revision) changed
      (utils_sort (map fst changed)) repo = Some (0, repo1) \<Longrightarrow> commit_fits D repo1 revision"
    and changed: "lr_changed_paths log = Some changed"
    and good: "log_paths_ok (log_path_ok ra fuel sprefix opts logs fetch (lr_revision log) revision)
      (v_log_path sprefix opts logs fetch revision) changed (utils_sort (map fst changed)) v"
  defines "v' \<equiv> v_log_paths (v_log_path sprefix opts logs fetch revision) changed (utils_sort (map fst changed)) v"
  obtains
    (ok) repo' where "path_repo_commit_log cdc ra fuel sprefix opts repo log revision logs = Some (0, repo')"
      "pr_inv cdc repo' (v_commit revision v')"
  | (full) repo' where "path_repo_commit_log cdc ra fuel sprefix opts repo log revision logs = Some (-1, repo')"
      "pr_inv cdc repo' v'"
proof -
  obtain repo1 where r1: "pr_log_paths (pr_log_path cdc ra fuel sprefix opts logs (lr_revision log) revision) changed
      (utils_sort (map fst changed)) repo = Some (0, repo1)" "pr_inv cdc repo1 v'"
    using pr_inv_log_paths [OF inv good] by (auto simp: v'_def)
  have eq: "path_repo_commit_log cdc ra fuel sprefix opts repo log revision logs = path_repo_commit cdc repo1 revision"
    using r1(1) changed by (simp add: path_repo_commit_log_def)
  have "commit_ok v' revision" using c by (simp add: commit_ok_def v'_def)
  then show thesis using ok full eq by (elim pr_inv_commit [OF r1(2) _ cdc data [OF r1(1)]]) simp_all
qed

section \<open>Properties\<close>

lemma commit_fits_small: "length (commit_data repo r) < 100 \<Longrightarrow> commit_fits UNIV repo r"
  by (simp add: commit_fits_def)

lemma demo_reach: "pr_reach codec_none UNIV demo_repo demo_v"
proof -
  have "path_repo_create True memory (disk 4096) ''/tmp'' = Some demo_empty"
    by (simp add: demo_empty_def path_repo_create_def mukv_open_def disk_def)
  then have 0: "pr_reach codec_none UNIV demo_empty v_create" by (rule pr_reach.create) simp_all
  have key: "is_key ''trunk''" "is_key ''trunk/a''" by (simp_all add: is_key_def)
  have eq: "demo_paths = snd (path_repo_add (snd (path_repo_add demo_empty ''trunk'')) ''trunk/a'')"
    by (simp add: demo_paths_def pr_add_all_def)
  have 1: "pr_reach codec_none UNIV demo_paths (v_add ''trunk/a'' (v_add ''trunk'' v_create))"
    unfolding eq by (intro pr_reach.add [OF _ _ prod.collapse [symmetric]] 0 key)
  have "map_option fst (path_repo_commit codec_none demo_paths 1) = Some 0" by code_simp
  then have c: "path_repo_commit codec_none demo_paths 1 = Some (0, demo_repo)"
    by (auto simp: demo_repo_def)
  have "commit_fits UNIV demo_paths 1" by (rule commit_fits_small) code_simp
  moreover  have "commit_ok (v_add ''trunk/a'' (v_add ''trunk'' v_create)) 1"
    by (simp add: commit_ok_def v_add_def v_create_def SNAPSHOT_INTERVAL_def)
  ultimately show ?thesis unfolding demo_v_def using pr_reach.commit [OF 1 _ _ c] by simp
qed

lemma demo_v_simps [simp]:
  "vhead demo_v = 1" "vfresh demo_v = False" "vcur demo_v = {''trunk'', ''trunk/a''}"
  "vhist demo_v 1 = {''trunk'', ''trunk/a''}" "vhist demo_v 0 = {}" "vearly demo_v = {}"
  by (auto simp: demo_v_def v_commit_def v_add_def v_create_def)

text \<open>The state after asking for the revision 2 before it is committed, adding \<open>b\<close> and committing 3.\<close>

definition demo_asked :: path_repo where
  "demo_asked = snd (path_repo_exists codec_none demo_repo ''b'' 2)"

definition demo_repo3 :: path_repo where
  "demo_repo3 = snd (the (path_repo_commit codec_none (snd (path_repo_add demo_asked ''b'')) 3))"

definition demo_v3 :: vpaths where
  "demo_v3 = v_commit 3 (v_add ''b'' (v_ask 2 demo_v))"

lemma demo_v3_simps [simp]:
  "vhead demo_v3 = 3" "vfresh demo_v3 = False" "vhist demo_v3 3 = {''b'', ''trunk'', ''trunk/a''}"
  "vhist demo_v3 1 = {''trunk'', ''trunk/a''}" "vearly demo_v3 = {2}"
  by (auto simp: demo_v3_def v_commit_def v_add_def v_ask_def committed_def)

lemma demo_reach3: "pr_reach codec_none UNIV demo_repo3 demo_v3"
proof -
  let ?r = "snd (path_repo_add demo_asked ''b'')" and ?v = "v_add ''b'' (v_ask 2 demo_v)"
  have "pr_reach codec_none UNIV demo_asked (v_ask 2 demo_v)"
    unfolding demo_asked_def by (rule pr_reach.exists [OF demo_reach _ prod.collapse [symmetric]]) simp
  then have 1: "pr_reach codec_none UNIV ?r ?v"
    by (rule pr_reach.add [OF _ _ prod.collapse [symmetric]]) (simp add: is_key_def)
  have "map_option fst (path_repo_commit codec_none ?r 3) = Some 0" by code_simp
  then have c: "path_repo_commit codec_none ?r 3 = Some (0, demo_repo3)" by (auto simp: demo_repo3_def)
  have "commit_ok ?v 3"
    by (simp add: commit_ok_def v_add_def v_ask_def committed_def SNAPSHOT_INTERVAL_def)
  moreover have "commit_fits UNIV ?r 3" by (rule commit_fits_small) code_simp
  ultimately show ?thesis unfolding demo_v3_def using pr_reach.commit [OF 1 _ _ c] by simp
qed

text \<open>
  C3. After any sequence of additions, deletions, commits, discards and queries, asking whether a path exists
  in a committed revision answers exactly whether the path belongs to the set of paths of that
  revision (never an error), and asking changes nothing that later answers depend on. The set of
  a revision is what the additions and deletions before its commit left. This is promised for revisions
  that were not asked for before they were committed, as long as deletions are of paths that some path starts with, commits
  use increasing numbers below \<open>2 ^ 31\<close> that skip no multiple of 1024 and store less than 2 GiB, memory does not run out
  and the compressor undoes itself on the stored data.
\<close>

theorem path_repo_exists_correct:
  assumes "pr_reach cdc D repo v" "codec_ok cdc D" "committed v r" "r \<notin> vearly v"
  shows "\<exists>repo'. path_repo_exists cdc repo p r = (if 0 \<le> r \<and> p \<in> vhist v r then 1 else 0, repo') \<and>
    pr_reach cdc D repo' v"
proof -
  have inv: "pr_inv cdc repo v" by (rule pr_reach_inv [OF assms(1,2)])
  obtain repo' where r: "path_repo_exists cdc repo p r = (if 0 \<le> r \<and> p \<in> vhist v r then 1 else 0, repo')"
    by (rule pr_inv_exists [OF inv assms(3,4)])
  have "r < 2 ^ 31" using inv assms(3) by (auto simp: pr_inv_def hist_ok_def committed_def)
  then have "pr_reach cdc D repo' v" using pr_reach.exists [OF assms(1) _ r] v_ask_committed [OF assms(3)] by simp
  then show ?thesis using r by blast
qed

theorem path_repo_exists_correct_witness:
  "fst (path_repo_exists codec_none demo_repo3 ''b'' 3) = 1 \<and>
   fst (path_repo_exists codec_none demo_repo3 ''b'' 1) = 0"
  using path_repo_exists_correct [OF demo_reach3 codec_none_ok, of 3 "''b''"]
    path_repo_exists_correct [OF demo_reach3 codec_none_ok, of 1 "''b''"] by (auto simp: committed_def)

text \<open>
  C11. A commit under a revision number that is above the last one and skips no multiple of 1024, of less than 2 GiB of
  data that the compressor can handle, either succeeds, and then every revision from the committed one on has the paths that
  were scheduled while all older revisions keep theirs, or fails with -1 and leaves the
  specification state, the scheduled actions included, as it was.
\<close>

theorem path_repo_commit_refines:
  assumes "pr_inv cdc repo v" "commit_ok v r" "codec_ok cdc D"
    "commit_fits D repo r"
  shows "(\<exists>repo'. path_repo_commit cdc repo r = Some (0, repo') \<and> pr_inv cdc repo' (v_commit r v)) \<or>
         (\<exists>repo'. path_repo_commit cdc repo r = Some (-1, repo') \<and> pr_inv cdc repo' v)"
  by (rule pr_inv_commit [OF assms]) auto

theorem path_repo_commit_refines_witness:
  "\<exists>repo'. path_repo_commit codec_none demo_repo 7 = Some (0, repo') \<and> pr_inv codec_none repo' (v_commit 7 demo_v)"
proof -
  have "commit_ok demo_v 7" by (simp add: commit_ok_def SNAPSHOT_INTERVAL_def)
  moreover have "map_option fst (path_repo_commit codec_none demo_repo 7) = Some 0" by code_simp
  moreover have "commit_fits UNIV demo_repo 7" by (rule commit_fits_small) code_simp
  ultimately show ?thesis
    using path_repo_commit_refines [OF pr_reach_inv [OF demo_reach codec_none_ok] _ codec_none_ok [of UNIV], of 7] by auto
qed

text \<open>
  C29. Adding a path puts it into the set under construction, schedules the action and reports -1
  exactly when the path was there already.
\<close>

theorem path_repo_add_refines:
  assumes "pr_inv cdc repo v" "is_key p"
  shows "path_repo_add repo p = (if p \<in> vcur v then -1 else 0, snd (path_repo_add repo p)) \<and>
    pr_inv cdc (snd (path_repo_add repo p)) (v_add p v)"
  using pr_inv_add [OF assms] by (metis prod.collapse)

theorem path_repo_add_refines_witness:
  "fst (path_repo_add demo_repo ''trunk'') = -1 \<and> fst (path_repo_add demo_repo ''b'') = 0"
  using path_repo_add_refines [OF pr_reach_inv [OF demo_reach codec_none_ok], of "''trunk''"]
    path_repo_add_refines [OF pr_reach_inv [OF demo_reach codec_none_ok], of "''b''"]
  by (auto simp: is_key_def prod_eq_iff)

text \<open>
  C28. Deleting a path that some path of the tree starts with removes exactly the path and everything
  below it (separated by a slash; \<open>trunk2\<close> survives the deletion of \<open>trunk\<close>) and succeeds.
\<close>

theorem path_repo_delete_refines:
  assumes "pr_inv cdc repo v" "is_cstr p" "s \<in> vcur v" "starts_with s p"
  shows "\<exists>repo'. path_repo_delete repo p = Some (0, repo') \<and> pr_inv cdc repo' (v_delete p v)"
  by (rule pr_inv_delete [OF assms]) blast

theorem path_repo_delete_refines_witness:
  "\<exists>repo'. path_repo_delete demo_repo ''trunk'' = Some (0, repo') \<and> elems (tree repo') = {}"
proof -
  have "is_cstr ''trunk''" "''trunk'' \<in> vcur demo_v" "starts_with ''trunk'' ''trunk''"
    by (simp_all add: starts_with_iff)
  then obtain repo' where "path_repo_delete demo_repo ''trunk'' = Some (0, repo')"
    "pr_inv codec_none repo' (v_delete ''trunk'' demo_v)"
    using path_repo_delete_refines [OF pr_reach_inv [OF demo_reach codec_none_ok], of "''trunk''" "''trunk''"] by blast
  moreover have "vcur (v_delete ''trunk'' demo_v) = {}"
    by (auto simp: v_delete_def is_under_def starts_with_iff)
  ultimately show ?thesis using pr_inv_tree(2) [of codec_none repo' "v_delete ''trunk'' demo_v"] by simp
qed

text \<open>
  C30. Discarding drops the scheduled actions and brings back the tree of the last committed revision.
\<close>

theorem path_repo_discard_refines:
  assumes "pr_inv cdc repo v"
  shows "\<exists>repo'. path_repo_discard cdc repo = (0, repo') \<and> pr_inv cdc repo' (v_discard v) \<and>
    elems (tree repo') = vhist v (vhead v)"
proof -
  obtain repo' where "path_repo_discard cdc repo = (0, repo')" "pr_inv cdc repo' (v_discard v)"
    by (rule pr_inv_discard [OF assms])
  then show ?thesis using pr_inv_tree(2) [of cdc repo' "v_discard v"] by (auto simp: v_discard_def)
qed

theorem path_repo_discard_refines_witness:
  "\<exists>repo'. path_repo_discard codec_none demo_repo = (0, repo') \<and> elems (tree repo') = {''trunk'', ''trunk/a''}"
  using path_repo_discard_refines [OF pr_reach_inv [OF demo_reach codec_none_ok]] by auto


lemma demo_local_rev: "delta_get_local_copyfrom_rev 1 demo_opts demo_logs 2 = 1" by code_simp

lemma demo_under: "{q. (q = ''trunk'' \<or> q = ''trunk/a'') \<and> is_under ''trunk'' q} = {''trunk'', ''trunk/a''}"
  by (auto simp: is_under_def starts_with_def)

lemma demo_log_ok:
  "log_paths_ok (log_path_ok no_ra 0 '''' demo_opts demo_logs (\<lambda>_. []) 2 2)
       (v_log_path '''' demo_opts demo_logs (\<lambda>_. []) 2) demo_changed (utils_sort (map fst demo_changed)) demo_v"
  by (auto simp add: demo_changed_def utils_sort_def apr_hash_get_def log_path_ok_def is_key_def copy_src_ok_def committed_def
      delta_get_local_copyfrom_path_def starts_with_iff demo_local_rev is_under_def)


text \<open>
  C31. A snapshot buffer of less than 2 GiB, applied to an empty tree, gives back the tree it was made from.
\<close>

theorem pr_encode_roundtrip:
  assumes "tree_ok t" "mem_enough mem" "int (length (snd (pr_encode t))) < 2 ^ 31"
  shows "fst (pr_encode t) = 0 \<and>
    tree_ok (pr_delta_apply (cb_tree_make mem) (snd (pr_encode t)) (int (length (snd (pr_encode t))))) \<and>
    elems (pr_delta_apply (cb_tree_make mem) (snd (pr_encode t)) (int (length (snd (pr_encode t))))) = elems t"
proof -
  have "stored_ok (map (Pair CHR ''+'') (keys t))"
    using elems_key [OF assms(1)] assms(3) pr_encode_eq [OF assms(1)] by (auto simp: stored_ok_def acts_ok_def elems_def)
  then show ?thesis
    using pr_delta_apply_set [of "cb_tree_make mem" "map (Pair CHR ''+'') (keys t)"] pr_encode_eq [OF assms(1)] assms(2)
    by (simp add: set_replay_adds elems_def [of t])
qed

theorem pr_encode_roundtrip_witness:
  "elems (pr_delta_apply (cb_tree_make memory) (snd (pr_encode (tree demo_repo))) (int (length (snd (pr_encode (tree demo_repo)))))) =
     {''trunk'', ''trunk/a''}"
proof -
  have "int (length (snd (pr_encode (tree demo_repo)))) < 2 ^ 31" by code_simp
  then show ?thesis
    using pr_encode_roundtrip [OF pr_inv_tree(1) [OF pr_reach_inv [OF demo_reach codec_none_ok]] memory_enough]
      pr_inv_tree(2) [OF pr_reach_inv [OF demo_reach codec_none_ok]] by simp
qed

text \<open>
  C33. In every state that the operations lead to, while less than 2 GiB of actions are scheduled,
  \<open>delta_len\<close> is the number of bytes that encode them: the buffer that a commit allocates is filled exactly, whatever the
  revision number, and nothing is written outside of it; and a revision that schedules anything is not taken for an empty one.
\<close>

theorem delta_buffer_exact:
  assumes "pr_reach cdc D repo v" "codec_ok cdc D" "int (length (concat (map enc_action (delta repo)))) < 2 ^ 31"
  shows "pr_delta_encode repo = Some (concat (map enc_action (delta repo))) \<and> path_repo_commit cdc repo r \<noteq> None \<and>
    (delta_len repo \<le> 0 \<longleftrightarrow> delta repo = [])"
proof -
  have "delta_len repo = int (length (concat (map enc_action (delta repo))))"
    by (rule delta_len_exact [OF pr_reach_inv [OF assms(1,2)] assms(3)])
  then have "pr_delta_encode repo = Some (concat (map enc_action (delta repo)))" "delta_len repo \<le> 0 \<longleftrightarrow> delta repo = []"
    using delta_len_zero [of "delta repo"] by (auto simp: pr_delta_encode_def length_enc)
  then show ?thesis by (auto simp: path_repo_commit_def Let_def split: option.splits prod.splits)
qed

theorem delta_buffer_exact_witness:
  "path_repo_commit codec_none (snd (path_repo_add demo_repo ''b'')) 1024 \<noteq> None \<and>
   delta_len (snd (path_repo_add demo_repo ''b'')) > 0"
proof -
  let ?r = "snd (path_repo_add demo_repo ''b'')"
  have "pr_reach codec_none UNIV ?r (v_add ''b'' demo_v)"
    by (rule pr_reach.add [OF demo_reach _ prod.collapse [symmetric]]) (simp add: is_key_def)
  moreover have "int (length (concat (map enc_action (delta ?r)))) < 2 ^ 31" "delta ?r \<noteq> []" by code_simp+
  ultimately show ?thesis using delta_buffer_exact [OF _ codec_none_ok, of UNIV ?r _ 1024] by (auto simp: not_le)
qed

text \<open>
  From 2 GiB of actions on the length wraps around: a commit then takes a revision with actions for an empty one,
  drops nothing and stores nothing, or it is not defined.
\<close>

theorem delta_len_wraps:
  assumes "pr_inv cdc repo v" "\<not> is_snapshot r"
    "2 ^ 31 \<le> int (length (concat (map enc_action (delta repo))))"
  shows "path_repo_commit cdc repo r = (if delta_len repo \<le> 0 then Some (0, repo\<lparr>head := r\<rparr>) else None)"
proof -
  have "delta_len repo = c_int (int (length (concat (map enc_action (delta repo)))))"
    using assms(1) by (simp add: pr_inv_def cur_ok_def length_enc [symmetric])
  moreover have "c_int n < 2 ^ 31" for n using sint_lt [of "word_of_int n :: 32 word"] by (simp add: c_int_def)
  ultimately have "delta_len repo \<noteq> int (length (concat (map enc_action (delta repo))))" using assms(3) by (metis not_less)
  then show ?thesis using assms(2) by (simp add: path_repo_commit_def pr_delta_encode_def Let_def)
qed

text \<open>
  Deleting a path that is not in the tree can remove an unrelated one: in a repository whose only
  path is \<open>trunk\<close>, deleting \<open>drunk\<close> reports success and takes \<open>trunk\<close> away. The walk below a prefix
  does not check that the prefix matches, and the callback compares lengths only.
\<close>

theorem path_repo_delete_absent:
  "map_option (\<lambda>(st, r). (st, cb_tree_contains (tree r) ''trunk''))
     (path_repo_delete (snd (path_repo_add demo_empty ''trunk'')) ''drunk'') = Some (0, False)"
  by code_simp

text \<open>
  When the revision numbers of two commits skip a snapshot revision (1024 here), paths of the
  earlier commits are missing from the later one although nothing deleted them: the tree under
  construction has \<open>trunk\<close>, its committed revision 1025 has not.
\<close>

theorem path_repo_skipped_snapshot:
  "(let repo = snd (the (path_repo_commit codec_none (snd (path_repo_add demo_repo ''b'')) 1025))
    in head repo = 1025 \<and> cb_tree_contains (tree repo) ''trunk'' \<and>
       fst (path_repo_exists codec_none repo ''trunk'' 1025) = 0)"
  by code_simp

text \<open>
  Asking for a revision that is not committed yet caches the tree of the revision before it, and
  the commit does not invalidate the cache: after the commit the stale answer is given again.
\<close>

theorem path_repo_stale_cache:
  "(let r1 = snd (path_repo_exists codec_none demo_repo ''b'' 2);
        r2 = snd (the (path_repo_commit codec_none (snd (path_repo_add r1 ''b'')) 2))
    in cb_tree_contains (tree r2) ''b'' \<and> fst (path_repo_exists codec_none r2 ''b'' 2) = 0)"
  by code_simp

text \<open>
  A copy of the session's root to \<open>tag\<close> records the copied paths without a separator
  (\<open>tagtrunk\<close> for \<open>tag/trunk\<close>) and does not record \<open>tag\<close>.
\<close>

theorem path_repo_root_copy:
  "map_option (\<lambda>(st, r). (st, keys (tree r)))
     (path_repo_commit_log codec_none no_ra 0 '''' demo_opts demo_repo
        (demo_log 2 (Some [(''tag'', \<lparr>cp_action = CHR ''A'', cp_copyfrom_path = Some '''', cp_copyfrom_rev = 1\<rparr>)]))
        2 demo_logs) =
     Some (0, [''tagtrunk'', ''tagtrunk/a'', ''trunk'', ''trunk/a''])"
  by code_simp

end
