(* ===== verification/Property.thy ===== *)
theory Property
  imports Mukv Types
begin

text \<open>
  Properties: \<open>src/property.c\<close>. The first part prints properties in the dump format and computes
  the lengths the headers announce. The second part is the property storage: the properties of
  every path between the revision that changed them and the next one that needs them, shared
  between paths by the MD5 of their serialised form and counted by reference.

  A property hash is an \<open>apr_hash\<close> from names to values; a value is the byte string of an
  \<open>svn_string_t\<close>. Serialised integers are 32-bit two's complement, least significant byte first.
  References are heap objects, because entries, the reference table and the garbage list share
  them: an address is a natural number, a freed object is no longer in the heap, and using a
  freed object makes an operation return \<open>None\<close>. The three calls of \<open>malloc\<close> and \<open>strdup\<close> in
  \<open>property_store\<close> succeed or not as \<open>mem\<close> says. MD5 and the compressor are arguments.
\<close>

section \<open>Definitions\<close>

subsection \<open>Printing\<close>

definition strlen :: "string \<Rightarrow> nat" where
  "strlen s = length (cstr_of s)"

definition property_strlen :: "string option \<Rightarrow> string option \<Rightarrow> nat" where
  "property_strlen key val =
     (case key of
        None \<Rightarrow> 0
      | Some k \<Rightarrow>
          (case val of
             None \<Rightarrow> strlen (''K '' @ dec_nat (strlen k) @ nl @ cstr_of k @ nl @ ''V 0'' @ nl @ nl)
           | Some v \<Rightarrow> strlen (''K '' @ dec_nat (strlen k) @ nl @ cstr_of k @ nl @
                               ''V '' @ dec_nat (strlen v) @ nl @ cstr_of v @ nl)))"

definition property_del_strlen :: "string option \<Rightarrow> nat" where
  "property_del_strlen key =
     (case key of
        None \<Rightarrow> 0
      | Some k \<Rightarrow> strlen (''D '' @ dec_nat (strlen k) @ nl @ cstr_of k @ nl))"

text \<open>The bytes written to standard output.\<close>

definition property_dump :: "string option \<Rightarrow> string option \<Rightarrow> string" where
  "property_dump key val =
     (case key of
        None \<Rightarrow> []
      | Some k \<Rightarrow>
          ''K '' @ dec_nat (strlen k) @ nl @
          cstr_of k @ nl @
          (case val of
             Some v \<Rightarrow> ''V '' @ dec_nat (strlen v) @ nl @ cstr_of v @ nl
           | None \<Rightarrow> ''V 0'' @ nl @ nl))"

definition property_del_dump :: "string option \<Rightarrow> string" where
  "property_del_dump key =
     (case key of
        None \<Rightarrow> []
      | Some k \<Rightarrow> ''D '' @ dec_nat (strlen k) @ nl @ cstr_of k @ nl)"

subsection \<open>Serialisation\<close>

type_synonym props = "string apr_hash"

definition sizeof_int :: nat where
  "sizeof_int = 4"

text \<open>\<open>*(int *)p = i\<close> and \<open>*(int *)p\<close>.\<close>

definition put_int :: "int \<Rightarrow> string" where
  "put_int i = map (\<lambda>k. char_of (nat (i div 256 ^ k mod 256))) [0 ..< sizeof_int]"

definition get_int :: "string \<Rightarrow> int" where
  "get_int bs =
     (let n = (\<Sum>k \<leftarrow> [0 ..< sizeof_int]. (of_char (bs ! k) :: int) * 256 ^ k)
      in if n < 2 ^ 31 then n else n - 2 ^ 32)"

text \<open>The first loop: the number of bytes to allocate.\<close>

definition prop_hash_len :: "props \<Rightarrow> nat" where
  "prop_hash_len props =
     (\<Sum>(k, v) \<leftarrow> props. sizeof_int * 2 + (strlen k + length v)) + sizeof_int"

definition prop_hash_serialize :: "props \<Rightarrow> string" where
  "prop_hash_serialize props =
     concat (map (\<lambda>(k, v). put_int (int (strlen k)) @ cstr_of k @ put_int (int (length v)) @ v) props) @ put_int 0"

text \<open>
  Reading outside of the buffer is undefined: \<open>None\<close>. \<open>apr_pstrndup\<close> stops at a NUL byte,
  \<open>svn_string_ncreate\<close> does not.
\<close>

function prop_hash_reconstruct :: "props \<Rightarrow> string \<Rightarrow> props option" where
  "prop_hash_reconstruct props bs =
     (if length bs < sizeof_int then None
      else if get_int bs = 0 then Some props
      else if get_int bs < 0 then None
      else let n = nat (get_int bs);
               key = cstr_of (take n (drop sizeof_int bs));
               bs2 = drop (sizeof_int + n) bs
           in if length bs < sizeof_int + n \<or> length bs2 < sizeof_int then None
              else if get_int bs2 < 0 then None
              else let m = nat (get_int bs2);
                       val = take m (drop sizeof_int bs2)
                   in if length bs2 < sizeof_int + m then None
                      else prop_hash_reconstruct (apr_hash_set props key (Some val)) (drop (sizeof_int + m) bs2))"
  by pat_completeness auto
termination
  by (relation "measure (\<lambda>(props, bs). length bs)") (simp, auto simp: sizeof_int_def, linarith)

declare prop_hash_reconstruct.simps [simp del]

subsection \<open>The storage\<close>

record prop_ref =
  ref_id :: string
  ref_count :: int

record property_storage =
  refs :: "nat apr_hash"
  entries :: "nat apr_hash"
  store_db :: mukv
  gc :: "nat apr_hash"
  heap :: "nat \<Rightarrow> prop_ref option"
  fresh :: nat

definition property_storage_create :: "bool \<Rightarrow> fopen \<Rightarrow> string \<Rightarrow> property_storage option" where
  "property_storage_create snappy_init fopen tmpdir =
     (case mukv_open fopen (tmpdir @ ''/props.db'') of
        None \<Rightarrow> None
      | Some kv \<Rightarrow>
          if \<not> snappy_init then None
          else Some \<lparr>refs = [], entries = [], store_db = kv, gc = [], heap = (\<lambda>_. None), fresh = 0\<rparr>)"

text \<open>Looking up the reference for an identifier, or making a new one and storing the data.\<close>

definition prop_get_ref ::
  "codec \<Rightarrow> (nat \<Rightarrow> bool) \<Rightarrow> property_storage \<Rightarrow> string \<Rightarrow> string \<Rightarrow> nat option \<times> property_storage" where
  "prop_get_ref cdc mem store dig data =
     (case apr_hash_get (refs store) dig of
        Some a \<Rightarrow> (Some a, store)
      | None \<Rightarrow>
          if \<not> mem 0 then (None, store)
          else (let a = fresh store;
                    store1 = store\<lparr>refs := apr_hash_set (refs store) dig (Some a),
                                   heap := (heap store)(a \<mapsto> \<lparr>ref_id = dig, ref_count = 0\<rparr>),
                                   fresh := Suc a\<rparr>
                in case compress cdc data of
                     None \<Rightarrow> (None, store1)
                   | Some z \<Rightarrow>
                       (case mukv_store (store_db store1) dig z of
                          (rc, kv) \<Rightarrow>
                            (if rc \<noteq> 0 then None else Some a, store1\<lparr>store_db := kv\<rparr>))))"

definition property_store ::
  "codec \<Rightarrow> (string \<Rightarrow> string) \<Rightarrow> (nat \<Rightarrow> bool) \<Rightarrow> property_storage \<Rightarrow> string \<Rightarrow> props \<Rightarrow>
     (int \<times> property_storage) option" where
  "property_store cdc md5 mem store path props =
     (let entry = apr_hash_get (entries store) path
      in if props = [] then Some (0, store\<lparr>entries := apr_hash_set (entries store) path None\<rparr>)
         else (let data = prop_hash_serialize props;
                   dig = md5 data
               in case prop_get_ref cdc mem store dig data of
                    (None, store1) \<Rightarrow> Some (-1, store1)
                  | (Some a, store1) \<Rightarrow>
                      if entry = None \<and> (\<not> mem 1 \<or> \<not> mem 2) then Some (-1, store1)
                      else (case heap store1 a of
                              None \<Rightarrow> None
                            | Some ref \<Rightarrow>
                                Some (0, store1\<lparr>heap := (heap store1)(a \<mapsto> ref\<lparr>ref_count := ref_count ref + 1\<rparr>),
                                                entries := apr_hash_set (entries store1) path (Some a)\<rparr>))))"

text \<open>
  The common end of \<open>property_load\<close> and \<open>property_delete\<close>. The key of the garbage list is the
  reference itself with the size of a pointer: the first eight bytes of the identifier. APR keeps
  the key of an entry that is set again, so an earlier reference with the same eight bytes stays.
\<close>

definition gc_key :: "prop_ref \<Rightarrow> string" where
  "gc_key ref = take 8 (ref_id ref)"

definition prop_unref :: "property_storage \<Rightarrow> string \<Rightarrow> nat \<Rightarrow> prop_ref \<Rightarrow> property_storage" where
  "prop_unref store path a ref =
     (let ref' = ref\<lparr>ref_count := ref_count ref - 1\<rparr>;
          store1 = store\<lparr>entries := apr_hash_set (entries store) path None, heap := (heap store)(a \<mapsto> ref')\<rparr>
      in if ref_count ref' \<le> 0 \<and> apr_hash_get (gc store) (gc_key ref') = None
         then store1\<lparr>gc := apr_hash_set (gc store) (gc_key ref') (Some a)\<rparr> else store1)"

definition property_load ::
  "codec \<Rightarrow> property_storage \<Rightarrow> string \<Rightarrow> props \<Rightarrow> (int \<times> props \<times> property_storage) option" where
  "property_load cdc store path props =
     (case apr_hash_get (entries store) path of
        None \<Rightarrow> Some (0, props, store)
      | Some a \<Rightarrow>
          (case heap store a of
             None \<Rightarrow> None
           | Some ref \<Rightarrow>
               (case mukv_fetch (store_db store) (ref_id ref) of
                  (None, kv) \<Rightarrow> Some (-1, props, store\<lparr>store_db := kv\<rparr>)
                | (Some val, kv) \<Rightarrow>
                    (case uncompress cdc val of
                       None \<Rightarrow> Some (-1, props, store\<lparr>store_db := kv\<rparr>)
                     | Some data \<Rightarrow>
                         (case prop_hash_reconstruct props data of
                            None \<Rightarrow> None
                          | Some props' \<Rightarrow> Some (0, props', prop_unref (store\<lparr>store_db := kv\<rparr>) path a ref))))))"

definition property_delete :: "property_storage \<Rightarrow> string \<Rightarrow> (int \<times> property_storage) option" where
  "property_delete store path =
     (case apr_hash_get (entries store) path of
        None \<Rightarrow> Some (0, store)
      | Some a \<Rightarrow>
          (case heap store a of
             None \<Rightarrow> None
           | Some ref \<Rightarrow> Some (0, prop_unref store path a ref)))"

text \<open>The loop of the cleanup over the garbage list; the references to free are collected, and
  freeing one twice is undefined.\<close>

fun prop_gc_loop :: "nat list \<Rightarrow> property_storage \<Rightarrow> nat list \<Rightarrow> (int \<times> nat list \<times> property_storage) option" where
  "prop_gc_loop [] store tofree = Some (0, tofree, store)"
| "prop_gc_loop (a # as) store tofree =
     (case heap store a of
        None \<Rightarrow> None
      | Some ref \<Rightarrow>
          if ref_count ref \<le> 0
          then (let store1 = store\<lparr>refs := apr_hash_set (refs store) (ref_id ref) None\<rparr>
                in case mukv_delete (store_db store1) (ref_id ref) of
                     (rc, kv) \<Rightarrow>
                       if rc \<noteq> 0 then Some (-1, tofree, store1\<lparr>store_db := kv\<rparr>)
                       else prop_gc_loop as (store1\<lparr>store_db := kv\<rparr>) (tofree @ [a]))
          else prop_gc_loop as store tofree)"

definition property_storage_cleanup :: "property_storage \<Rightarrow> (int \<times> property_storage) option" where
  "property_storage_cleanup store =
     (if gc store = [] then Some (0, store)
      else (case prop_gc_loop (map snd (gc store)) store [] of
              None \<Rightarrow> None
            | Some (rc, tofree, store1) \<Rightarrow>
                if rc \<noteq> 0 then Some (rc, store1)
                else if \<not> distinct tofree then None
                else Some (0, store1\<lparr>gc := [], heap := (\<lambda>a. if a \<in> set tofree then None else heap store1 a)\<rparr>)))"

text \<open>The handler of the global pool frees every reference in the table; a value that is not allocated
  any more, or that is there twice, is undefined.\<close>

definition prop_cleanup :: "int \<Rightarrow> int \<Rightarrow> property_storage \<Rightarrow> property_storage option" where
  "prop_cleanup fclose_errno unlink_errno store =
     (let as = map snd (refs store)
      in if \<not> distinct as \<or> (\<exists>a \<in> set as. heap store a = None) then None
         else Some (store\<lparr>heap := (\<lambda>a. if a \<in> set as then None else heap store a),
                          store_db := snd (mukv_close fclose_errno unlink_errno (store_db store))\<rparr>))"

section \<open>What the storage promises\<close>

text \<open>A reader of the dump format: a tag, a length, that many bytes and a newline.\<close>

definition read_item :: "char \<Rightarrow> string \<Rightarrow> (string \<times> string) option" where
  "read_item tag s =
     (if take 2 s \<noteq> [tag, CHR '' ''] then None
      else let num = takeWhile is_digit (drop 2 s);
               n = undec num;
               r = drop (2 + length num) s
           in if take 1 r \<noteq> nl \<or> num = [] \<or> length r < n + 2 \<or> r ! (n + 1) \<noteq> CHR 0x0A then None
              else Some (take n (drop 1 r), drop (n + 2) r))"

definition read_prop :: "string \<Rightarrow> (string \<times> string \<times> string) option" where
  "read_prop s =
     (case read_item CHR ''K'' s of
        None \<Rightarrow> None
      | Some (k, s') \<Rightarrow> (case read_item CHR ''V'' s' of None \<Rightarrow> None | Some (v, s'') \<Rightarrow> Some (k, v, s'')))"

text \<open>The property hashes the storage is used with.\<close>

definition props_ok :: "props \<Rightarrow> bool" where
  "props_ok props \<longleftrightarrow> apr_hash_ok props \<and>
     (\<forall>(k, v) \<in> set props. is_cstr k \<and> k \<noteq> [] \<and> length k < 2 ^ 31 \<and> length v < 2 ^ 31)"

definition props_merge :: "props \<Rightarrow> props \<Rightarrow> props" where
  "props_merge acc props = fold (\<lambda>(k, v) h. apr_hash_set h k (Some v)) props acc"

text \<open>
  The invariant. \<open>nref\<close> counts the paths that refer to a reference. Every reference in the table
  is alive, carries the identifier it is filed under and counts at least the paths that use it;
  its data is in the database; every path and every candidate for collection refers to one in
  the table. \<open>D\<close> is the set of serialised property hashes the storage is used with.
\<close>

definition nref :: "(string \<Rightarrow> nat option) \<Rightarrow> nat \<Rightarrow> nat" where
  "nref E a = card {p. E p = Some a}"

definition refs_ok :: "(string \<Rightarrow> nat option) \<Rightarrow> (string \<Rightarrow> nat option) \<Rightarrow> (nat \<Rightarrow> prop_ref option) \<Rightarrow> nat \<Rightarrow> bool" where
  "refs_ok R E H n \<longleftrightarrow>
     (\<forall>i a. R i = Some a \<longrightarrow> (\<exists>r. H a = Some r \<and> ref_id r = i \<and> int (nref E a) \<le> ref_count r)) \<and>
     (\<forall>p a. E p = Some a \<longrightarrow> (\<exists>i. R i = Some a)) \<and>
     (\<forall>a. H a \<noteq> None \<longrightarrow> a < n)"

definition data_ok ::
  "codec \<Rightarrow> (string \<Rightarrow> string) \<Rightarrow> string set \<Rightarrow> (string \<Rightarrow> nat option) \<Rightarrow> (string \<Rightarrow> string option) \<Rightarrow> bool" where
  "data_ok cdc md5 D R m \<longleftrightarrow>
     (\<forall>i a. R i = Some a \<longrightarrow>
        (\<exists>props z. props_ok props \<and> prop_hash_serialize props \<in> D \<and> i = md5 (prop_hash_serialize props) \<and>
           m i = Some z \<and> uncompress cdc z = Some (prop_hash_serialize props)))"

definition gc_ok :: "(string \<Rightarrow> nat option) \<Rightarrow> nat apr_hash \<Rightarrow> bool" where
  "gc_ok R g \<longleftrightarrow> apr_hash_ok g \<and> (\<forall>(k, a) \<in> set g. \<exists>i. R i = Some a \<and> k = take 8 i)"

definition ps_inv :: "codec \<Rightarrow> (string \<Rightarrow> string) \<Rightarrow> string set \<Rightarrow> property_storage \<Rightarrow> bool" where
  "ps_inv cdc md5 D st \<longleftrightarrow>
     mukv_ok (store_db st) \<and> apr_hash_ok (entries st) \<and> apr_hash_ok (refs st) \<and>
     refs_ok (apr_hash_get (refs st)) (apr_hash_get (entries st)) (heap st) (fresh st) \<and>
     data_ok cdc md5 D (apr_hash_get (refs st)) (mukv_abs (store_db st)) \<and>
     gc_ok (apr_hash_get (refs st)) (gc st)"

text \<open>A reference whose counter has reached zero.\<close>

definition dead :: "(nat \<Rightarrow> prop_ref option) \<Rightarrow> nat \<Rightarrow> bool" where
  "dead H a \<longleftrightarrow> (\<exists>r. H a = Some r \<and> ref_count r \<le> 0)"

text \<open>The properties of a path, as the storage would load them into an empty hash.\<close>

definition ps_abs :: "codec \<Rightarrow> property_storage \<Rightarrow> string \<Rightarrow> props option" where
  "ps_abs cdc st path =
     (case apr_hash_get (entries st) path of
        None \<Rightarrow> None
      | Some a \<Rightarrow>
          (case heap st a of
             None \<Rightarrow> None
           | Some ref \<Rightarrow>
               (case mukv_abs (store_db st) (ref_id ref) of
                  None \<Rightarrow> None
                | Some z \<Rightarrow> (case uncompress cdc z of None \<Rightarrow> None | Some d \<Rightarrow> prop_hash_reconstruct [] d))))"

text \<open>
  The storages the operations reach, with the map from paths to properties they stand for. Every
  hash that is stored is well formed and its serialised form is in \<open>D\<close>.
\<close>

inductive ps_reach ::
  "codec \<Rightarrow> (string \<Rightarrow> string) \<Rightarrow> string set \<Rightarrow> property_storage \<Rightarrow> (string \<Rightarrow> props option) \<Rightarrow> bool"
  for cdc md5 D where
  create: "property_storage_create snappy_init fopen tmp = Some st \<Longrightarrow> seeks fopen \<Longrightarrow> ps_reach cdc md5 D st Map.empty"
| store: "ps_reach cdc md5 D st m \<Longrightarrow> props_ok props \<Longrightarrow> prop_hash_serialize props \<in> D \<Longrightarrow>
    property_store cdc md5 mem st path props = Some (0, st') \<Longrightarrow>
    ps_reach cdc md5 D st' (m(path := if props = [] then None else Some props))"
| load: "ps_reach cdc md5 D st m \<Longrightarrow> property_load cdc st path acc = Some (rc, props, st') \<Longrightarrow>
    ps_reach cdc md5 D st' (m(path := None))"
| delete: "ps_reach cdc md5 D st m \<Longrightarrow> property_delete st path = Some (rc, st') \<Longrightarrow>
    ps_reach cdc md5 D st' (m(path := None))"
| cleanup: "ps_reach cdc md5 D st m \<Longrightarrow> property_storage_cleanup st = Some (rc, st') \<Longrightarrow>
    ps_reach cdc md5 D st' m"

text \<open>Examples: a storage with one property hash, stored uncompressed under its own bytes.\<close>

definition demo_props :: props where
  "demo_props = [(''svn:eol-style'', ''LF''), (''x'', [nul, CHR ''y''])]"

definition demo_store0 :: "nat \<Rightarrow> property_storage" where
  "demo_store0 cap = the (property_storage_create True (disk cap) ''/tmp'')"

definition demo_put :: "property_storage \<Rightarrow> string \<Rightarrow> props \<Rightarrow> property_storage" where
  "demo_put st path props = snd (the (property_store codec_none (\<lambda>d. d) (\<lambda>_. True) st path props))"

section \<open>Printing and reading\<close>

lemma strlen_cstr [simp]: "is_cstr s \<Longrightarrow> strlen s = length s"
  by (simp add: strlen_def)

lemma property_strlen_dump: "property_strlen key val = length (property_dump key val)"
  by (cases key; cases val) (simp_all add: property_strlen_def property_dump_def)

lemma property_del_strlen_dump: "property_del_strlen key = length (property_del_dump key)"
  by (cases key) (simp_all add: property_del_strlen_def property_del_dump_def)

lemma takeWhile_digits: "takeWhile is_digit (dec_nat n @ CHR 0x0A # r) = dec_nat n"
  using dec_nat_digits by (subst takeWhile_append2) (auto simp: not_digit)

lemma read_item_ok:
  "length b = n \<Longrightarrow> read_item t (t # CHR '' '' # dec_nat n @ CHR 0x0A # b @ CHR 0x0A # rest) = Some (b, rest)"
  by (simp add: read_item_def Let_def takeWhile_digits undec_dec_nat nth_append dec_nat_nonempty)

lemma read_prop_dump:
  "read_prop (property_dump (Some k) val @ rest) = Some (cstr_of k, (case val of None \<Rightarrow> [] | Some v \<Rightarrow> cstr_of v), rest)"
proof (cases val)
  case None
  have "dec_nat 0 = ''0''" by code_simp
  then show ?thesis
    using None read_item_ok [of "cstr_of k" "strlen k" "CHR ''K''"] read_item_ok [of "[]" 0 "CHR ''V''" rest]
    by (simp add: read_prop_def property_dump_def strlen_def)
next
  case (Some v)
  then show ?thesis
    using read_item_ok [of "cstr_of k" "strlen k" "CHR ''K''"] read_item_ok [of "cstr_of v" "strlen v" "CHR ''V''" rest]
    by (simp add: read_prop_def property_dump_def strlen_def)
qed

section \<open>Serialisation\<close>

lemma length_put_int [simp]: "length (put_int i) = sizeof_int"
  by (simp add: put_int_def)

lemma get_put_int:
  assumes "0 \<le> i" "i < 2 ^ 31"
  shows "get_int (put_int i @ rest) = i"
proof -
  have b: "(of_char (char_of (nat (j mod 256)) :: char) :: int) = j mod 256" for j
    using of_nat_of_char [where ?'a = int, of "char_of (nat (j mod 256))", symmetric] by (simp add: zmod_int)
  have i: "i = i mod 256 + 256 * (i div 256 mod 256) + 65536 * (i div 65536 mod 256) + 16777216 * (i div 16777216 mod 256)"
  proof -
    have d: "i div 65536 = i div 256 div 256" "i div 16777216 = i div 256 div 256 div 256"
      by (simp_all flip: zdiv_zmult2_eq)
    have "i div 16777216 mod 256 = i div 16777216" using assms by simp
    then show ?thesis
      using mult_div_mod_eq [of 256 i] mult_div_mod_eq [of 256 "i div 256"]
        mult_div_mod_eq [of 256 "i div 256 div 256"] unfolding d by linarith
  qed
  have "(\<Sum>k \<leftarrow> [0 ..< sizeof_int]. (of_char ((put_int i @ rest) ! k) :: int) * 256 ^ k) =
      i mod 256 + 256 * (i div 256 mod 256) + 65536 * (i div 65536 mod 256) + 16777216 * (i div 16777216 mod 256)"
    by (simp add: put_int_def sizeof_int_def upt_rec b)
  also note i [symmetric]
  finally show ?thesis using assms by (simp add: get_int_def)
qed

lemma length_serialize: "length (prop_hash_serialize props) = prop_hash_len props"
  by (induction props) (auto simp: prop_hash_serialize_def prop_hash_len_def sizeof_int_def strlen_def)

lemma reconstruct_serialize:
  "(\<forall>(k, v) \<in> set props. is_cstr k \<and> k \<noteq> [] \<and> length k < 2 ^ 31 \<and> length v < 2 ^ 31) \<Longrightarrow>
     prop_hash_reconstruct acc (prop_hash_serialize props @ rest) = Some (props_merge acc props)"
proof (induction props arbitrary: acc)
  case Nil
  then show ?case
    using get_put_int [of 0 rest]
    by (subst prop_hash_reconstruct.simps) (simp add: prop_hash_serialize_def props_merge_def)
next
  case (Cons e props)
  obtain k v where e: "e = (k, v)" by fastforce
  let ?tl = "prop_hash_serialize props @ rest"
  let ?bs2 = "put_int (int (length v)) @ v @ ?tl"
  let ?bs = "put_int (int (length k)) @ k @ ?bs2"
  have kv: "is_cstr k" "k \<noteq> []" "int (length k) < 2 ^ 31" "int (length v) < 2 ^ 31" using Cons.prems e by auto
  have eq: "prop_hash_serialize (e # props) @ rest = ?bs"
    using kv by (simp add: e prop_hash_serialize_def)
  have g: "get_int ?bs = int (length k)" "get_int ?bs2 = int (length v)"
    using kv(3,4) by (simp_all only: get_put_int of_nat_0_le_iff)
  have "prop_hash_reconstruct acc ?bs = prop_hash_reconstruct (apr_hash_set acc k (Some v)) ?tl"
    using kv(1,2) g by (subst prop_hash_reconstruct.simps) (simp add: Let_def)
  then show ?case
    using Cons.IH Cons.prems unfolding eq by (simp add: e props_merge_def)
qed

lemma props_merge_new:
  "apr_hash_ok (acc @ props) \<Longrightarrow> props_merge acc props = acc @ props"
proof (induction props arbitrary: acc)
  case (Cons e props)
  obtain k v where e: "e = (k, v)" by fastforce
  have "k \<notin> set (map fst acc)" using Cons.prems e by (auto simp: apr_hash_ok_def)
  then have "apr_hash_set acc k (Some v) = acc @ [(k, v)]"
    by (induction acc) (auto simp: apr_hash_set_def)
  then show ?case using Cons.IH [of "acc @ [(k, v)]"] Cons.prems by (simp add: props_merge_def e)
qed (simp add: props_merge_def)

lemma props_roundtrip: "props_ok props \<Longrightarrow> prop_hash_reconstruct [] (prop_hash_serialize props) = Some props"
  using reconstruct_serialize [of props "[]" "[]"] props_merge_new [of "[]" props] by (simp add: props_ok_def)

section \<open>References\<close>

lemma finite_get: "finite {p. apr_hash_get h p = Some a}"
proof -
  have "{p. apr_hash_get h p = Some a} \<subseteq> fst ` set h"
    by (force simp: apr_hash_get_def dest: map_of_SomeD)
  then show ?thesis using finite_subset by blast
qed

lemma nref_unset:
  assumes "finite {q. E q = Some a}" "E p = Some a"
  shows "nref (E(p := None)) a = nref E a - 1" "0 < nref E a"
proof -
  have "{q. (E(p := None)) q = Some a} = {q. E q = Some a} - {p}" by auto
  then show "nref (E(p := None)) a = nref E a - 1" using assms by (simp add: nref_def)
  show "0 < nref E a" using assms by (auto simp: nref_def card_gt_0_iff)
qed

lemma nref_unset_le: "finite {q. E q = Some a} \<Longrightarrow> nref (E(p := None)) a \<le> nref E a"
  unfolding nref_def by (rule card_mono) auto

lemma nref_set:
  assumes "finite {q. E q = Some a}"
  shows "nref (E(p \<mapsto> b)) a \<le> nref E a + (if a = b then 1 else 0)"
proof (cases "a = b")
  case True
  then have "{q. (E(p \<mapsto> b)) q = Some a} \<subseteq> insert p {q. E q = Some a}" by auto
  then have "nref (E(p \<mapsto> b)) a \<le> card (insert p {q. E q = Some a})"
    unfolding nref_def using assms by (intro card_mono) auto
  also have "\<dots> \<le> nref E a + 1" unfolding nref_def using assms by (simp add: card_insert_if)
  finally show ?thesis using True by simp
next
  case False
  then have "{q. (E(p \<mapsto> b)) q = Some a} \<subseteq> {q. E q = Some a}" by auto
  then show ?thesis unfolding nref_def using assms False by (simp add: card_mono)
qed

lemma refs_okD:
  assumes "refs_ok R E H n" "R i = Some a"
  obtains r where "H a = Some r" "ref_id r = i" "int (nref E a) \<le> ref_count r"
  using assms unfolding refs_ok_def by blast

lemma refs_ok_inj: "refs_ok R E H n \<Longrightarrow> R i = Some a \<Longrightarrow> R j = Some a \<Longrightarrow> i = j"
  unfolding refs_ok_def by (metis option.inject)

lemma refs_ok_entry:
  assumes "refs_ok R E H n" "E p = Some a"
  obtains i r where "R i = Some a" "H a = Some r" "ref_id r = i" "int (nref E a) \<le> ref_count r"
  using assms unfolding refs_ok_def by metis

text \<open>A new reference at an unused address; nothing refers to it yet.\<close>

lemma refs_ok_new:
  assumes ok: "refs_ok R E H n" and new: "R i = None"
  shows "refs_ok (R(i \<mapsto> n)) E (H(n \<mapsto> \<lparr>ref_id = i, ref_count = 0\<rparr>)) (Suc n)"
proof -
  have alive: "a < n" if "R j = Some a" for j a
    using ok that unfolding refs_ok_def by (metis option.discI)
  then have "{p. E p = Some n} = {}" using ok unfolding refs_ok_def by blast
  then have "nref E n = 0" by (simp add: nref_def)
  moreover have "\<exists>r. (H(n \<mapsto> \<lparr>ref_id = i, ref_count = 0\<rparr>)) a = Some r \<and> ref_id r = j \<and> int (nref E a) \<le> ref_count r"
    if "R j = Some a" for j a
    using refs_okD [OF ok that] alive [OF that] by auto
  moreover have "\<exists>j. (R(i \<mapsto> n)) j = Some a" if "E p = Some a" for p a
    using ok that new unfolding refs_ok_def by (metis fun_upd_other option.distinct(1))
  ultimately show ?thesis
    using ok unfolding refs_ok_def by (auto simp: less_Suc_eq)
qed

text \<open>A path gets a reference: its counter goes up, the others do not matter more than before.\<close>

lemma refs_ok_bind:
  assumes ok: "refs_ok R E H n" and fin: "\<And>a. finite {q. E q = Some a}" and r: "R i = Some a" "H a = Some r"
  shows "refs_ok R (E(p \<mapsto> a)) (H(a \<mapsto> r\<lparr>ref_count := ref_count r + 1\<rparr>)) n"
proof -
  let ?H = "H(a \<mapsto> r\<lparr>ref_count := ref_count r + 1\<rparr>)"
  have "\<exists>s. ?H b = Some s \<and> ref_id s = j \<and> int (nref (E(p \<mapsto> a)) b) \<le> ref_count s" if Rj: "R j = Some b" for j b
  proof -
    obtain s where "H b = Some s" "ref_id s = j" "int (nref E b) \<le> ref_count s" by (rule refs_okD [OF ok Rj])
    then show ?thesis using r(2) nref_set [OF fin, where p = p and b = a and a = b] by (cases "b = a") simp_all
  qed
  moreover have "\<forall>b. ?H b \<noteq> None \<longrightarrow> b < n" using ok r(2) unfolding refs_ok_def by auto
  ultimately show ?thesis using ok r(1) unfolding refs_ok_def by auto
qed

lemma refs_ok_unbind:
  assumes ok: "refs_ok R E H n" and fin: "\<And>a. finite {q. E q = Some a}" and p: "E p = Some a" "H a = Some r"
  shows "refs_ok R (E(p := None)) (H(a \<mapsto> r\<lparr>ref_count := ref_count r - 1\<rparr>)) n"
proof -
  let ?H = "H(a \<mapsto> r\<lparr>ref_count := ref_count r - 1\<rparr>)"
  have "\<exists>s. ?H b = Some s \<and> ref_id s = j \<and> int (nref (E(p := None)) b) \<le> ref_count s" if Rj: "R j = Some b" for j b
  proof -
    obtain s where s: "H b = Some s" "ref_id s = j" "int (nref E b) \<le> ref_count s" by (rule refs_okD [OF ok Rj])
    show ?thesis
    proof (cases "b = a")
      case True
      then show ?thesis using s p(2) nref_unset [OF fin p(1)] by simp
    next
      case False
      then show ?thesis using s nref_unset_le [OF fin, where a = b and p = p] by simp
    qed
  qed
  moreover have "\<forall>b. ?H b \<noteq> None \<longrightarrow> b < n" using ok p(2) unfolding refs_ok_def by auto
  ultimately show ?thesis using ok unfolding refs_ok_def by auto
qed

text \<open>Clearing a path without touching the counter, as \<open>property_store\<close> does for an empty hash.\<close>

lemma refs_ok_forget:
  assumes ok: "refs_ok R E H n" and fin: "\<And>a. finite {q. E q = Some a}"
  shows "refs_ok R (E(p := None)) H n"
proof -
  have "\<exists>s. H b = Some s \<and> ref_id s = j \<and> int (nref (E(p := None)) b) \<le> ref_count s" if Rj: "R j = Some b" for j b
  proof -
    obtain s where "H b = Some s" "ref_id s = j" "int (nref E b) \<le> ref_count s" by (rule refs_okD [OF ok Rj])
    then show ?thesis using nref_unset_le [OF fin, where a = b and p = p] by simp
  qed
  then show ?thesis using ok unfolding refs_ok_def by auto
qed

section \<open>The operations refine a map from paths to properties\<close>

lemma ps_invE:
  assumes "ps_inv cdc md5 D st"
  obtains "mukv_ok (store_db st)" "apr_hash_ok (entries st)" "apr_hash_ok (refs st)"
    "refs_ok (apr_hash_get (refs st)) (apr_hash_get (entries st)) (heap st) (fresh st)"
    "data_ok cdc md5 D (apr_hash_get (refs st)) (mukv_abs (store_db st))"
    "gc_ok (apr_hash_get (refs st)) (gc st)"
  using assms by (simp add: ps_inv_def)

lemma ps_inv_refs:
  "ps_inv cdc md5 D st \<Longrightarrow> refs_ok (apr_hash_get (refs st)) (apr_hash_get (entries st)) (heap st) (fresh st)"
  by (simp add: ps_inv_def)

text \<open>What is stored under the identifier of a property hash is that property hash.\<close>

lemma data_ok_props:
  assumes "data_ok cdc md5 D R m" "R i = Some a" "inj_on md5 D" "props_ok props" "prop_hash_serialize props \<in> D"
    "i = md5 (prop_hash_serialize props)"
  obtains z where "m i = Some z" "uncompress cdc z = Some (prop_hash_serialize props)"
proof -
  obtain p z where p: "prop_hash_serialize p \<in> D" "i = md5 (prop_hash_serialize p)" "m i = Some z"
    "uncompress cdc z = Some (prop_hash_serialize p)"
    using assms(1,2) unfolding data_ok_def by blast
  then have "prop_hash_serialize p = prop_hash_serialize props" using assms(3,5,6) by (metis inj_onD)
  then show thesis using that p(3,4) by simp
qed

lemma ps_abs_entry:
  assumes inv: "ps_inv cdc md5 D st" and p: "apr_hash_get (entries st) path = Some a"
  obtains r props z where "heap st a = Some r" "apr_hash_get (refs st) (ref_id r) = Some a" "props_ok props"
    "mukv_abs (store_db st) (ref_id r) = Some z" "uncompress cdc z = Some (prop_hash_serialize props)"
    "ps_abs cdc st path = Some props"
proof -
  obtain r where r: "heap st a = Some r" "apr_hash_get (refs st) (ref_id r) = Some a"
    using inv p by (auto simp: ps_inv_def elim!: refs_ok_entry)
  moreover obtain props z where "props_ok props" "mukv_abs (store_db st) (ref_id r) = Some z"
    "uncompress cdc z = Some (prop_hash_serialize props)"
    using inv r(2) unfolding ps_inv_def data_ok_def by blast
  ultimately show thesis using that p by (simp add: ps_abs_def props_roundtrip)
qed

lemma ps_abs_none: "apr_hash_get (entries st) path = None \<Longrightarrow> ps_abs cdc st path = None"
  by (simp add: ps_abs_def)

lemma gc_ok_Nil [simp]: "gc_ok R []"
  by (simp add: gc_ok_def apr_hash_ok_def)

lemma ps_abs_gc [simp]: "ps_abs cdc (st\<lparr>gc := g\<rparr>) = ps_abs cdc st"
  by (simp add: ps_abs_def [abs_def] cong: option.case_cong)

lemma gc_ok_mono: "gc_ok R g \<Longrightarrow> (\<And>i a. R i = Some a \<Longrightarrow> R' i = Some a) \<Longrightarrow> gc_ok R' g"
  unfolding gc_ok_def by fastforce

lemma prop_new_ref:
  assumes inv: "ps_inv cdc md5 D st" and new: "apr_hash_get (refs st) (md5 (prop_hash_serialize props)) = None"
    and kv: "mukv_store (store_db st) (md5 (prop_hash_serialize props)) z = (rc, kv)"
    and props: "props_ok props" "prop_hash_serialize props \<in> D" "uncompress cdc z = Some (prop_hash_serialize props)"
  defines "i \<equiv> md5 (prop_hash_serialize props)"
  defines "st' \<equiv> st\<lparr>refs := apr_hash_set (refs st) i (Some (fresh st)),
      heap := (heap st)(fresh st \<mapsto> \<lparr>ref_id = i, ref_count = 0\<rparr>), fresh := Suc (fresh st), store_db := kv\<rparr>"
  shows "ps_abs cdc st' = ps_abs cdc st" "rc = 0 \<Longrightarrow> ps_inv cdc md5 D st'"
    "apr_hash_get (refs st') i = Some (fresh st)"
proof -
  obtain ok: "mukv_ok (store_db st)" "apr_hash_ok (entries st)" "apr_hash_ok (refs st)"
    and refs: "refs_ok (apr_hash_get (refs st)) (apr_hash_get (entries st)) (heap st) (fresh st)"
    and data: "data_ok cdc md5 D (apr_hash_get (refs st)) (mukv_abs (store_db st))"
    and gc: "gc_ok (apr_hash_get (refs st)) (gc st)" by (rule ps_invE [OF inv])
  have R: "apr_hash_get (refs st') = (apr_hash_get (refs st))(i \<mapsto> fresh st)"
    using ok(3) by (simp add: st'_def apr.get_put_fun)
  then show "apr_hash_get (refs st') i = Some (fresh st)" by simp
  have m: "mukv_abs kv j = mukv_abs (store_db st) j" if "j \<noteq> i" for j
    using that kv kv.abs_store [OF ok(1), of i z] kv.abs_store_fail [OF ok(1), of i z]
    by (cases "rc = 0") (auto simp: i_def)
  show "ps_abs cdc st' = ps_abs cdc st"
  proof
    fix p
    show "ps_abs cdc st' p = ps_abs cdc st p"
    proof (cases "apr_hash_get (entries st) p")
      case (Some a)
      then obtain r where r: "heap st a = Some r" "apr_hash_get (refs st) (ref_id r) = Some a"
        by (rule ps_abs_entry [OF inv])
      then have "a < fresh st" using refs unfolding refs_ok_def by blast
      moreover have "ref_id r \<noteq> i" using r(2) new by (auto simp: i_def)
      ultimately show ?thesis using Some r(1) m [of "ref_id r"] by (simp add: ps_abs_def st'_def)
    qed (simp add: ps_abs_def st'_def)
  qed
  assume rc: "rc = 0"
  then have mi: "mukv_abs kv = (mukv_abs (store_db st))(i \<mapsto> z)"
    using kv.abs_store [OF ok(1), of i z] kv by (simp add: i_def)
  have "data_ok cdc md5 D ((apr_hash_get (refs st))(i \<mapsto> fresh st)) (mukv_abs kv)"
    using data props unfolding data_ok_def mi by (auto simp: i_def)
  moreover have "mukv_ok kv" using kv.ok_store [OF ok(1), of i z] kv by (simp add: i_def)
  moreover have "gc_ok ((apr_hash_get (refs st))(i \<mapsto> fresh st)) (gc st)"
    using new by (intro gc_ok_mono [OF gc]) (auto simp: i_def)
  ultimately show "ps_inv cdc md5 D st'"
    unfolding ps_inv_def R using ok refs_ok_new [OF refs new] by (simp add: st'_def i_def apr.ok_put)
qed

text \<open>Getting the reference: the invariant holds when it succeeds, and no path sees a difference.\<close>

lemma prop_get_ref_spec:
  assumes inv: "ps_inv cdc md5 D st" and cdc: "codec_ok cdc D"
    and props: "props_ok props" "prop_hash_serialize props \<in> D"
    and eq: "prop_get_ref cdc mem st (md5 (prop_hash_serialize props)) (prop_hash_serialize props) = (res, st')"
  shows "ps_abs cdc st' = ps_abs cdc st \<and> entries st' = entries st \<and>
    (\<forall>a. res = Some a \<longrightarrow> ps_inv cdc md5 D st' \<and> apr_hash_get (refs st') (md5 (prop_hash_serialize props)) = Some a)"
proof -
  let ?d = "prop_hash_serialize props"
  let ?i = "md5 ?d"
  show ?thesis
  proof (cases "apr_hash_get (refs st) ?i")
    case (Some a)
    then show ?thesis using eq inv by (auto simp: prop_get_ref_def)
  next
    case None
    show ?thesis
    proof (cases "mem 0")
      case False
      then show ?thesis using eq inv None by (auto simp: prop_get_ref_def)
    next
      case True
      obtain z where z: "compress cdc ?d = Some z" "uncompress cdc z = Some ?d"
        using cdc props(2) unfolding codec_ok_def by blast
      obtain rc kv where kv: "mukv_store (store_db st) ?i z = (rc, kv)" by fastforce
      let ?n = "fresh st"
      have st': "st' = st\<lparr>refs := apr_hash_set (refs st) ?i (Some ?n),
          heap := (heap st)(?n \<mapsto> \<lparr>ref_id = ?i, ref_count = 0\<rparr>), fresh := Suc ?n, store_db := kv\<rparr>"
        and res: "res = (if rc \<noteq> 0 then None else Some ?n)"
        using eq None True z(1) kv by (auto simp: prop_get_ref_def Let_def)
      show ?thesis
        using prop_new_ref [OF inv None kv props z(2)] unfolding st' res by simp
    qed
  qed
qed

text \<open>Binding a path to a reference of the table, the end of \<open>property_store\<close>.\<close>

lemma ps_inv_bind:
  fixes path :: string
  assumes inv: "ps_inv cdc md5 D st" and R: "apr_hash_get (refs st) i = Some a" and H: "heap st a = Some r"
  defines "st' \<equiv> st\<lparr>heap := (heap st)(a \<mapsto> r\<lparr>ref_count := ref_count r + 1\<rparr>),
      entries := apr_hash_set (entries st) path (Some a)\<rparr>"
  shows "ps_inv cdc md5 D st'"
    and "q \<noteq> path \<Longrightarrow> ps_abs cdc st' q = ps_abs cdc st q"
    and "ps_abs cdc st' path = (case mukv_abs (store_db st) (ref_id r) of None \<Rightarrow> None
      | Some z \<Rightarrow> (case uncompress cdc z of None \<Rightarrow> None | Some d \<Rightarrow> prop_hash_reconstruct [] d))"
proof -
  have ok: "apr_hash_ok (entries st)" using inv by (simp add: ps_inv_def)
  then have E: "apr_hash_get (entries st') = (apr_hash_get (entries st))(path \<mapsto> a)"
    by (simp add: st'_def apr.get_put_fun)
  have "refs_ok (apr_hash_get (refs st)) ((apr_hash_get (entries st))(path \<mapsto> a)) (heap st') (fresh st)"
    using refs_ok_bind [OF ps_inv_refs [OF inv] finite_get R H] by (simp add: st'_def)
  then show "ps_inv cdc md5 D st'"
    using inv ok unfolding ps_inv_def E by (simp add: st'_def apr.ok_put)
  show "ps_abs cdc st' q = ps_abs cdc st q" if "q \<noteq> path"
    using that H unfolding ps_abs_def E by (auto simp: st'_def split: option.split)
  show "ps_abs cdc st' path = (case mukv_abs (store_db st) (ref_id r) of None \<Rightarrow> None
      | Some z \<Rightarrow> (case uncompress cdc z of None \<Rightarrow> None | Some d \<Rightarrow> prop_hash_reconstruct [] d))"
    unfolding ps_abs_def E by (simp add: st'_def)
qed

lemma ps_inv_forget:
  assumes inv: "ps_inv cdc md5 D st"
  shows "ps_inv cdc md5 D (st\<lparr>entries := apr_hash_set (entries st) path None\<rparr>)"
    and "ps_abs cdc (st\<lparr>entries := apr_hash_set (entries st) path None\<rparr>) = (ps_abs cdc st)(path := None)"
proof -
  have ok: "apr_hash_ok (entries st)" using inv by (simp add: ps_inv_def)
  then show "ps_inv cdc md5 D (st\<lparr>entries := apr_hash_set (entries st) path None\<rparr>)"
    using inv refs_ok_forget [OF ps_inv_refs [OF inv] finite_get]
    by (simp add: ps_inv_def apr.ok_put apr.get_put_fun)
  show "ps_abs cdc (st\<lparr>entries := apr_hash_set (entries st) path None\<rparr>) = (ps_abs cdc st)(path := None)"
    using ok by (auto simp: fun_eq_iff ps_abs_def apr.get_put split: option.split)
qed

lemma property_store_spec:
  assumes inv: "ps_inv cdc md5 D st" and cdc: "codec_ok cdc D" and inj: "inj_on md5 D"
    and props: "props_ok props" "prop_hash_serialize props \<in> D"
  obtains rc st' where "property_store cdc md5 mem st path props = Some (rc, st')"
    "rc = 0 \<Longrightarrow> ps_inv cdc md5 D st'"
    "rc = 0 \<Longrightarrow> ps_abs cdc st' = (ps_abs cdc st)(path := if props = [] then None else Some props)"
    "rc \<noteq> 0 \<Longrightarrow> ps_abs cdc st' = ps_abs cdc st"
proof (cases "props = []")
  case True
  then show thesis using that ps_inv_forget [OF inv, of path] by (simp add: property_store_def)
next
  case False
  let ?d = "prop_hash_serialize props"
  obtain res st1 where eq: "prop_get_ref cdc mem st (md5 ?d) ?d = (res, st1)" by fastforce
  note ref = prop_get_ref_spec [OF inv cdc props eq]
  show thesis
  proof (cases res)
    case None
    then show thesis using that False eq ref by (simp add: property_store_def Let_def)
  next
    case (Some a)
    then have inv1: "ps_inv cdc md5 D st1" and R1: "apr_hash_get (refs st1) (md5 ?d) = Some a" using ref by auto
    obtain r where r: "heap st1 a = Some r" "ref_id r = md5 ?d"
      using inv1 R1 by (auto simp: ps_inv_def elim!: refs_okD)
    let ?st = "st1\<lparr>heap := (heap st1)(a \<mapsto> r\<lparr>ref_count := ref_count r + 1\<rparr>),
      entries := apr_hash_set (entries st1) path (Some a)\<rparr>"
    have data: "data_ok cdc md5 D (apr_hash_get (refs st1)) (mukv_abs (store_db st1))"
      using inv1 by (simp add: ps_inv_def)
    obtain z where z: "mukv_abs (store_db st1) (md5 ?d) = Some z" "uncompress cdc z = Some ?d"
      by (rule data_ok_props [OF data R1 inj props refl])
    have "ps_abs cdc ?st path = Some props"
      using ps_inv_bind(3) [OF inv1 R1 r(1), of path] r(2) z props_roundtrip [OF props(1)] by simp
    then have abs: "ps_abs cdc ?st = (ps_abs cdc st)(path \<mapsto> props)"
      using ps_inv_bind(2) [OF inv1 R1 r(1), of _ path] ref by (auto simp: fun_eq_iff)
    show thesis
    proof (cases "apr_hash_get (entries st) path = None \<and> (\<not> mem 1 \<or> \<not> mem 2)")
      case True
      then show thesis using that [of "-1" st1] False eq ref Some by (auto simp: property_store_def Let_def)
    next
      case ok: False
      then have "property_store cdc md5 mem st path props = Some (0, ?st)"
        using False eq Some r(1) by (auto simp: property_store_def Let_def)
      then show thesis using that [of 0 ?st] False ps_inv_bind(1) [OF inv1 R1 r(1), of path] abs by auto
    qed
  qed
qed

lemma ps_inv_unref:
  assumes inv: "ps_inv cdc md5 D st" and E: "apr_hash_get (entries st) path = Some a" and H: "heap st a = Some r"
  shows "ps_inv cdc md5 D (prop_unref st path a r)"
    and "ps_abs cdc (prop_unref st path a r) = (ps_abs cdc st)(path := None)"
proof -
  let ?r = "r\<lparr>ref_count := ref_count r - 1\<rparr>"
  let ?st = "st\<lparr>entries := apr_hash_set (entries st) path None, heap := (heap st)(a \<mapsto> ?r)\<rparr>"
  have ok: "apr_hash_ok (entries st)" and gc: "gc_ok (apr_hash_get (refs st)) (gc st)"
    using inv by (simp_all add: ps_inv_def)
  have inv1: "ps_inv cdc md5 D ?st"
    using inv ok refs_ok_unbind [OF ps_inv_refs [OF inv] finite_get E H]
    by (simp add: ps_inv_def apr.ok_put apr.get_put_fun)
  obtain i where i: "apr_hash_get (refs st) i = Some a" "ref_id r = i"
    by (rule refs_ok_entry [OF ps_inv_refs [OF inv] E]) (use H in simp)
  have "gc_ok (apr_hash_get (refs st)) (apr_hash_set (gc st) (take 8 i) (Some a))"
    using gc i set_apr_hash_put [of "gc st" "take 8 i" a]
    unfolding gc_ok_def by (fastforce simp: apr_hash_set_def apr_hash_put_ok)
  then have "ps_inv cdc md5 D (?st\<lparr>gc := apr_hash_set (gc st) (gc_key ?r) (Some a)\<rparr>)"
    using inv1 i by (simp add: ps_inv_def gc_key_def)
  then show "ps_inv cdc md5 D (prop_unref st path a r)"
    using inv1 by (simp add: prop_unref_def Let_def)
  show "ps_abs cdc (prop_unref st path a r) = (ps_abs cdc st)(path := None)"
    using ok H by (auto simp: fun_eq_iff prop_unref_def Let_def ps_abs_def apr.get_put split: option.split)
qed

lemma mukv_store_room:
  "mukv_ok kv \<Longrightarrow> length v \<le> fcap (kvfile kv) - length (fdata (kvfile kv)) \<Longrightarrow> fst (mukv_store kv k v) = 0"
  by (simp add: mukv_store_eq Let_def)

lemma property_store_room:
  assumes "property_store cdc md5 mem st path props = Some (rc, st')" "codec_ok cdc D" "\<forall>k. mem k"
    "prop_hash_serialize props \<in> D"
    "\<forall>z. compress cdc (prop_hash_serialize props) = Some z \<longrightarrow>
       length z \<le> fcap (kvfile (store_db st)) - length (fdata (kvfile (store_db st)))"
    and ok: "mukv_ok (store_db st)"
  shows "rc = 0"
proof (cases "props = []")
  case True
  then show ?thesis using assms(1) by (simp add: property_store_def)
next
  case False
  let ?d = "prop_hash_serialize props"
  obtain z where z: "compress cdc ?d = Some z" using assms(2,4) unfolding codec_ok_def by blast
  then have "fst (mukv_store (store_db st) (md5 ?d) z) = 0" using assms(5) ok by (intro mukv_store_room) simp_all
  then have "fst (prop_get_ref cdc mem st (md5 ?d) ?d) \<noteq> None"
    using z assms(3) by (auto simp: prop_get_ref_def Let_def split: option.splits prod.splits)
  then show ?thesis
    using assms(1,3) False by (auto simp: property_store_def Let_def split: prod.splits option.splits)
qed

lemma property_load_spec:
  assumes inv: "ps_inv cdc md5 D st"
  obtains st' where
    "property_load cdc st path acc =
       Some (0, (case ps_abs cdc st path of None \<Rightarrow> acc | Some props \<Rightarrow> props_merge acc props), st')"
    "ps_inv cdc md5 D st'" "ps_abs cdc st' = (ps_abs cdc st)(path := None)"
proof (cases "apr_hash_get (entries st) path")
  case None
  then have "ps_abs cdc st path = None" by (rule ps_abs_none)
  then show thesis using that [of st] None inv by (simp add: property_load_def fun_upd_idem)
next
  case (Some a)
  then obtain r props z where r: "heap st a = Some r" "props_ok props"
    "mukv_abs (store_db st) (ref_id r) = Some z" "uncompress cdc z = Some (prop_hash_serialize props)"
    "ps_abs cdc st path = Some props"
    by (rule ps_abs_entry [OF inv])
  have mok: "mukv_ok (store_db st)" using inv by (simp add: ps_inv_def)
  obtain kv where kv: "mukv_fetch (store_db st) (ref_id r) = (Some z, kv)"
    using kv.fetch_val [OF mok, of "ref_id r"] r(3) by (cases "mukv_fetch (store_db st) (ref_id r)") simp
  have kv': "mukv_ok kv" "mukv_abs kv = mukv_abs (store_db st)"
    using kv.ok_fetch [OF mok, of "ref_id r"] kv.abs_fetch [OF mok, of "ref_id r"] kv by simp_all
  let ?st = "st\<lparr>store_db := kv\<rparr>"
  have inv1: "ps_inv cdc md5 D ?st" and abs1: "ps_abs cdc ?st = ps_abs cdc st"
    using inv kv' by (simp_all add: ps_inv_def ps_abs_def [abs_def] cong: option.case_cong)
  have "prop_hash_reconstruct acc (prop_hash_serialize props) = Some (props_merge acc props)"
    using reconstruct_serialize [of props acc "[]"] r(2) by (simp add: props_ok_def)
  then have "property_load cdc st path acc = Some (0, props_merge acc props, prop_unref ?st path a r)"
    using Some r kv by (simp add: property_load_def)
  then show thesis
    using that ps_inv_unref [OF inv1, of path a r] Some r(1,5) abs1 by simp
qed

lemma property_delete_spec:
  assumes inv: "ps_inv cdc md5 D st"
  obtains st' where "property_delete st path = Some (0, st')"
    "ps_inv cdc md5 D st'" "ps_abs cdc st' = (ps_abs cdc st)(path := None)"
proof (cases "apr_hash_get (entries st) path")
  case None
  then have "ps_abs cdc st path = None" by (rule ps_abs_none)
  then show thesis using that [of st] None inv by (simp add: property_delete_def fun_upd_idem)
next
  case (Some a)
  then obtain r where "heap st a = Some r" by (rule ps_abs_entry [OF inv])
  then show thesis using that ps_inv_unref [OF inv Some] Some by (simp add: property_delete_def)
qed

section \<open>Cleanup\<close>

text \<open>Dropping a reference that no path uses.\<close>

lemma refs_ok_drop:
  assumes ok: "refs_ok R E H n" and fin: "finite {q. E q = Some a}" and R: "R i = Some a"
    and H: "H a = Some r" "ref_count r \<le> 0"
  shows "refs_ok (R(i := None)) E H n"
proof -
  obtain s where "H a = Some s" "int (nref E a) \<le> ref_count s" by (rule refs_okD [OF ok R])
  then have "card {q. E q = Some a} = 0" using H by (simp add: nref_def)
  then have "{q. E q = Some a} = {}" using fin by simp
  then have unused: "E p \<noteq> Some a" for p by blast
  have "\<exists>j. (R(i := None)) j = Some b" if "E p = Some b" for p b
  proof -
    obtain j where "R j = Some b" using ok \<open>E p = Some b\<close> unfolding refs_ok_def by blast
    moreover have "b \<noteq> a" using unused \<open>E p = Some b\<close> by auto
    ultimately show ?thesis using R by (intro exI [of _ j]) auto
  qed
  then show ?thesis using ok unfolding refs_ok_def by auto
qed

text \<open>One collected reference.\<close>

lemma ps_inv_collect:
  assumes inv: "ps_inv cdc md5 D st" and "gc st = []" and R: "apr_hash_get (refs st) i = Some a"
    and H: "heap st a = Some r" "ref_count r \<le> 0"
  defines "st' \<equiv> st\<lparr>refs := apr_hash_set (refs st) i None, store_db := snd (mukv_delete (store_db st) i)\<rparr>"
  shows "ps_inv cdc md5 D st'" "ps_abs cdc st' = ps_abs cdc st"
    "apr_hash_get (refs st') = (apr_hash_get (refs st))(i := None)"
    "mukv_abs (store_db st') = (mukv_abs (store_db st))(i := None)"
proof -
  obtain ok: "mukv_ok (store_db st)" "apr_hash_ok (entries st)" "apr_hash_ok (refs st)"
    and refs: "refs_ok (apr_hash_get (refs st)) (apr_hash_get (entries st)) (heap st) (fresh st)"
    and data: "data_ok cdc md5 D (apr_hash_get (refs st)) (mukv_abs (store_db st))" by (rule ps_invE [OF inv])
  show R': "apr_hash_get (refs st') = (apr_hash_get (refs st))(i := None)"
    using ok(3) by (simp add: st'_def apr.get_put_fun)
  show m': "mukv_abs (store_db st') = (mukv_abs (store_db st))(i := None)"
    using kv.abs_del [OF ok(1)] by (simp add: st'_def)
  have refs': "refs_ok ((apr_hash_get (refs st))(i := None)) (apr_hash_get (entries st)) (heap st) (fresh st)"
    by (rule refs_ok_drop [OF refs finite_get R H])
  have "data_ok cdc md5 D ((apr_hash_get (refs st))(i := None)) ((mukv_abs (store_db st))(i := None))"
    using data unfolding data_ok_def by auto
  then show inv': "ps_inv cdc md5 D st'"
    unfolding ps_inv_def R' m' using ok refs' kv.ok_del [OF ok(1)] \<open>gc st = []\<close>
    by (simp add: st'_def apr.ok_put)
  show "ps_abs cdc st' = ps_abs cdc st"
  proof
    fix p
    show "ps_abs cdc st' p = ps_abs cdc st p"
    proof (cases "apr_hash_get (entries st) p")
      case (Some b)
      then have "apr_hash_get (entries st') p = Some b" by (simp add: st'_def)
      then obtain s where "heap st' b = Some s" "apr_hash_get (refs st') (ref_id s) = Some b"
        by (rule ps_abs_entry [OF inv'])
      then have "ref_id s \<noteq> i" "heap st b = Some s" using R' by (auto simp: st'_def)
      then show ?thesis using Some m' by (simp add: ps_abs_def st'_def)
    qed (simp add: ps_abs_def st'_def)
  qed
qed

lemma prop_gc_loop_spec:
  assumes "ps_inv cdc md5 D (st\<lparr>gc := []\<rparr>)" "distinct as" "\<forall>a \<in> set as. \<exists>i. apr_hash_get (refs st) i = Some a"
  shows "\<exists>st'. prop_gc_loop as st tofree =
      Some (0, tofree @ filter (dead (heap st)) as, st') \<and>
    ps_inv cdc md5 D (st'\<lparr>gc := []\<rparr>) \<and> ps_abs cdc st' = ps_abs cdc st \<and>
    heap st' = heap st \<and> entries st' = entries st \<and> fresh st' = fresh st \<and>
    (\<forall>i a. apr_hash_get (refs st') i = Some a \<longleftrightarrow>
       apr_hash_get (refs st) i = Some a \<and> \<not> (a \<in> set as \<and> dead (heap st) a))"
  using assms
proof (induction as arbitrary: st tofree)
  case (Cons a as)
  have refs: "refs_ok (apr_hash_get (refs st)) (apr_hash_get (entries st)) (heap st) (fresh st)"
    using ps_inv_refs [OF Cons.prems(1)] by simp
  obtain i where i: "apr_hash_get (refs st) i = Some a" using Cons.prems(3) by auto
  obtain r where r: "heap st a = Some r" "ref_id r = i" by (rule refs_okD [OF refs i])
  show ?case
  proof (cases "ref_count r \<le> 0")
    case False
    then have "\<not> dead (heap st) a" using r(1) by (simp add: dead_def)
    then have "\<forall>b. (b \<in> set (a # as) \<and> dead (heap st) b) = (b \<in> set as \<and> dead (heap st) b)" by auto
    moreover have "prop_gc_loop (a # as) st tofree = prop_gc_loop as st tofree" using r(1) False by simp
    ultimately show ?thesis
      using Cons.IH [of st tofree] Cons.prems \<open>\<not> dead (heap st) a\<close> by simp
  next
    case True
    then have dead: "dead (heap st) a" using r(1) by (simp add: dead_def)
    let ?st = "st\<lparr>refs := apr_hash_set (refs st) i None, store_db := snd (mukv_delete (store_db st) i)\<rparr>"
    have comm: "st\<lparr>gc := [], refs := apr_hash_set (refs st) i None, store_db := snd (mukv_delete (store_db st) i)\<rparr> =
        ?st\<lparr>gc := []\<rparr>" by (cases st) simp
    have c: "ps_inv cdc md5 D (?st\<lparr>gc := []\<rparr>)" "ps_abs cdc ?st = ps_abs cdc st"
      "apr_hash_get (refs ?st) = (apr_hash_get (refs st))(i := None)"
      using ps_inv_collect [OF Cons.prems(1), of i a r] i r(1) True ps_abs_gc [where st = ?st] comm by simp_all
    have other: "apr_hash_get (refs st) j = Some a \<Longrightarrow> j = i" for j using refs_ok_inj [OF refs _ i] by blast
    have step: "prop_gc_loop (a # as) st tofree = prop_gc_loop as ?st (tofree @ [a])"
      using r True kv.del_status [of "store_db st" i] Cons.prems(1)
      by (auto simp: Let_def ps_inv_def split: prod.split)
    have d: "distinct as" using Cons.prems(2) by simp
    have all: "\<forall>b \<in> set as. \<exists>j. apr_hash_get (refs ?st) j = Some b"
    proof
      fix b assume b: "b \<in> set as"
      then obtain j where j: "apr_hash_get (refs st) j = Some b" using Cons.prems(3) by auto
      have "b \<noteq> a" using b Cons.prems(2) by auto
      then have "j \<noteq> i" using i j by auto
      then show "\<exists>j. apr_hash_get (refs ?st) j = Some b" using j c(3) by auto
    qed
    obtain st' where IH: "prop_gc_loop as ?st (tofree @ [a]) =
        Some (0, (tofree @ [a]) @ filter (dead (heap ?st)) as, st')"
      "ps_inv cdc md5 D (st'\<lparr>gc := []\<rparr>)" "ps_abs cdc st' = ps_abs cdc ?st"
      "heap st' = heap ?st" "entries st' = entries ?st" "fresh st' = fresh ?st"
      "\<forall>i a. apr_hash_get (refs st') i = Some a \<longleftrightarrow>
         apr_hash_get (refs ?st) i = Some a \<and> \<not> (a \<in> set as \<and> dead (heap ?st) a)"
      using Cons.IH [OF c(1) d all, of "tofree @ [a]"] by (elim exE conjE) (rule that)
    have "\<forall>j b. apr_hash_get (refs st') j = Some b \<longleftrightarrow>
       apr_hash_get (refs st) j = Some b \<and> \<not> (b \<in> set (a # as) \<and> dead (heap st) b)"
    proof (intro allI)
      fix j b
      have "apr_hash_get (refs st') j = Some b \<longleftrightarrow>
          (j \<noteq> i \<and> apr_hash_get (refs st) j = Some b) \<and> \<not> (b \<in> set as \<and> dead (heap st) b)"
        using IH(7) c(3) by simp
      moreover have "j \<noteq> i \<and> apr_hash_get (refs st) j = Some b \<longleftrightarrow> apr_hash_get (refs st) j = Some b \<and> b \<noteq> a"
        using i other [of j] by (metis option.inject)
      ultimately show "apr_hash_get (refs st') j = Some b \<longleftrightarrow>
          apr_hash_get (refs st) j = Some b \<and> \<not> (b \<in> set (a # as) \<and> dead (heap st) b)"
        using dead by auto
    qed
    then show ?thesis using step IH c(2) dead by simp
  qed
qed simp

text \<open>The collected references without users, and what collecting them does to the database.\<close>

definition collected :: "property_storage \<Rightarrow> nat set" where
  "collected st = {a \<in> snd ` set (gc st). dead (heap st) a}"

lemma prop_gc_loop_db:
  assumes "prop_gc_loop as st tofree = Some (0, tofree', st')" "mukv_ok (store_db st)"
  shows "mukv_abs (store_db st') i =
    (if \<exists>a \<in> set as. \<exists>r. heap st a = Some r \<and> ref_count r \<le> 0 \<and> ref_id r = i then None else mukv_abs (store_db st) i)"
  using assms
proof (induction as arbitrary: st tofree)
  case (Cons a as)
  obtain r where r: "heap st a = Some r" using Cons.prems(1) by (auto split: option.splits)
  show ?case
  proof (cases "ref_count r \<le> 0")
    case True
    let ?st = "st\<lparr>refs := apr_hash_set (refs st) (ref_id r) None, store_db := snd (mukv_delete (store_db st) (ref_id r))\<rparr>"
    have "prop_gc_loop as ?st (tofree @ [a]) = Some (0, tofree', st')"
      using Cons.prems(1) r True by (auto simp: Let_def split: prod.splits if_splits)
    from Cons.IH [OF this] have "mukv_abs (store_db st') i =
      (if \<exists>a \<in> set as. \<exists>r. heap st a = Some r \<and> ref_count r \<le> 0 \<and> ref_id r = i then None else mukv_abs (store_db ?st) i)"
      using kv.ok_del [OF Cons.prems(2)] by simp
    then show ?thesis using r True kv.abs_del [OF Cons.prems(2), of "ref_id r"] by auto
  next
    case False
    then show ?thesis using Cons r by auto
  qed
qed simp

lemma gc_ok_distinct:
  assumes "gc_ok R g" "\<And>i j a. R i = Some a \<Longrightarrow> R j = Some a \<Longrightarrow> i = j"
  shows "distinct (map snd g)"
proof -
  have "inj_on snd (set g)"
  proof (rule inj_onI)
    fix x y assume "x \<in> set g" "y \<in> set g" "snd x = snd y"
    moreover have "\<exists>i. R i = Some (snd z) \<and> fst z = take 8 i" if "z \<in> set g" for z
      using assms(1) that unfolding gc_ok_def by (cases z) fastforce
    ultimately obtain i j where "R i = Some (snd x)" "fst x = take 8 i" "R j = Some (snd x)" "fst y = take 8 j"
      by metis
    then show "x = y" using assms(2) [of i "snd x" j] \<open>snd x = snd y\<close> by (simp add: prod_eq_iff)
  qed
  moreover have "distinct g" using assms(1) by (simp add: gc_ok_def apr_hash_ok_def distinct_map)
  ultimately show ?thesis by (simp add: distinct_map)
qed

text \<open>Freeing references that are not in the table.\<close>

lemma refs_ok_free:
  assumes "refs_ok R E H n" "\<And>i a. R i = Some a \<Longrightarrow> a \<notin> F"
  shows "refs_ok R E (\<lambda>a. if a \<in> F then None else H a) n"
proof -
  have "\<exists>r. (if a \<in> F then None else H a) = Some r \<and> ref_id r = i \<and> int (nref E a) \<le> ref_count r"
    if "R i = Some a" for i a
    using assms(2) [OF that] by (rule_tac refs_okD [OF assms(1) that]) auto
  then show ?thesis using assms(1) unfolding refs_ok_def by auto
qed

lemma property_storage_cleanup_spec:
  assumes inv: "ps_inv cdc md5 D st"
  obtains st' where "property_storage_cleanup st = Some (0, st')" "ps_inv cdc md5 D st'" "gc st' = []"
    "ps_abs cdc st' = ps_abs cdc st" "entries st' = entries st"
    "\<And>i a. apr_hash_get (refs st') i = Some a \<longleftrightarrow> apr_hash_get (refs st) i = Some a \<and> a \<notin> collected st"
    "\<And>a. heap st' a = (if a \<in> collected st then None else heap st a)"
    "\<And>i. mukv_abs (store_db st') i =
       (if \<exists>a \<in> collected st. \<exists>r. heap st a = Some r \<and> ref_id r = i then None else mukv_abs (store_db st) i)"
proof (cases "gc st = []")
  case True
  then show thesis using that [of st] inv by (simp add: property_storage_cleanup_def collected_def)
next
  case False
  have gc: "gc_ok (apr_hash_get (refs st)) (gc st)" using inv by (simp add: ps_inv_def)
  let ?as = "map snd (gc st)"
  have dist: "distinct ?as" by (rule gc_ok_distinct [OF gc refs_ok_inj [OF ps_inv_refs [OF inv]]])
  have inv0: "ps_inv cdc md5 D (st\<lparr>gc := []\<rparr>)" using inv by (simp add: ps_inv_def)
  have "\<forall>a \<in> set ?as. \<exists>i. apr_hash_get (refs st) i = Some a" using gc by (fastforce simp: gc_ok_def)
  then obtain st1 where loop: "prop_gc_loop ?as st [] =
      Some (0, filter (dead (heap st)) ?as, st1)"
    and inv1: "ps_inv cdc md5 D (st1\<lparr>gc := []\<rparr>)" and abs1: "ps_abs cdc st1 = ps_abs cdc st"
    and f1: "heap st1 = heap st" "entries st1 = entries st" "fresh st1 = fresh st"
    and R1: "\<And>i a. apr_hash_get (refs st1) i = Some a \<longleftrightarrow>
       apr_hash_get (refs st) i = Some a \<and> \<not> (a \<in> set ?as \<and> dead (heap st) a)"
    using prop_gc_loop_spec [OF inv0 dist, of "[]"] by auto
  let ?F = "set (filter (dead (heap st)) ?as)"
  let ?st = "st1\<lparr>gc := [], heap := (\<lambda>a. if a \<in> ?F then None else heap st1 a)\<rparr>"
  have eq: "property_storage_cleanup st = Some (0, ?st)"
    using False loop dist unfolding property_storage_cleanup_def by simp
  have R2: "a \<notin> ?F" if "apr_hash_get (refs st1) i = Some a" for i a using that R1 [of i a] by auto
  have refs1: "refs_ok (apr_hash_get (refs st1)) (apr_hash_get (entries st1)) (heap st1) (fresh st1)"
    using ps_inv_refs [OF inv1] by simp
  have inv2: "ps_inv cdc md5 D ?st"
    using inv1 refs_ok_free [OF refs1 R2] unfolding ps_inv_def by simp
  moreover have "ps_abs cdc ?st = ps_abs cdc st"
  proof
    fix p
    show "ps_abs cdc ?st p = ps_abs cdc st p"
    proof (cases "apr_hash_get (entries st1) p")
      case (Some b)
      then have "apr_hash_get (entries ?st) p = Some b" by simp
      then obtain s where "heap ?st b = Some s" by (rule ps_abs_entry [OF inv2])
      then have "heap st1 b = Some s" "ps_abs cdc ?st p = ps_abs cdc st1 p"
        using Some by (auto simp: ps_abs_def split: if_splits)
      then show ?thesis using abs1 by simp
    next
      case None
      then show ?thesis using abs1 [THEN fun_cong, of p] by (simp add: ps_abs_def)
    qed
  qed
  moreover have F: "?F = collected st" by (auto simp: collected_def)
  moreover have "mukv_abs (store_db ?st) i =
      (if \<exists>a \<in> collected st. \<exists>r. heap st a = Some r \<and> ref_id r = i then None else mukv_abs (store_db st) i)" for i
  proof -
    have "mukv_ok (store_db st)" using inv by (rule ps_invE)
    have "(\<exists>a \<in> set ?as. \<exists>r. heap st a = Some r \<and> ref_count r \<le> 0 \<and> ref_id r = i) \<longleftrightarrow>
        (\<exists>a \<in> collected st. \<exists>r. heap st a = Some r \<and> ref_id r = i)" by (force simp: collected_def dead_def)
    then show ?thesis using prop_gc_loop_db [OF loop \<open>mukv_ok (store_db st)\<close>, of i] by simp
  qed
  ultimately show thesis using that [of ?st] eq R1 f1 by (simp add: collected_def)
qed

section \<open>Properties\<close>

lemma ps_reach_inv:
  assumes "ps_reach cdc md5 D st m" "codec_ok cdc D" "inj_on md5 D"
  shows "ps_inv cdc md5 D st \<and> ps_abs cdc st = m"
  using assms
proof (induction rule: ps_reach.induct)
  case (create snappy_init fopen tmp st)
  then obtain kv where kv: "mukv_open fopen (tmp @ ''/props.db'') = Some kv"
    "st = \<lparr>refs = [], entries = [], store_db = kv, gc = [], heap = (\<lambda>_. None), fresh = 0\<rparr>"
    by (auto simp: property_storage_create_def split: option.splits if_splits)
  then show ?case
    using mukv_open_ok [OF kv(1) create(2)]
    by (simp add: ps_inv_def refs_ok_def data_ok_def apr_hash_get_def apr_hash_ok_def ps_abs_def [abs_def])
next
  case (store st m props mem path st')
  then have inv: "ps_inv cdc md5 D st" "ps_abs cdc st = m" by auto
  show ?case
    by (rule property_store_spec [OF inv(1) store.prems(1,2) store.hyps(2,3), of mem path])
      (use store.hyps(4) inv(2) in auto)
next
  case (load st m path acc rc props st')
  then have inv: "ps_inv cdc md5 D st" "ps_abs cdc st = m" by auto
  show ?case by (rule property_load_spec [OF inv(1), of path acc]) (use load.hyps(2) inv(2) in auto)
next
  case (delete st m path rc st')
  then have inv: "ps_inv cdc md5 D st" "ps_abs cdc st = m" by auto
  show ?case by (rule property_delete_spec [OF inv(1), of path]) (use delete.hyps(2) inv(2) in auto)
next
  case (cleanup st m rc st')
  then have inv: "ps_inv cdc md5 D st" "ps_abs cdc st = m" by auto
  show ?case by (rule property_storage_cleanup_spec [OF inv(1)]) (use cleanup.hyps(2) inv(2) in auto)
qed

lemma demo_props_ok: "props_ok demo_props"
  by (simp add: props_ok_def demo_props_def apr_hash_ok_def)

lemma demo_store_reach:
  "ps_reach codec_none (\<lambda>d. d) UNIV (demo_put (demo_store0 500) ''a'' demo_props) [''a'' \<mapsto> demo_props]"
proof -
  have "property_storage_create True (disk 500) ''/tmp'' = Some (demo_store0 500)"
    by (simp add: demo_store0_def property_storage_create_def mukv_open_def disk_def)
  then have 0: "ps_reach codec_none (\<lambda>d. d) UNIV (demo_store0 500) Map.empty" by (rule ps_reach.create) simp
  have "map_option fst (property_store codec_none (\<lambda>d. d) (\<lambda>_. True) (demo_store0 500) ''a'' demo_props) = Some 0"
    by code_simp
  then have "property_store codec_none (\<lambda>d. d) (\<lambda>_. True) (demo_store0 500) ''a'' demo_props =
      Some (0, demo_put (demo_store0 500) ''a'' demo_props)"
    by (auto simp: demo_put_def)
  from ps_reach.store [OF 0 demo_props_ok _ this] show ?thesis by (simp add: demo_props_def)
qed

text \<open>
  C13. Loading the properties of a path, in any storage reached by storing, loading, deleting and
  cleaning up, succeeds, never touches freed memory, and yields exactly what was last stored for
  the path and not loaded or deleted since, merged into the hash of the caller; the path is
  removed from the storage and no other path changes. MD5 must not collide on
  the stored data, and the compressor must undo itself on them.
\<close>

theorem property_load_correct:
  assumes "ps_reach cdc md5 D st m" "codec_ok cdc D" "inj_on md5 D"
  shows "\<exists>st'. property_load cdc st path acc =
      Some (0, (case m path of None \<Rightarrow> acc | Some props \<Rightarrow> props_merge acc props), st') \<and>
    ps_reach cdc md5 D st' (m(path := None))"
proof -
  have inv: "ps_inv cdc md5 D st" "ps_abs cdc st = m" using ps_reach_inv [OF assms] by auto
  obtain st' where "property_load cdc st path acc =
      Some (0, (case m path of None \<Rightarrow> acc | Some props \<Rightarrow> props_merge acc props), st')"
    by (rule property_load_spec [OF inv(1), of path acc]) (use inv(2) in simp)
  then show ?thesis using ps_reach.load [OF assms(1)] by blast
qed

theorem property_load_correct_witness:
  "\<exists>st'. property_load codec_none (demo_put (demo_store0 500) ''a'' demo_props) ''a'' [] = Some (0, demo_props, st')"
  using property_load_correct [OF demo_store_reach codec_none_ok, of "''a''" "[]"]
    props_merge_new [of "[]" demo_props] demo_props_ok by (auto simp: props_ok_def)

text \<open>
  C14. Storing a property hash in a reachable storage never touches freed memory; on success the path
  stands for the hash (for nothing, if the hash is empty) and no other path changes; on failure no
  path changes. It succeeds when memory is available and the value fits into the database.
\<close>

theorem property_store_correct:
  assumes "ps_reach cdc md5 D st m" "codec_ok cdc D" "inj_on md5 D" "props_ok props" "prop_hash_serialize props \<in> D"
  shows "\<exists>rc st'. property_store cdc md5 mem st path props = Some (rc, st') \<and>
    (if rc = 0 then ps_abs cdc st' = m(path := if props = [] then None else Some props) \<and> ps_inv cdc md5 D st'
     else ps_abs cdc st' = m) \<and>
    ((\<forall>k. mem k) \<and> (\<forall>z. compress cdc (prop_hash_serialize props) = Some z \<longrightarrow>
       length z \<le> fcap (kvfile (store_db st)) - length (fdata (kvfile (store_db st)))) \<longrightarrow> rc = 0)"
proof -
  have inv: "ps_inv cdc md5 D st" "ps_abs cdc st = m" using ps_reach_inv [OF assms(1-3)] by auto
  show ?thesis
    by (rule property_store_spec [OF inv(1) assms(2-5), of mem path])
      (use inv(2) property_store_room [OF _ assms(2) _ assms(5), of md5 mem st path] ps_invE [OF inv(1)] in auto)
qed

theorem property_store_correct_witness:
  "\<exists>st'. property_store codec_none (\<lambda>d. d) (\<lambda>_. True) (demo_put (demo_store0 500) ''a'' demo_props) ''b'' demo_props =
     Some (0, st') \<and> ps_abs codec_none st' ''b'' = Some demo_props \<and> ps_abs codec_none st' ''a'' = Some demo_props"
proof -
  have ne: "demo_props \<noteq> []" by (simp add: demo_props_def)
  have "map_option fst (property_store codec_none (\<lambda>d. d) (\<lambda>_. True)
      (demo_put (demo_store0 500) ''a'' demo_props) ''b'' demo_props) = Some 0" by code_simp
  then show ?thesis
    using property_store_correct [OF demo_store_reach codec_none_ok _ demo_props_ok, of "\<lambda>_. True" "''b''"] ne
    by fastforce
qed

text \<open>
  C15. The cleanup of a reachable storage succeeds and frees exactly the references that were collected and whose counter is
  zero: their memory is released, each once, their identifiers leave the table and the database, and all
  other references keep their memory, identifiers and data. No path uses a freed reference, and every path keeps its properties.
\<close>

theorem property_storage_cleanup_correct:
  assumes "ps_reach cdc md5 D st m" "codec_ok cdc D" "inj_on md5 D"
  shows "\<exists>st'. property_storage_cleanup st = Some (0, st') \<and> ps_reach cdc md5 D st' m \<and> gc st' = [] \<and>
    (\<forall>a. heap st' a = (if a \<in> collected st then None else heap st a)) \<and>
    (\<forall>i a. apr_hash_get (refs st') i = Some a \<longleftrightarrow> apr_hash_get (refs st) i = Some a \<and> a \<notin> collected st) \<and>
    (\<forall>i. mukv_abs (store_db st') i =
       (if \<exists>a \<in> collected st. \<exists>r. heap st a = Some r \<and> ref_id r = i then None else mukv_abs (store_db st) i)) \<and>
    (\<forall>p a. apr_hash_get (entries st) p = Some a \<longrightarrow> a \<notin> collected st)"
proof -
  have inv: "ps_inv cdc md5 D st" using ps_reach_inv [OF assms] by auto
  obtain st' where st': "property_storage_cleanup st = Some (0, st')" "ps_inv cdc md5 D st'" "gc st' = []" "entries st' = entries st"
    "\<And>i a. apr_hash_get (refs st') i = Some a \<longleftrightarrow> apr_hash_get (refs st) i = Some a \<and> a \<notin> collected st"
    "\<And>a. heap st' a = (if a \<in> collected st then None else heap st a)"
    "\<And>i. mukv_abs (store_db st') i =
       (if \<exists>a \<in> collected st. \<exists>r. heap st a = Some r \<and> ref_id r = i then None else mukv_abs (store_db st) i)"
    by (rule property_storage_cleanup_spec [OF inv]) (rule that)
  have "a \<notin> collected st" if "apr_hash_get (entries st) p = Some a" for p a
  proof -
    have "apr_hash_get (entries st') p = Some a" using that st'(4) by simp
    then obtain r where "heap st' a = Some r" by (rule ps_abs_entry [OF st'(2)])
    then show ?thesis using st'(6) [of a] by (auto split: if_splits)
  qed
  then show ?thesis using st' ps_reach.cleanup [OF assms(1) st'(1)] by blast
qed

text \<open>A storage whose only reference has lost its only user.\<close>

definition demo_store_gc :: property_storage where
  "demo_store_gc = (case the (property_load codec_none (demo_put (demo_store0 500) ''a'' demo_props) ''a'' []) of (_, _, st) \<Rightarrow> st)"

theorem property_storage_cleanup_correct_witness:
  "\<exists>st'. property_storage_cleanup demo_store_gc = Some (0, st') \<and> heap demo_store_gc 0 \<noteq> None \<and> heap st' 0 = None \<and>
     (\<forall>i. apr_hash_get (refs st') i \<noteq> Some 0) \<and> mukv_abs (store_db st') (prop_hash_serialize demo_props) = None"
proof -
  have "property_load codec_none (demo_put (demo_store0 500) ''a'' demo_props) ''a'' [] \<noteq> None" by code_simp
  then have "\<exists>rc props. property_load codec_none (demo_put (demo_store0 500) ''a'' demo_props) ''a'' [] = Some (rc, props, demo_store_gc)"
    by (auto simp: demo_store_gc_def)
  then have reach: "ps_reach codec_none (\<lambda>d. d) UNIV demo_store_gc ([''a'' \<mapsto> demo_props](''a'' := None))"
    using ps_reach.load [OF demo_store_reach] by blast
  have h: "map_option ref_count (heap demo_store_gc 0) = Some 0" "map_option ref_id (heap demo_store_gc 0) = Some (prop_hash_serialize demo_props)"
    "0 \<in> snd ` set (gc demo_store_gc)" by code_simp+
  then have c: "0 \<in> collected demo_store_gc" by (auto simp: collected_def dead_def)
  obtain r where r: "heap demo_store_gc 0 = Some r" "ref_id r = prop_hash_serialize demo_props" using h by auto
  from property_storage_cleanup_correct [OF reach codec_none_ok] c r show ?thesis by fastforce
qed

text \<open>
  The handler that runs at the end frees every reference in the table once, in every reachable storage,
  so that no path refers to anything any more.
\<close>

theorem prop_cleanup_safe:
  assumes "ps_reach cdc md5 D st m" "codec_ok cdc D" "inj_on md5 D"
  shows "\<exists>st'. prop_cleanup fe ue st = Some st' \<and> (\<forall>p a. apr_hash_get (entries st) p = Some a \<longrightarrow> heap st' a = None)"
proof -
  have inv: "ps_inv cdc md5 D st" using ps_reach_inv [OF assms] by auto
  note ok = ps_inv_refs [OF inv]
  have h: "apr_hash_ok (refs st)" using inv by (rule ps_invE)
  then have mem: "(i, a) \<in> set (refs st) \<longleftrightarrow> apr_hash_get (refs st) i = Some a" for i a by (simp add: apr_hash_get_def apr_hash_ok_def)
  have "inj_on snd (set (refs st))" using refs_ok_inj [OF ok] mem by (auto simp: inj_on_def)
  moreover have "distinct (refs st)" using h by (auto simp: apr_hash_ok_def distinct_map)
  ultimately have d: "distinct (map snd (refs st))" by (simp add: distinct_map)
  have "heap st a \<noteq> None" if "(i, a) \<in> set (refs st)" for i a using refs_okD [OF ok] that mem by blast
  moreover have "a \<in> snd ` set (refs st)" if "apr_hash_get (entries st) p = Some a" for p a
    using refs_ok_entry [OF ok that] mem by (metis image_eqI snd_conv)
  ultimately show ?thesis using d by (auto simp: prop_cleanup_def Let_def)
qed

text \<open>
  C26. The serialised form of a property hash has exactly the length that is allocated for it, and
  reading it back restores the hash, whatever bytes the values have.
\<close>

theorem prop_hash_roundtrip:
  assumes "props_ok props"
  shows "length (prop_hash_serialize props) = prop_hash_len props \<and>
    prop_hash_reconstruct [] (prop_hash_serialize props @ rest) = Some props"
  using length_serialize [of props] reconstruct_serialize [of props "[]" rest] props_merge_new [of "[]" props] assms
  by (simp add: props_ok_def)

theorem prop_hash_roundtrip_witness:
  "prop_hash_reconstruct [] (prop_hash_serialize demo_props @ ''junk'') = Some demo_props"
  using prop_hash_roundtrip [OF demo_props_ok] by simp

text \<open>
  The number of bytes announced for a property or a property deletion is the number of bytes
  printed for it, for present and absent names and values.
\<close>

theorem property_strlen_exact:
  "property_strlen key val = length (property_dump key val) \<and>
   property_del_strlen key = length (property_del_dump key)"
  by (simp add: property_strlen_dump property_del_strlen_dump)

text \<open>
  C40. A printed property reads back as its name and value, each up to the first NUL byte, with the
  lengths in the block delimiting them: newlines in them do no harm.
\<close>

theorem property_dump_readable:
  "read_prop (property_dump (Some k) val @ rest) =
     Some (cstr_of k, (case val of None \<Rightarrow> [] | Some v \<Rightarrow> cstr_of v), rest)"
  by (rule read_prop_dump)

text \<open>
  Storing properties twice for the same path counts the reference twice: after the path is
  deleted and the storage cleaned up, the data is still in the database.
\<close>

theorem property_store_leak:
  "(let st = demo_put (demo_put (demo_store0 500) ''a'' demo_props) ''a'' demo_props;
        st1 = snd (the (property_delete st ''a''));
        st2 = snd (the (property_storage_cleanup st1))
    in entries st2 = [] \<and> length (refs st2) = 1 \<and> rhash_count (index (store_db st2)) = 1)"
  by code_simp

text \<open>
  When the database is full, a store fails but leaves a reference without data behind: storing
  the same properties again reports success, and loading them then fails.
\<close>

theorem property_store_poisoned:
  "(let r1 = the (property_store codec_none (\<lambda>d. d) (\<lambda>_. True) (demo_store0 10) ''a'' demo_props);
        r2 = the (property_store codec_none (\<lambda>d. d) (\<lambda>_. True) (snd r1) ''a'' demo_props)
    in fst r1 = -1 \<and> fst r2 = 0 \<and> map_option fst (property_load codec_none (snd r2) ''a'' []) = Some (-1))"
  by code_simp

end
