(* ===== verification/Session.thy ===== *)
theory Session
  imports Types
begin

text \<open>
  Path helpers of \<open>src/utils.c\<close> and the session of \<open>src/session.c\<close>, as far as it is not a call
  of the Subversion library: the path below the repository root (\<open>prefix\<close>) and the obfuscation of
  path names. \<open>rand()\<close> is a sequence of numbers with a position. The loop that draws names until
  one is not taken has fuel; \<open>None\<close> means that it has not ended within it.
\<close>

unbundle bit_operations_syntax

section \<open>Definitions\<close>

subsection \<open>Path helpers\<close>

text \<open>\<open>strrchr\<close>: the part behind the last slash.\<close>

definition path_tail :: "string \<Rightarrow> string" where
  "path_tail path = rev (takeWhile (\<lambda>c. c \<noteq> slash) (rev path))"

definition utils_path_split :: "string \<Rightarrow> string \<times> string" where
  "utils_path_split path =
     (if slash \<notin> set path then ([], path)
      else if path = [slash] then ([slash], [slash])
      else let sep = length path - length (path_tail path) - 1
           in (take (if sep = 0 then 1 else sep) path, path_tail path))"

text \<open>With an empty \<open>dir\<close> the source reads the byte before the string: \<open>None\<close>.\<close>

definition utils_path_join :: "string \<Rightarrow> string \<Rightarrow> string option" where
  "utils_path_join dir base =
     (if dir = [] then None
      else if last dir = slash \<or> (base \<noteq> [] \<and> hd base = slash) then Some (dir @ base)
      else Some (dir @ [slash] @ base))"

subsection \<open>The session\<close>

definition SF_NO_CHECK_CERTIFICATE :: u32 where "SF_NO_CHECK_CERTIFICATE = 0x01"
definition SF_NON_INTERACTIVE :: u32 where "SF_NON_INTERACTIVE = 0x02"
definition SF_NO_AUTH_CACHE :: u32 where "SF_NO_AUTH_CACHE = 0x04"
definition SF_OBFUSCATE :: u32 where "SF_OBFUSCATE = 0x08"

text \<open>The prefix is null before \<open>session_open\<close> sets it and is not read before; here it is empty.\<close>

record session =
  url :: "string option"
  encoded_url :: "string option"
  ses_root :: "string option"
  prefix :: string
  username :: "string option"
  password :: "string option"
  config_dir :: "string option"
  sflags :: u32
  obf_hash :: "string apr_hash"
  obf_taken :: "string apr_hash"
  rand_src :: "nat \<Rightarrow> nat"
  rand_pos :: nat

definition session_create :: "(nat \<Rightarrow> nat) \<Rightarrow> session" where
  "session_create rnd =
     \<lparr>url = None, encoded_url = None, ses_root = None, prefix = [], username = None, password = None,
      config_dir = None, sflags = 0, obf_hash = [], obf_taken = [], rand_src = rnd, rand_pos = 0\<rparr>"

definition rand_next :: "session \<Rightarrow> nat \<times> session" where
  "rand_next s = (rand_src s (rand_pos s), s\<lparr>rand_pos := rand_pos s + 1\<rparr>)"

definition rchars :: string where
  "rchars = ''abcdefghijklmnopqrstuvwxyz''"

definition probs :: "nat list" where
  "probs = [81, 96, 124, 156, 283, 305, 325, 386, 456, 458, 466, 506, 530,
            597, 672, 691, 692, 752, 815, 906, 934, 944, 968, 970, 999, 1000]"

text \<open>The inner loop: the first index whose cumulated probability is large enough.\<close>

definition prob_index :: "nat \<Rightarrow> nat" where
  "prob_index n = length (takeWhile (\<lambda>p. \<not> p \<ge> n) (take (length rchars) probs))"

primrec obf_chars :: "nat \<Rightarrow> session \<Rightarrow> string \<times> session" where
  "obf_chars 0 s = ([], s)"
| "obf_chars (Suc n) s =
     (let (r, s) = rand_next s; (cs, s) = obf_chars n s
      in ((if prob_index (r mod 1000) < length rchars then rchars ! prob_index (r mod 1000) else nul) # cs, s))"

fun make_obf_loop :: "nat \<Rightarrow> nat \<Rightarrow> bool \<Rightarrow> session \<Rightarrow> (string \<times> session) option" where
  "make_obf_loop 0 lfac use_taken s = None"
| "make_obf_loop (Suc fuel) lfac use_taken s =
     (let (r, s) = rand_next s;
          (obf, s) = obf_chars (3 + r mod lfac) s
      in if use_taken \<and> apr_hash_get (obf_taken s) obf \<noteq> None
         then make_obf_loop fuel (lfac + 1) use_taken s
         else Some (obf, s))"

definition session_make_obfuscated :: "nat \<Rightarrow> bool \<Rightarrow> session \<Rightarrow> (string \<times> session) option" where
  "session_make_obfuscated fuel use_taken s =
     (case make_obf_loop fuel 8 use_taken s of
        None \<Rightarrow> None
      | Some (obf, s) \<Rightarrow>
          Some (obf, if use_taken then s\<lparr>obf_taken := apr_hash_set (obf_taken s) obf (Some obf)\<rparr> else s))"

definition obf_base :: "nat \<Rightarrow> string \<Rightarrow> session \<Rightarrow> (string \<times> session) option" where
  "obf_base fuel base s =
     (case apr_hash_get (obf_hash s) base of
        Some obf \<Rightarrow> Some (obf, s)
      | None \<Rightarrow>
          (case session_make_obfuscated fuel True s of
             None \<Rightarrow> None
           | Some (obf, s) \<Rightarrow> Some (obf, s\<lparr>obf_hash := apr_hash_set (obf_hash s) base (Some obf)\<rparr>)))"

function session_obfuscate_rec :: "nat \<Rightarrow> string \<Rightarrow> session \<Rightarrow> (string \<times> session) option" where
  "session_obfuscate_rec fuel path s =
     (let (dir, base) = utils_path_split path
      in case (if dir \<noteq> [slash] \<and> dir \<noteq> [] then session_obfuscate_rec fuel dir s else Some (dir, s)) of
           None \<Rightarrow> None
         | Some (dir, s) \<Rightarrow>
             if base = [] then Some ([], s)
             else (case obf_base fuel base s of
                     None \<Rightarrow> None
                   | Some (obf, s) \<Rightarrow>
                       if dir \<noteq> [] then map_option (\<lambda>p. (p, s)) (utils_path_join dir obf) else Some (obf, s)))"
  by pat_completeness auto
termination
proof (relation "measure (\<lambda>(fuel, path, s). length path)", simp)
  fix fuel path s x dir base
  assume a: "x = utils_path_split path" "(dir, base) = x" "dir \<noteq> [slash] \<and> dir \<noteq> []"
  then have "slash \<in> set path" "path \<noteq> [slash]" by (auto simp: utils_path_split_def split: if_splits)
  then have "length path > 1" by (cases path rule: remdups_adj.cases) auto
  moreover have "length dir \<le> max 1 (length path - length (path_tail path) - 1)"
    using a by (auto simp: utils_path_split_def Let_def split: if_splits)
  ultimately show "((fuel, dir, s), fuel, path, s) \<in> measure (\<lambda>(fuel, path, s). length path)" by auto
qed

declare session_obfuscate_rec.simps [simp del]

definition session_obfuscate :: "nat \<Rightarrow> session \<Rightarrow> string option \<Rightarrow> (string option \<times> session) option" where
  "session_obfuscate fuel s path =
     (case path of
        None \<Rightarrow> Some (None, s)
      | Some p \<Rightarrow>
          if sflags s AND SF_OBFUSCATE = 0 then Some (Some p, s)
          else map_option (\<lambda>(o', s). (Some o', s)) (session_obfuscate_rec fuel p s))"

definition session_obfuscate_once :: "nat \<Rightarrow> session \<Rightarrow> string option \<Rightarrow> (string option \<times> session) option" where
  "session_obfuscate_once fuel s str =
     (case str of
        None \<Rightarrow> Some (None, s)
      | Some p \<Rightarrow>
          if sflags s AND SF_OBFUSCATE = 0 then Some (Some p, s)
          else map_option (\<lambda>(o', s). (Some o', s)) (session_make_obfuscated fuel False s))"

text \<open>The end of \<open>session_open\<close>: the prefix is what the URL has behind the repository root.\<close>

definition session_set_prefix :: "nat \<Rightarrow> session \<Rightarrow> string \<Rightarrow> string \<Rightarrow> session option" where
  "session_set_prefix fuel s eu root' =
     (let p = (if eu = root' then [] else drop (length root' + 1) eu)
      in case session_obfuscate fuel s (Some p) of
           Some (Some p', s') \<Rightarrow> Some (s'\<lparr>prefix := p'\<rparr>)
         | _ \<Rightarrow> None)"

text \<open>
  The calls of the Subversion library that set up a session, by their outcomes: \<open>False\<close> or \<open>None\<close>
  is an error. Every error is reported on standard error and ends \<open>session_open\<close> with 1.
\<close>

record svn_setup =
  svn_path_canonicalize :: "string \<Rightarrow> string"
  svn_path_uri_encode :: "string \<Rightarrow> string"
  svn_fs_initialize :: bool
  svn_ra_initialize :: bool
  svn_config_ensure :: bool
  svn_client_create_context :: bool
  svn_config_get_config :: bool
  svn_utf_cstring_to_utf8 :: "string \<Rightarrow> string option"
  svn_cmdline_setup_auth_baton ::
    "bool \<Rightarrow> string option \<Rightarrow> string option \<Rightarrow> string option \<Rightarrow> bool \<Rightarrow> bool"
  svn_client_open_ra_session :: "string \<Rightarrow> bool"
  svn_ra_get_repos_root :: "string option"

definition session_config_dir :: "svn_setup \<Rightarrow> session \<Rightarrow> string option option" where
  "session_config_dir svn s =
     (case config_dir s of
        None \<Rightarrow> Some None
      | Some dir \<Rightarrow> map_option (\<lambda>path. Some (svn_path_canonicalize svn path)) (svn_utf_cstring_to_utf8 svn dir))"

definition session_open :: "svn_setup \<Rightarrow> nat \<Rightarrow> session \<Rightarrow> (int \<times> session) option" where
  "session_open svn fuel s0 =
     (case url s0 of
        None \<Rightarrow> None
      | Some u \<Rightarrow>
          let eu = svn_path_uri_encode svn (svn_path_canonicalize svn u);
              s = s0\<lparr>encoded_url := Some eu\<rparr>
          in if \<not> svn_fs_initialize svn then Some (1, s)
             else if \<not> svn_ra_initialize svn then Some (1, s)
             else if \<not> svn_config_ensure svn then Some (1, s)
             else if \<not> svn_client_create_context svn then Some (1, s)
             else if \<not> svn_config_get_config svn then Some (1, s)
             else (case session_config_dir svn s of
                     None \<Rightarrow> Some (1, s)
                   | Some dir \<Rightarrow>
                       if \<not> svn_cmdline_setup_auth_baton svn (sflags s AND SF_NON_INTERACTIVE \<noteq> 0) (username s)
                              (password s) dir (sflags s AND SF_NO_AUTH_CACHE \<noteq> 0) then Some (1, s)
                       else if \<not> svn_client_open_ra_session svn eu then Some (1, s)
                       else (case svn_ra_get_repos_root svn of
                               None \<Rightarrow> Some (1, s)
                             | Some root' \<Rightarrow>
                                 map_option (Pair 0) (session_set_prefix fuel (s\<lparr>ses_root := Some root'\<rparr>) eu root'))))"

text \<open>\<open>session_check_reparent\<close> without \<open>USE_SINGLEFILE_DUMP\<close>; the argument is the answer of
  \<open>svn_ra_check_path\<close>.\<close>

definition session_check_reparent :: "(revnum \<Rightarrow> node_kind option) \<Rightarrow> session \<Rightarrow> revnum \<Rightarrow> int" where
  "session_check_reparent check_path s r =
     (case check_path r of
        None \<Rightarrow> 1
      | Some kind \<Rightarrow> if kind = node_file then 1 else 0)"


section \<open>What obfuscation promises\<close>

text \<open>Relative paths as lists of components.\<close>

fun join_path :: "string list \<Rightarrow> string" where
  "join_path [] = []"
| "join_path [c] = c"
| "join_path (c # cs) = c @ [slash] @ join_path cs"

definition comp_ok :: "string \<Rightarrow> bool" where
  "comp_ok c \<longleftrightarrow> c \<noteq> [] \<and> slash \<notin> set c"

text \<open>
  The names handed out are distinct, recorded as taken, and usable as path components.
\<close>

definition obf_inv :: "session \<Rightarrow> bool" where
  "obf_inv s \<longleftrightarrow> apr_hash_ok (obf_hash s) \<and> apr_hash_ok (obf_taken s) \<and>
     (\<forall>b o'. apr_hash_get (obf_hash s) b = Some o' \<longrightarrow> comp_ok o' \<and> apr_hash_get (obf_taken s) o' \<noteq> None) \<and>
     (\<forall>b b' o'. apr_hash_get (obf_hash s) b = Some o' \<and> apr_hash_get (obf_hash s) b' = Some o' \<longrightarrow> b = b')"

definition obf_le :: "session \<Rightarrow> session \<Rightarrow> bool" where
  "obf_le s s' \<longleftrightarrow> (\<forall>b o'. apr_hash_get (obf_hash s) b = Some o' \<longrightarrow> apr_hash_get (obf_hash s') b = Some o') \<and>
     sflags s' = sflags s \<and> prefix s' = prefix s"

definition obf_name :: "session \<Rightarrow> string \<Rightarrow> string" where
  "obf_name s c = the (apr_hash_get (obf_hash s) c)"

text \<open>A session with obfuscation on, two names given and a simple sequence of random numbers.\<close>

definition demo_session :: session where
  "demo_session = (session_create (\<lambda>n. n))\<lparr>sflags := SF_OBFUSCATE,
     obf_hash := [(''a'', ''qu''), (''c'', ''mi'')], obf_taken := [(''qu'', ''qu''), (''mi'', ''mi'')]\<rparr>"

section \<open>Names\<close>

lemma prob_index_less: "prob_index (r mod 1000) < length rchars - 1"
proof -
  let ?ps = "take (length rchars) probs"
  have "r mod 1000 \<le> ?ps ! 24" by (simp add: rchars_def probs_def)
  moreover have "\<not> r mod 1000 \<le> ?ps ! 24" if "24 < prob_index (r mod 1000)"
    using that nth_mem [OF that [unfolded prob_index_def]] takeWhile_nth [OF that [unfolded prob_index_def]]
    by (metis set_takeWhileD)
  ultimately have "prob_index (r mod 1000) \<le> 24" by (meson not_le)
  then show ?thesis by (simp add: rchars_def)
qed

lemma obf_chars_spec:
  assumes "obf_chars n s = (cs, s')"
  shows "length cs = n \<and> set cs \<subseteq> set rchars \<and> s' = s\<lparr>rand_pos := rand_pos s + n\<rparr>"
  using assms
proof (induction n arbitrary: s cs s')
  case (Suc n)
  obtain cs1 s1 where 1: "obf_chars n (s\<lparr>rand_pos := rand_pos s + 1\<rparr>) = (cs1, s1)" by fastforce
  let ?r = "rand_src s (rand_pos s)"
  have "prob_index (?r mod 1000) < length rchars" using prob_index_less [of ?r] by simp
  then show ?case
    using Suc.IH [OF 1] Suc.prems 1 nth_mem [of "prob_index (?r mod 1000)" rchars]
    by (auto simp: rand_next_def)
qed simp

lemma rchars_comp: "set cs \<subseteq> set rchars \<Longrightarrow> cs \<noteq> [] \<Longrightarrow> comp_ok cs"
proof -
  assume "set cs \<subseteq> set rchars" "cs \<noteq> []"
  moreover have "slash \<notin> set rchars" by (simp add: rchars_def)
  ultimately show ?thesis by (auto simp: comp_ok_def)
qed

lemma make_obf_loop_spec:
  "make_obf_loop fuel lfac t s = Some (cs, s') \<Longrightarrow>
     comp_ok cs \<and> set cs \<subseteq> set rchars \<and> (t \<longrightarrow> apr_hash_get (obf_taken s) cs = None) \<and>
     (\<exists>n. s' = s\<lparr>rand_pos := n\<rparr>)"
proof (induction fuel arbitrary: lfac s)
  case (Suc fuel)
  let ?s1 = "s\<lparr>rand_pos := rand_pos s + 1\<rparr>"
  let ?n = "3 + rand_src s (rand_pos s) mod lfac"
  obtain cs1 s1 where 1: "obf_chars ?n ?s1 = (cs1, s1)" by fastforce
  then have c: "length cs1 = ?n" "set cs1 \<subseteq> set rchars" "s1 = s\<lparr>rand_pos := rand_pos s + 1 + ?n\<rparr>"
    using obf_chars_spec [OF 1] by auto
  show ?case
  proof (cases "t \<and> apr_hash_get (obf_taken s1) cs1 \<noteq> None")
    case True
    then have "make_obf_loop (Suc fuel) lfac t s = make_obf_loop fuel (lfac + 1) t s1"
      using 1 by (simp add: rand_next_def)
    then have "make_obf_loop fuel (lfac + 1) t s1 = Some (cs, s')" using Suc.prems by simp
    from Suc.IH [OF this] show ?thesis unfolding c(3) by auto
  next
    case False
    moreover have "comp_ok cs1" using c(1,2) by (intro rchars_comp) auto
    ultimately show ?thesis using Suc.prems 1 c by (auto simp: rand_next_def)
  qed
qed simp

lemma obf_base_spec:
  assumes inv: "obf_inv s" and eq: "obf_base fuel b s = Some (n, s')"
  shows "obf_inv s' \<and> obf_le s s' \<and> apr_hash_get (obf_hash s') b = Some n \<and> comp_ok n"
proof (cases "apr_hash_get (obf_hash s) b")
  case (Some n0)
  then show ?thesis using eq inv by (auto simp: obf_base_def obf_le_def obf_inv_def)
next
  case None
  then obtain s1 where s1: "make_obf_loop fuel 8 True s = Some (n, s1)"
    and s': "s' = s1\<lparr>obf_taken := apr_hash_set (obf_taken s1) n (Some n), obf_hash := apr_hash_set (obf_hash s1) b (Some n)\<rparr>"
    using eq by (auto simp: obf_base_def session_make_obfuscated_def split: option.splits)
  from make_obf_loop_spec [OF s1] obtain p where n: "comp_ok n" "apr_hash_get (obf_taken s) n = None"
    and p: "s1 = s\<lparr>rand_pos := p\<rparr>" by auto
  have ok: "apr_hash_ok (obf_hash s)" "apr_hash_ok (obf_taken s)" using inv by (simp_all add: obf_inv_def)
  have h: "apr_hash_get (obf_hash s') = (apr_hash_get (obf_hash s))(b \<mapsto> n)"
    and t: "apr_hash_get (obf_taken s') = (apr_hash_get (obf_taken s))(n \<mapsto> n)"
    using ok by (simp_all add: s' p apr.get_put_fun)
  have fresh: "apr_hash_get (obf_hash s) x \<noteq> Some n" for x using inv n(2) unfolding obf_inv_def by fastforce
  have "apr_hash_ok (obf_hash s')" "apr_hash_ok (obf_taken s')" using ok by (simp_all add: s' p apr.ok_put)
  then have "obf_inv s'"
    using inv n(1) fresh unfolding obf_inv_def h t by (auto split: if_splits)
  moreover have "obf_le s s'" using None unfolding obf_le_def h by (auto simp: s' p)
  ultimately show ?thesis using n(1) h by simp
qed

subsection \<open>Drawing ends\<close>

text \<open>
  The names that the loop draws from a position of the random sequence on. \<open>rand_fair n\<close> asks of the
  generator that more than \<open>n\<close> different names come up, whatever the position.
\<close>

definition obf_char :: "nat \<Rightarrow> char" where
  "obf_char r = (if prob_index (r mod 1000) < length rchars then rchars ! prob_index (r mod 1000) else nul)"

fun draws :: "(nat \<Rightarrow> nat) \<Rightarrow> nat \<Rightarrow> nat \<Rightarrow> nat \<Rightarrow> string" where
  "draws rnd lfac p 0 = map (obf_char \<circ> rnd) [p + 1 ..< p + 1 + (3 + rnd p mod lfac)]"
| "draws rnd lfac p (Suc k) = draws rnd (lfac + 1) (p + 1 + (3 + rnd p mod lfac)) k"

definition rand_fair :: "nat \<Rightarrow> (nat \<Rightarrow> nat) \<Rightarrow> bool" where
  "rand_fair n rnd \<longleftrightarrow> (\<forall>p T. finite T \<and> card T \<le> n \<longrightarrow> (\<exists>k. draws rnd 8 p k \<notin> T))"

definition taken :: "session \<Rightarrow> string set" where
  "taken s = dom (apr_hash_get (obf_taken s))"

text \<open>The generator is good for \<open>n\<close> more names.\<close>

definition obf_budget :: "nat \<Rightarrow> session \<Rightarrow> bool" where
  "obf_budget n s \<longleftrightarrow> rand_fair (card (taken s) + n) (rand_src s)"

lemma finite_taken [simp]: "finite (taken s)"
  by (simp add: taken_def apr_hash_get_def [abs_def] finite_dom_map_of)

lemma rand_fair_mono: "rand_fair m rnd \<Longrightarrow> n \<le> m \<Longrightarrow> rand_fair n rnd"
  unfolding rand_fair_def by (meson order_trans)

lemma obf_chars_eq:
  "obf_chars n s = (map (obf_char \<circ> rand_src s) [rand_pos s ..< rand_pos s + n], s\<lparr>rand_pos := rand_pos s + n\<rparr>)"
proof (induction n arbitrary: s)
  case (Suc n)
  have "[rand_pos s ..< rand_pos s + Suc n] = rand_pos s # [Suc (rand_pos s) ..< Suc (rand_pos s) + n]"
    by (simp add: upt_conv_Cons)
  then show ?case by (simp add: rand_next_def Suc.IH obf_char_def Let_def)
qed simp

lemma make_obf_loop_step:
  "make_obf_loop (Suc fuel) lfac t s =
     (let obf = draws (rand_src s) lfac (rand_pos s) 0;
          s' = s\<lparr>rand_pos := rand_pos s + 1 + (3 + rand_src s (rand_pos s) mod lfac)\<rparr>
      in if t \<and> obf \<in> taken s then make_obf_loop fuel (lfac + 1) t s' else Some (obf, s'))"
  by (auto simp: rand_next_def obf_chars_eq taken_def dom_def Let_def)

lemma make_obf_loop_returns:
  assumes "draws (rand_src s) lfac (rand_pos s) k \<notin> taken s"
  shows "\<exists>r. \<forall>fuel > k. make_obf_loop fuel lfac t s = Some r"
  using assms
proof (induction k arbitrary: lfac s)
  case 0
  have "make_obf_loop fuel lfac t s = Some (draws (rand_src s) lfac (rand_pos s) 0,
      s\<lparr>rand_pos := rand_pos s + 1 + (3 + rand_src s (rand_pos s) mod lfac)\<rparr>)" if "fuel > 0" for fuel
    using 0 that make_obf_loop_step [of "fuel - 1" lfac t s] by (simp del: make_obf_loop.simps draws.simps)
  then show ?case by blast
next
  case (Suc k)
  let ?s = "s\<lparr>rand_pos := rand_pos s + 1 + (3 + rand_src s (rand_pos s) mod lfac)\<rparr>"
  have "draws (rand_src ?s) (lfac + 1) (rand_pos ?s) k \<notin> taken ?s" using Suc.prems by (simp add: taken_def)
  then obtain r where r: "\<forall>fuel > k. make_obf_loop fuel (lfac + 1) t ?s = Some r" using Suc.IH by blast
  let ?obf = "draws (rand_src s) lfac (rand_pos s) 0"
  have step: "make_obf_loop fuel lfac t s = (if t \<and> ?obf \<in> taken s then Some r else Some (?obf, ?s))" if f: "fuel > Suc k" for fuel
  proof -
    obtain g where g: "fuel = Suc g" "k < g" using f by (cases fuel) auto
    then have "make_obf_loop g (lfac + 1) t ?s = Some r" using r by blast
    then show ?thesis unfolding g(1) make_obf_loop_step Let_def by metis
  qed
  show ?case
  proof (cases "t \<and> ?obf \<in> taken s")
    case True
    then have "\<forall>fuel > Suc k. make_obf_loop fuel lfac t s = Some r" using step by metis
    then show ?thesis by blast
  next
    case False
    then have "\<forall>fuel > Suc k. make_obf_loop fuel lfac t s = Some (?obf, ?s)" using step by metis
    then show ?thesis by blast
  qed
qed

lemma obf_base_returns:
  assumes inv: "obf_inv s" and fair: "obf_budget (Suc m) s"
  shows "\<exists>N r s'. (\<forall>fuel \<ge> N. obf_base fuel b s = Some (r, s')) \<and> obf_budget m s'"
proof (cases "apr_hash_get (obf_hash s) b")
  case (Some n)
  then have "\<forall>fuel \<ge> 0. obf_base fuel b s = Some (n, s)" by (simp add: obf_base_def)
  moreover have "obf_budget m s" using rand_fair_mono [OF fair [unfolded obf_budget_def]] by (simp add: obf_budget_def)
  ultimately show ?thesis by blast
next
  case None
  have "rand_fair (card (taken s)) (rand_src s)" using rand_fair_mono [OF fair [unfolded obf_budget_def]] by simp
  then obtain k where "draws (rand_src s) 8 (rand_pos s) k \<notin> taken s" unfolding rand_fair_def using finite_taken by blast
  then obtain n s1 where loop: "\<forall>fuel > k. make_obf_loop fuel 8 True s = Some (n, s1)"
    using make_obf_loop_returns [of s 8 k True] by auto
  then have "make_obf_loop (Suc k) 8 True s = Some (n, s1)" by (simp del: make_obf_loop.simps)
  from make_obf_loop_spec [OF this] obtain p where s1: "s1 = s\<lparr>rand_pos := p\<rparr>" by auto
  let ?s' = "s1\<lparr>obf_taken := apr_hash_set (obf_taken s1) n (Some n), obf_hash := apr_hash_set (obf_hash s1) b (Some n)\<rparr>"
  have "\<forall>fuel \<ge> Suc k. obf_base fuel b s = Some (n, ?s')"
    using loop None by (auto simp: obf_base_def session_make_obfuscated_def Suc_le_eq simp del: make_obf_loop.simps)
  moreover have "apr_hash_ok (obf_taken s)" using inv by (simp add: obf_inv_def)
  then have "taken ?s' = insert n (taken s)" by (auto simp: taken_def s1 apr.get_put_fun)
  then have "card (taken ?s') \<le> Suc (card (taken s))" by (simp add: card_insert_le_m1 card_insert_if)
  then have "obf_budget m ?s'"
    using rand_fair_mono [OF fair [unfolded obf_budget_def]] by (simp add: obf_budget_def s1)
  ultimately show ?thesis by blast
qed

section \<open>Paths\<close>

lemma path_tail_snoc: "slash \<notin> set c \<Longrightarrow> path_tail (p @ slash # c) = c"
proof -
  assume "slash \<notin> set c"
  then have "takeWhile (\<lambda>x. x \<noteq> slash) (rev c @ slash # rev p) = rev c"
    by (subst takeWhile_append2) auto
  then show ?thesis by (simp add: path_tail_def)
qed

lemma comp_ok_ends: "comp_ok c \<Longrightarrow> c \<noteq> [] \<and> hd c \<noteq> slash \<and> last c \<noteq> slash"
  by (cases c) (auto simp: comp_ok_def dest: last_in_set)

lemma join_path_snoc: "ds \<noteq> [] \<Longrightarrow> join_path (ds @ [c]) = join_path ds @ slash # c"
  by (induction ds rule: join_path.induct) auto

lemma join_path_nonempty: "cs \<noteq> [] \<Longrightarrow> \<forall>c \<in> set cs. comp_ok c \<Longrightarrow> join_path cs \<noteq> [] \<and> hd (join_path cs) \<noteq> slash"
  by (induction cs rule: join_path.induct) (auto simp: comp_ok_ends)

lemma split_single: "comp_ok c \<Longrightarrow> utils_path_split c = ([], c)"
  by (simp add: utils_path_split_def comp_ok_def)

lemma split_snoc:
  assumes "ds \<noteq> []" "\<forall>c \<in> set ds. comp_ok c" "comp_ok c"
  shows "utils_path_split (join_path (ds @ [c])) = (join_path ds, c)"
proof -
  let ?p = "join_path ds"
  have p: "?p \<noteq> []" using join_path_nonempty assms by blast
  have "path_tail (?p @ slash # c) = c" using assms(3) by (intro path_tail_snoc) (simp add: comp_ok_def)
  then show ?thesis
    using assms(1) p by (cases ?p) (auto simp: utils_path_split_def join_path_snoc Let_def)
qed

lemma obf_le_trans: "obf_le s s1 \<Longrightarrow> obf_le s1 s2 \<Longrightarrow> obf_le s s2"
  by (auto simp: obf_le_def)

lemma last_join_path: "cs \<noteq> [] \<Longrightarrow> \<forall>c \<in> set cs. comp_ok c \<Longrightarrow> last (join_path cs) \<noteq> slash"
proof (induction cs rule: join_path.induct)
  case (3 c d cs)
  then show ?case using join_path_nonempty [of "d # cs"] by simp
qed (auto simp: comp_ok_ends)

lemma session_obfuscate_rec_spec:
  assumes "obf_inv s" "cs \<noteq> []" "\<forall>c \<in> set cs. comp_ok c"
    "session_obfuscate_rec fuel (join_path cs) s = Some (r, s')"
  shows "obf_inv s' \<and> obf_le s s' \<and> r = join_path (map (obf_name s') cs) \<and>
    (\<forall>c \<in> set cs. \<exists>n. apr_hash_get (obf_hash s') c = Some n \<and> comp_ok n)"
  using assms(2-)
proof (induction cs arbitrary: r s' rule: rev_induct)
  case (snoc c ds)
  have c: "comp_ok c" using snoc.prems by simp
  show ?case
  proof (cases "ds = []")
    case True
    have "obf_base fuel c s = Some (r, s')"
      using snoc.prems(3) True split_single [OF c] c
      by (subst (asm) session_obfuscate_rec.simps) (auto simp: comp_ok_def split: option.splits)
    then show ?thesis using obf_base_spec [OF assms(1)] True by (simp add: obf_name_def)
  next
    case False
    let ?d = "join_path ds"
    have ds: "\<forall>c \<in> set ds. comp_ok c" using snoc.prems by simp
    have d: "?d \<noteq> [slash] \<and> ?d \<noteq> []" using join_path_nonempty [OF False ds] by auto
    obtain d1 s1 where 1: "session_obfuscate_rec fuel ?d s = Some (d1, s1)"
      using snoc.prems(3) split_snoc [OF False ds c] d
      by (subst (asm) session_obfuscate_rec.simps) (auto split: option.splits)
    note IH = snoc.IH [OF False ds 1]
    let ?ds = "map (obf_name s1) ds"
    have ok1: "\<forall>c \<in> set ?ds. comp_ok c" using IH by (auto simp: obf_name_def)
    have d1: "d1 \<noteq> []" "last d1 \<noteq> slash"
      using IH join_path_nonempty [OF _ ok1] last_join_path [OF _ ok1] False by auto
    obtain n where 2: "obf_base fuel c s1 = Some (n, s')"
      using snoc.prems(3) split_snoc [OF False ds c] d 1 c
      by (subst (asm) session_obfuscate_rec.simps) (auto simp: comp_ok_def split: option.splits if_splits)
    have base: "obf_inv s'" "obf_le s1 s'" "apr_hash_get (obf_hash s') c = Some n" "comp_ok n"
      using obf_base_spec [OF _ 2] IH by auto
    have "r = d1 @ slash # n"
      using snoc.prems(3) split_snoc [OF False ds c] d 1 2 d1 comp_ok_ends [OF c] comp_ok_ends [OF base(4)]
      by (subst (asm) session_obfuscate_rec.simps) (auto simp: utils_path_join_def)
    moreover have same: "\<forall>c \<in> set ds. obf_name s' c = obf_name s1 c \<and> (\<exists>n. apr_hash_get (obf_hash s') c = Some n \<and> comp_ok n)"
      using IH base(2) by (fastforce simp: obf_name_def obf_le_def)
    then have "map (obf_name s') ds = ?ds" by simp
    ultimately have "r = join_path (map (obf_name s') (ds @ [c]))"
      using IH False base(3) obf_name_def [of s' c] by (simp add: join_path_snoc del: map_eq_conv)
    then show ?thesis using base IH same obf_le_trans by auto
  qed
qed simp

text \<open>With enough fuel, the obfuscation of a path returns, and the fuel makes no difference.\<close>

lemma session_obfuscate_rec_returns:
  assumes "obf_inv s" "cs \<noteq> []" "\<forall>c \<in> set cs. comp_ok c" "obf_budget (length cs + m) s"
  shows "\<exists>N r s'. (\<forall>fuel \<ge> N. session_obfuscate_rec fuel (join_path cs) s = Some (r, s')) \<and> obf_budget m s'"
  using assms(2-)
proof (induction cs arbitrary: m rule: rev_induct)
  case (snoc c ds)
  have c: "comp_ok c" using snoc.prems by simp
  show ?case
  proof (cases "ds = []")
    case True
    have eq: "session_obfuscate_rec fuel (join_path (ds @ [c])) s = obf_base fuel c s" for fuel
      using True split_single [OF c] c
      by (subst session_obfuscate_rec.simps) (auto simp: comp_ok_def split: option.splits)
    show ?thesis unfolding eq using obf_base_returns [OF assms(1), of m c] snoc.prems(3) True by simp
  next
    case False
    let ?d = "join_path ds"
    have ds: "\<forall>c \<in> set ds. comp_ok c" using snoc.prems by simp
    have d: "?d \<noteq> [slash] \<and> ?d \<noteq> []" using join_path_nonempty [OF False ds] by auto
    obtain N1 d1 s1 where 1: "\<And>fuel. N1 \<le> fuel \<Longrightarrow> session_obfuscate_rec fuel ?d s = Some (d1, s1)" "obf_budget (Suc m) s1"
      using snoc.IH [OF False ds, of "Suc m"] snoc.prems(3) by auto
    note spec = session_obfuscate_rec_spec [OF assms(1) False ds 1(1) [OF order_refl]]
    have ok1: "\<forall>c \<in> set (map (obf_name s1) ds). comp_ok c" using spec by (auto simp: obf_name_def)
    have d1: "d1 \<noteq> []" using spec join_path_nonempty [OF _ ok1] False by auto
    obtain N2 n s2 where 2: "\<And>fuel. N2 \<le> fuel \<Longrightarrow> obf_base fuel c s1 = Some (n, s2)" "obf_budget m s2"
      using obf_base_returns [OF _ 1(2), of c] spec by auto
    obtain p where p: "utils_path_join d1 n = Some p" using d1 by (fastforce simp: utils_path_join_def split: if_splits)
    have "session_obfuscate_rec fuel (join_path (ds @ [c])) s = Some (p, s2)" if "max N1 N2 \<le> fuel" for fuel
      using that split_snoc [OF False ds c] d 1(1) [of fuel] 2(1) [of fuel] d1 p comp_ok_ends [OF c]
      by (subst session_obfuscate_rec.simps) simp
    then show ?thesis using 2(2) by blast
  qed
qed simp

lemma join_path_inj:
  "\<forall>c \<in> set cs. comp_ok c \<Longrightarrow> \<forall>c \<in> set ds. comp_ok c \<Longrightarrow> join_path cs = join_path ds \<Longrightarrow> cs = ds"
proof (induction cs arbitrary: ds rule: rev_induct)
  case Nil
  then show ?case using join_path_nonempty [of ds] by (cases "ds = []") auto
next
  case (snoc c cs)
  obtain d ds' where ds: "ds = ds' @ [d]"
    using snoc.prems join_path_nonempty [of "cs @ [c]"] by (cases ds rule: rev_cases) auto
  show ?case
  proof (cases "cs = []"; cases "ds' = []")
    assume "cs = []" "ds' \<noteq> []"
    then have "slash \<in> set c" using snoc.prems(3) ds by (simp add: join_path_snoc)
    then show ?thesis using snoc.prems(1) by (simp add: comp_ok_def)
  next
    assume "cs \<noteq> []" "ds' = []"
    then have "slash \<in> set d" using snoc.prems(3) ds by (simp add: join_path_snoc) (metis in_set_conv_decomp)
    then show ?thesis using snoc.prems(2) ds by (simp add: comp_ok_def)
  next
    assume ne: "cs \<noteq> []" "ds' \<noteq> []"
    have "utils_path_split (join_path (cs @ [c])) = utils_path_split (join_path (ds' @ [d]))"
      using snoc.prems(3) ds by simp
    then have "join_path cs = join_path ds'" "c = d"
      using split_snoc [OF ne(1), of c] split_snoc [OF ne(2), of d] snoc.prems(1,2) ds by simp_all
    then show ?thesis using snoc.IH [of ds'] snoc.prems(1,2) ds by simp
  qed (use snoc.prems ds in simp)
qed

section \<open>Properties\<close>

lemma demo_session_inv: "obf_inv demo_session"
  by (auto simp: demo_session_def session_create_def obf_inv_def apr_hash_ok_def apr_hash_get_def comp_ok_def
      split: if_splits)

text \<open>A generator whose draws get longer and longer.\<close>

definition demo_rand :: "nat \<Rightarrow> nat" where
  "demo_rand n = fact (n + 20) - 1"

lemma demo_rand_mod: "0 < l \<Longrightarrow> l \<le> n + 20 \<Longrightarrow> demo_rand n mod l = l - 1"
proof -
  assume l: "0 < l" "l \<le> n + 20"
  then have "l dvd fact (n + 20)" by (intro dvd_fact) auto
  then obtain q where q: "fact (n + 20) = l * q" by blast
  then have "q > 0" by (cases q) (auto simp del: fact_Suc)
  then have "fact (n + 20) - 1 = (l - 1) + l * (q - 1)" using q l(1) by (cases q) auto
  then show ?thesis using l(1) unfolding demo_rand_def by (metis diff_less mod_less mod_mult_self2 zero_less_one)
qed

lemma demo_draws_length: "0 < l \<Longrightarrow> l \<le> p + 20 \<Longrightarrow> length (draws demo_rand l p k) = 2 + l + k"
proof (induction k arbitrary: l p)
  case 0
  then show ?case using demo_rand_mod [of l p] by simp
next
  case (Suc k)
  then show ?case using demo_rand_mod [of l p] by simp
qed

lemma demo_rand_fair: "rand_fair n demo_rand"
  unfolding rand_fair_def
proof (intro allI impI)
  fix p and T :: "string set" assume T: "finite T \<and> card T \<le> n"
  show "\<exists>k. draws demo_rand 8 p k \<notin> T"
  proof (cases "T = {}")
    case False
    let ?k = "Max (length ` T)"
    have "length t \<le> ?k" if "t \<in> T" for t using T that by simp
    moreover have "length (draws demo_rand 8 p ?k) > ?k" using demo_draws_length [of 8 p] by simp
    ultimately show ?thesis by (metis not_le)
  qed simp
qed

definition demo_fair_session :: session where
  "demo_fair_session = demo_session\<lparr>rand_src := demo_rand\<rparr>"

lemma demo_fair: "obf_inv demo_fair_session" "obf_budget n demo_fair_session" "sflags demo_fair_session AND SF_OBFUSCATE \<noteq> 0"
proof -
  show "obf_inv demo_fair_session" using demo_session_inv by (simp add: obf_inv_def demo_fair_session_def)
  show "obf_budget n demo_fair_session" by (simp add: obf_budget_def demo_rand_fair demo_fair_session_def)
  show "sflags demo_fair_session AND SF_OBFUSCATE \<noteq> 0" by (simp add: demo_fair_session_def demo_session_def SF_OBFUSCATE_def)
qed

lemma session_obfuscate_returns:
  assumes "obf_inv s" "sflags s AND SF_OBFUSCATE \<noteq> 0" "cs \<noteq> []" "\<forall>c \<in> set cs. comp_ok c" "obf_budget (length cs + m) s"
  obtains N s' where "\<And>fuel. N \<le> fuel \<Longrightarrow> session_obfuscate fuel s (Some (join_path cs)) = Some (Some (join_path (map (obf_name s') cs)), s')"
    "obf_inv s'" "obf_le s s'" "obf_budget m s'" "\<forall>c \<in> set cs. \<exists>n. apr_hash_get (obf_hash s') c = Some n \<and> comp_ok n"
proof -
  obtain N r s' where r: "\<And>fuel. N \<le> fuel \<Longrightarrow> session_obfuscate_rec fuel (join_path cs) s = Some (r, s')" "obf_budget m s'"
    using session_obfuscate_rec_returns [OF assms(1,3-5)] by blast
  note spec = session_obfuscate_rec_spec [OF assms(1,3,4) r(1) [OF order_refl]]
  show thesis
    by (rule that [of N s']) (use spec r assms(2) in \<open>auto simp: session_obfuscate_def\<close>)
qed

text \<open>
  C17. Obfuscation renames path components consistently: in a session where it is on, obfuscating a
  relative path ends and gives the path of the new names of its components, names given before stay, and
  no two components ever share a name. The random generator must come up with more names than are taken or asked for.
\<close>

theorem session_obfuscate_consistent:
  assumes "obf_inv s" "sflags s AND SF_OBFUSCATE \<noteq> 0" "cs \<noteq> []" "\<forall>c \<in> set cs. comp_ok c"
    "rand_fair (card (taken s) + length cs) (rand_src s)"
  shows "\<exists>N s'. (\<forall>fuel \<ge> N. session_obfuscate fuel s (Some (join_path cs)) = Some (Some (join_path (map (obf_name s') cs)), s')) \<and>
    obf_inv s' \<and> obf_le s s' \<and> inj_on (obf_name s') {c. apr_hash_get (obf_hash s') c \<noteq> None} \<and>
    (\<forall>c \<in> set cs. apr_hash_get (obf_hash s') c \<noteq> None \<and> comp_ok (obf_name s' c))"
proof -
  have budget: "obf_budget (length cs + 0) s" using assms(5) by (simp add: obf_budget_def)
  obtain N s' where r: "\<And>fuel. N \<le> fuel \<Longrightarrow> session_obfuscate fuel s (Some (join_path cs)) = Some (Some (join_path (map (obf_name s') cs)), s')"
    "obf_inv s'" "obf_le s s'" "\<forall>c \<in> set cs. \<exists>n. apr_hash_get (obf_hash s') c = Some n \<and> comp_ok n"
    using that by (rule session_obfuscate_returns [OF assms(1-4) budget])
  then have "inj_on (obf_name s') {c. apr_hash_get (obf_hash s') c \<noteq> None}"
    by (intro inj_onI) (auto simp: obf_name_def obf_inv_def)
  moreover have "\<forall>c \<in> set cs. apr_hash_get (obf_hash s') c \<noteq> None \<and> comp_ok (obf_name s' c)"
    using r(4) by (auto simp: obf_name_def)
  ultimately show ?thesis using r(1-3) by blast
qed

theorem session_obfuscate_consistent_witness:
  "\<exists>N n m s'. (\<forall>fuel \<ge> N. session_obfuscate fuel demo_fair_session (Some ''a/b/a'') = Some (Some (n @ ''/'' @ m @ ''/'' @ n), s')) \<and>
     n \<noteq> m"
proof -
  have ok: "\<forall>c \<in> set [''a'', ''b'', ''a'']. comp_ok c" "[''a'', ''b'', ''a''] \<noteq> []" by (simp_all add: comp_ok_def)
  obtain N s' where
    r: "\<forall>fuel \<ge> N. session_obfuscate fuel demo_fair_session (Some (join_path [''a'', ''b'', ''a''])) =
        Some (Some (join_path (map (obf_name s') [''a'', ''b'', ''a''])), s')"
    and i: "inj_on (obf_name s') {c. apr_hash_get (obf_hash s') c \<noteq> None}"
      "\<forall>c \<in> set [''a'', ''b'', ''a'']. apr_hash_get (obf_hash s') c \<noteq> None \<and> comp_ok (obf_name s' c)"
    using session_obfuscate_consistent [OF demo_fair(1,3) ok(2,1) demo_fair(2) [unfolded obf_budget_def]] by blast
  have "obf_name s' ''a'' \<noteq> obf_name s' ''b''" using i by (auto simp: inj_on_def)
  then show ?thesis
    using r by (intro exI [of _ N] exI [of _ "obf_name s' ''a''"] exI [of _ "obf_name s' ''b''"] exI [of _ s']) simp
qed

text \<open>
  C16. Two relative paths that are obfuscated one after the other, each of which ends, get the same obfuscated path only if
  they are the same path. The random generator must come up with more names than are taken or asked for.
\<close>

theorem session_obfuscate_injective:
  assumes "obf_inv s" "sflags s AND SF_OBFUSCATE \<noteq> 0" "cs \<noteq> []" "ds \<noteq> []"
    "\<forall>c \<in> set cs. comp_ok c" "\<forall>d \<in> set ds. comp_ok d"
    "rand_fair (card (taken s) + length cs + length ds) (rand_src s)"
  shows "\<exists>N p s1 q s2. (\<forall>fuel \<ge> N. session_obfuscate fuel s (Some (join_path cs)) = Some (Some p, s1) \<and>
      session_obfuscate fuel s1 (Some (join_path ds)) = Some (Some q, s2)) \<and> (p = q \<longleftrightarrow> cs = ds)"
proof -
  have budget: "obf_budget (length cs + length ds) s" using assms(7) by (simp add: obf_budget_def add.assoc)
  obtain N1 s1 where 1: "\<And>fuel. N1 \<le> fuel \<Longrightarrow> session_obfuscate fuel s (Some (join_path cs)) = Some (Some (join_path (map (obf_name s1) cs)), s1)"
    "obf_inv s1" "obf_le s s1" "obf_budget (length ds) s1" "\<forall>c \<in> set cs. \<exists>n. apr_hash_get (obf_hash s1) c = Some n \<and> comp_ok n"
    using that by (rule session_obfuscate_returns [OF assms(1-3,5) budget])
  have on: "sflags s1 AND SF_OBFUSCATE \<noteq> 0" using 1(3) assms(2) by (simp add: obf_le_def)
  have budget1: "obf_budget (length ds + 0) s1" using 1(4) by simp
  obtain N2 s2 where 2: "\<And>fuel. N2 \<le> fuel \<Longrightarrow> session_obfuscate fuel s1 (Some (join_path ds)) = Some (Some (join_path (map (obf_name s2) ds)), s2)"
    "obf_inv s2" "obf_le s1 s2" "\<forall>c \<in> set ds. \<exists>n. apr_hash_get (obf_hash s2) c = Some n \<and> comp_ok n"
    using that by (rule session_obfuscate_returns [OF 1(2) on assms(4,6) budget1])
  have named: "\<forall>c \<in> set cs \<union> set ds. \<exists>n. apr_hash_get (obf_hash s2) c = Some n \<and> comp_ok n"
    using 1(5) 2(3,4) by (fastforce simp: obf_le_def)
  have same: "map (obf_name s1) cs = map (obf_name s2) cs" using 1(5) 2(3) by (fastforce simp: obf_name_def obf_le_def)
  have name: "comp_ok (obf_name s2 c)" if "c \<in> set cs \<union> set ds" for c using bspec [OF named that] by (auto simp: obf_name_def)
  have ok: "\<forall>c \<in> set (map (obf_name s2) cs). comp_ok c" "\<forall>c \<in> set (map (obf_name s2) ds). comp_ok c"
    using name by auto
  have "inj_on (obf_name s2) (set cs \<union> set ds)"
  proof (rule inj_onI)
    fix c d assume c: "c \<in> set cs \<union> set ds" and d: "d \<in> set cs \<union> set ds" and eq: "obf_name s2 c = obf_name s2 d"
    obtain n m where "apr_hash_get (obf_hash s2) c = Some n" "apr_hash_get (obf_hash s2) d = Some m"
      using bspec [OF named c] bspec [OF named d] by blast
    then show "c = d" using eq 2(2) by (auto simp: obf_name_def obf_inv_def)
  qed
  then have "join_path (map (obf_name s2) cs) = join_path (map (obf_name s2) ds) \<longleftrightarrow> cs = ds"
    using join_path_inj [OF ok] inj_on_map_eq_map by blast
  then show ?thesis using 1(1) 2(1) unfolding same
    by (intro exI [of _ "max N1 N2"] exI [of _ "join_path (map (obf_name s2) cs)"] exI [of _ s1]
        exI [of _ "join_path (map (obf_name s2) ds)"] exI [of _ s2]) simp
qed

theorem session_obfuscate_injective_witness:
  "\<exists>N p s1 q s2. (\<forall>fuel \<ge> N. session_obfuscate fuel demo_fair_session (Some ''a/x'') = Some (Some p, s1) \<and>
     session_obfuscate fuel s1 (Some ''c'') = Some (Some q, s2)) \<and> p \<noteq> q"
proof -
  have "\<exists>N p s1 q s2. (\<forall>fuel \<ge> N. session_obfuscate fuel demo_fair_session (Some (join_path [''a'', ''x''])) = Some (Some p, s1) \<and>
      session_obfuscate fuel s1 (Some (join_path [''c''])) = Some (Some q, s2)) \<and> (p = q \<longleftrightarrow> [''a'', ''x''] = [''c''])"
    by (rule session_obfuscate_injective [OF demo_fair(1,3)]) (simp_all add: comp_ok_def demo_fair_session_def demo_rand_fair)
  then show ?thesis by simp
qed

section \<open>Opening a session\<close>

text \<open>What the library documents: the repository root is an ancestor of the URL.\<close>

definition root_of :: "string \<Rightarrow> string \<Rightarrow> bool" where
  "root_of root' eu \<longleftrightarrow> eu = root' \<or> starts_with eu (root' @ [slash])"

definition demo_setup :: svn_setup where
  "demo_setup =
     \<lparr>svn_path_canonicalize = (\<lambda>p. p), svn_path_uri_encode = (\<lambda>p. p), svn_fs_initialize = True,
      svn_ra_initialize = True, svn_config_ensure = True, svn_client_create_context = True,
      svn_config_get_config = True, svn_utf_cstring_to_utf8 = Some,
      svn_cmdline_setup_auth_baton = (\<lambda>_ _ _ _ _. True), svn_client_open_ra_session = (\<lambda>_. True),
      svn_ra_get_repos_root = Some ''file:///r''\<rparr>"

definition setup_ok :: "svn_setup \<Rightarrow> session \<Rightarrow> string \<Rightarrow> bool" where
  "setup_ok svn s eu \<longleftrightarrow>
     svn_fs_initialize svn \<and> svn_ra_initialize svn \<and> svn_config_ensure svn \<and> svn_client_create_context svn \<and>
     svn_config_get_config svn \<and>
     (case session_config_dir svn s of
        None \<Rightarrow> False
      | Some dir \<Rightarrow> svn_cmdline_setup_auth_baton svn (sflags s AND SF_NON_INTERACTIVE \<noteq> 0) (username s) (password s) dir
                      (sflags s AND SF_NO_AUTH_CACHE \<noteq> 0)) \<and>
     svn_client_open_ra_session svn eu \<and> svn_ra_get_repos_root svn \<noteq> None"

lemma session_config_dir_upd [simp]: "session_config_dir svn (s\<lparr>encoded_url := e\<rparr>) = session_config_dir svn s"
  by (simp add: session_config_dir_def)

lemma session_open_ok:
  assumes "url s = Some u" "eu = svn_path_uri_encode svn (svn_path_canonicalize svn u)" "setup_ok svn s eu"
    "svn_ra_get_repos_root svn = Some root'"
  shows "session_open svn fuel s =
    map_option (Pair 0) (session_set_prefix fuel (s\<lparr>encoded_url := Some eu, ses_root := Some root'\<rparr>) eu root')"
  using assms by (auto simp: session_open_def setup_ok_def Let_def split: option.splits)

lemma session_open_failed:
  assumes "url s = Some u" "eu = svn_path_uri_encode svn (svn_path_canonicalize svn u)" "\<not> setup_ok svn s eu"
  shows "session_open svn fuel s = Some (1, s\<lparr>encoded_url := Some eu\<rparr>)"
  using assms by (auto simp: session_open_def setup_ok_def Let_def split: option.splits)

lemma session_set_prefix_plain:
  assumes "root_of root' eu" "sflags s AND SF_OBFUSCATE = 0"
  shows "\<exists>p. session_set_prefix fuel s eu root' = Some (s\<lparr>prefix := p\<rparr>) \<and>
    (eu = root' \<and> p = [] \<or> eu = root' @ slash # p)"
proof (cases "eu = root'")
  case False
  then obtain p where "eu = (root' @ [slash]) @ p"
    using assms(1) by (auto simp: root_of_def starts_with_iff)
  then show ?thesis using assms(2) False by (simp add: session_set_prefix_def session_obfuscate_def)
qed (use assms in \<open>simp add: session_set_prefix_def session_obfuscate_def\<close>)

text \<open>
  C25. Opening a session fails with status 1 exactly when one of the calls it makes fails, and then
  leaves the session's prefix and root as they were. Otherwise, for a session without obfuscation
  and a repository root that contains the URL, it succeeds, and the prefix is the path of the URL
  below the root.
\<close>

theorem session_open_correct:
  assumes "url s = Some u" "eu = svn_path_uri_encode svn (svn_path_canonicalize svn u)"
    "\<And>r. svn_ra_get_repos_root svn = Some r \<Longrightarrow> root_of r eu" "sflags s AND SF_OBFUSCATE = 0"
  shows "if setup_ok svn s eu
    then \<exists>r p. svn_ra_get_repos_root svn = Some r \<and> (eu = r \<and> p = [] \<or> eu = r @ slash # p) \<and>
      session_open svn fuel s = Some (0, s\<lparr>encoded_url := Some eu, ses_root := Some r, prefix := p\<rparr>)
    else session_open svn fuel s = Some (1, s\<lparr>encoded_url := Some eu\<rparr>)"
proof (cases "setup_ok svn s eu")
  case True
  then obtain r where r: "svn_ra_get_repos_root svn = Some r" by (auto simp: setup_ok_def)
  let ?s = "s\<lparr>encoded_url := Some eu, ses_root := Some r\<rparr>"
  obtain p where p: "session_set_prefix fuel ?s eu r = Some (?s\<lparr>prefix := p\<rparr>)"
    "eu = r \<and> p = [] \<or> eu = r @ slash # p"
    using session_set_prefix_plain [of r eu ?s fuel] assms(3) [OF r] assms(4) by auto
  have "session_open svn fuel s = Some (0, ?s\<lparr>prefix := p\<rparr>)"
    using session_open_ok [OF assms(1,2) True r, of fuel] p(1) by simp
  then show ?thesis using True r p(2) by (metis (full_types))
qed (use session_open_failed [OF assms(1,2)] in simp)

theorem session_open_correct_witness:
  "map_option (\<lambda>(rc, s). (rc, prefix s))
     (session_open demo_setup 0 ((session_create (\<lambda>n. n))\<lparr>url := Some ''file:///r/trunk''\<rparr>)) = Some (0, ''trunk'')"
proof -
  let ?s = "(session_create (\<lambda>n. n))\<lparr>url := Some ''file:///r/trunk''\<rparr>"
  have "setup_ok demo_setup ?s ''file:///r/trunk''"
    by (simp add: setup_ok_def demo_setup_def session_config_dir_def session_create_def)
  then show ?thesis
    using session_open_correct [of ?s "''file:///r/trunk''" "''file:///r/trunk''" demo_setup 0]
    by (auto simp: demo_setup_def root_of_def session_create_def starts_with_def)
qed

end
