(* ===== verification/Log.thy ===== *)
theory Log
  imports Session
begin

text \<open>
  Log entries: \<open>src/log.c\<close>. The receiver turns what the server reports for a revision into a
  \<open>log_revision\<close>: changed paths outside of the dumped part are dropped, the others made relative
  to it. \<open>svn_ra_get_log\<close> is the argument \<open>get_log\<close>: for a start, an end and a limit (0 for none) the
  entries it passes to the receiver, \<open>None\<close> for an error. A variable that no callback has set is
  undefined: an operation that reads it returns \<open>None\<close>.
\<close>

section \<open>Definitions\<close>

record raw_log =
  rl_revision :: revnum
  rl_author :: "string option"
  rl_date :: "string option"
  rl_message :: "string option"
  rl_changed_paths :: "changed_path apr_hash option"

type_synonym get_log = "revnum \<Rightarrow> revnum \<Rightarrow> nat \<Rightarrow> raw_log list option"

text \<open>The test that skips an entry: \<open>key + 1\<close> must start with the prefix and go on with a slash.\<close>

definition log_skip :: "string \<Rightarrow> string \<Rightarrow> bool" where
  "log_skip pre key \<longleftrightarrow>
     length key < 1 \<or> \<not> starts_with (drop 1 key) pre \<or>
     (pre \<noteq> [] \<and> length (drop 1 key) > length pre \<and> drop 1 key ! length pre \<noteq> slash)"

definition log_local_key :: "string \<Rightarrow> string \<Rightarrow> string" where
  "log_local_key pre key =
     (let key = (if pre \<noteq> [] then drop (length pre + 1) key else key)
      in if key \<noteq> [] \<and> hd key = slash then drop 1 key else key)"

definition log_copyfrom :: "string option \<Rightarrow> string option" where
  "log_copyfrom cf = map_option (\<lambda>p. if p \<noteq> [] \<and> hd p = slash then drop 1 p else p) cf"

text \<open>One iteration over the reported paths.\<close>

definition log_receive_path ::
  "nat \<Rightarrow> string \<times> changed_path \<Rightarrow> changed_path apr_hash \<times> session \<Rightarrow> (changed_path apr_hash \<times> session) option" where
  "log_receive_path fuel e acc =
     (case (e, acc) of
        ((key, svalue), (h, s)) \<Rightarrow>
          (case session_obfuscate fuel s (Some key) of
             Some (Some key, s) \<Rightarrow>
               if log_skip (prefix s) key then Some (h, s)
               else (case session_obfuscate fuel s (log_copyfrom (cp_copyfrom_path svalue)) of
                       None \<Rightarrow> None
                     | Some (cf, s) \<Rightarrow>
                         Some (apr_hash_set h (log_local_key (prefix s) key) (Some (svalue\<lparr>cp_copyfrom_path := cf\<rparr>)), s))
           | _ \<Rightarrow> None))"

fun log_receive_paths ::
  "nat \<Rightarrow> changed_path apr_hash \<Rightarrow> changed_path apr_hash \<times> session \<Rightarrow> (changed_path apr_hash \<times> session) option" where
  "log_receive_paths fuel [] acc = Some acc"
| "log_receive_paths fuel (e # es) acc =
     (case log_receive_path fuel e acc of None \<Rightarrow> None | Some acc' \<Rightarrow> log_receive_paths fuel es acc')"

definition log_receiver :: "nat \<Rightarrow> session \<Rightarrow> raw_log \<Rightarrow> (log_revision \<times> session) option" where
  "log_receiver fuel s rl =
     (case session_obfuscate_once fuel s (rl_author rl) of
        None \<Rightarrow> None
      | Some (author, s) \<Rightarrow>
          (case session_obfuscate_once fuel s (rl_message rl) of
             None \<Rightarrow> None
           | Some (message, s) \<Rightarrow>
               (case log_receive_paths fuel (case rl_changed_paths rl of None \<Rightarrow> [] | Some h \<Rightarrow> h) ([], s) of
                  None \<Rightarrow> None
                | Some (h, s) \<Rightarrow>
                    Some (\<lparr>lr_revision = rl_revision rl, lr_author = author, lr_date = rl_date rl,
                           lr_message = message, lr_changed_paths = Some h\<rparr>, s))))"

fun log_receiver_list :: "nat \<Rightarrow> raw_log list \<Rightarrow> log_revision list \<Rightarrow> session \<Rightarrow> (log_revision list \<times> session) option" where
  "log_receiver_list fuel [] logs s = Some (logs, s)"
| "log_receiver_list fuel (rl # rls) logs s =
     (case log_receiver fuel s rl of
        None \<Rightarrow> None
      | Some (l, s) \<Rightarrow> log_receiver_list fuel rls (logs @ [l]) s)"

text \<open>\<open>log_receiver_revnum\<close> keeps the last revision it is called with.\<close>

definition log_receiver_revnum :: "raw_log list \<Rightarrow> revnum option \<Rightarrow> revnum option" where
  "log_receiver_revnum rls junk = (if rls = [] then junk else Some (rl_revision (last rls)))"

definition log_get_range :: "get_log \<Rightarrow> revnum \<Rightarrow> revnum \<Rightarrow> (int \<times> revnum \<times> revnum) option" where
  "log_get_range get_log start end' =
     (case get_log start end' 1 of
        None \<Rightarrow> Some (1, start, end')
      | Some rls \<Rightarrow>
          (case log_receiver_revnum rls None of
             None \<Rightarrow> None
           | Some start' \<Rightarrow>
               (case get_log end' start' 1 of
                  None \<Rightarrow> Some (1, start', end')
                | Some rls' \<Rightarrow> Some (0, start', the (log_receiver_revnum rls' (Some start'))))))"

definition log_fetch_single ::
  "get_log \<Rightarrow> nat \<Rightarrow> session \<Rightarrow> revnum \<Rightarrow> revnum \<Rightarrow> (int \<times> log_revision option \<times> session) option" where
  "log_fetch_single get_log fuel s r end' =
     (case get_log r end' 1 of
        None \<Rightarrow> Some (1, None, s)
      | Some rls \<Rightarrow>
          (case log_receiver_list fuel rls [] s of
             None \<Rightarrow> None
           | Some (ls, s) \<Rightarrow> if ls = [] then None else Some (0, Some (last ls), s)))"

definition log_fetch_all ::
  "get_log \<Rightarrow> nat \<Rightarrow> session \<Rightarrow> revnum \<Rightarrow> revnum \<Rightarrow> log_revision list \<Rightarrow> (int \<times> log_revision list \<times> session) option" where
  "log_fetch_all get_log fuel s start end' logs =
     (case get_log start end' 0 of
        None \<Rightarrow> Some (1, logs, s)
      | Some rls \<Rightarrow> map_option (\<lambda>(ls, s). (0, ls, s)) (log_receiver_list fuel rls logs s))"

section \<open>What the receiver promises\<close>

text \<open>A path below the repository root seen from the dumped part: the part itself is the empty
  path, paths below it lose the prefix and the slash, others are not seen.\<close>

definition local_path :: "string \<Rightarrow> string \<Rightarrow> string option" where
  "local_path pre p =
     (if pre = [] then Some p
      else if p = pre then Some []
      else if starts_with p (pre @ [slash]) then Some (drop (length pre + 1) p)
      else None)"

definition log_local :: "string \<Rightarrow> string \<times> changed_path \<Rightarrow> (string \<times> changed_path) option" where
  "log_local pre e =
     map_option (\<lambda>k. (k, (snd e)\<lparr>cp_copyfrom_path := log_copyfrom (cp_copyfrom_path (snd e))\<rparr>))
       (local_path pre (drop 1 (fst e)))"

text \<open>Absolute paths as the server reports them: no trailing slash.\<close>

definition abs_path_ok :: "string \<Rightarrow> bool" where
  "abs_path_ok key \<longleftrightarrow> key \<noteq> [] \<and> hd key = slash \<and> (key = [slash] \<or> last key \<noteq> slash)"

definition demo_raw :: raw_log where
  "demo_raw = \<lparr>rl_revision = 5, rl_author = Some ''me'', rl_date = None, rl_message = Some ''m'',
     rl_changed_paths = Some
       [(''/proj/trunk'', \<lparr>cp_action = CHR ''A'', cp_copyfrom_path = Some ''/proj/old'', cp_copyfrom_rev = 3\<rparr>),
        (''/project2/x'', \<lparr>cp_action = CHR ''M'', cp_copyfrom_path = None, cp_copyfrom_rev = 0\<rparr>),
        (''/proj'', \<lparr>cp_action = CHR ''M'', cp_copyfrom_path = None, cp_copyfrom_rev = 0\<rparr>)]\<rparr>"

definition demo_log_session :: session where
  "demo_log_session = (session_create (\<lambda>n. n))\<lparr>prefix := ''proj''\<rparr>"

section \<open>Facts\<close>

lemma log_skip_local:
  assumes "key \<noteq> []" "hd key = slash"
  shows "(if log_skip pre key then None else Some (log_local_key pre key)) = local_path pre (drop 1 key)"
proof -
  obtain p where key: "key = slash # p" using assms by (cases key) auto
  show ?thesis
  proof (cases "starts_with p pre")
    case True
    then obtain q where p: "p = pre @ q" by (auto simp: starts_with_iff)
    then show ?thesis
      by (cases q) (auto simp: key log_skip_def log_local_key_def local_path_def starts_with_iff)
  next
    case False
    then show ?thesis by (auto simp: key log_skip_def local_path_def starts_with_iff)
  qed
qed

lemma apr_hash_put_new: "k \<notin> set (map fst h) \<Longrightarrow> apr_hash_set h k (Some v) = h @ [(k, v)]"
  by (induction h) (auto simp: apr_hash_set_def)

lemma log_receive_paths_plain:
  assumes "sflags s AND SF_OBFUSCATE = 0" "\<forall>(key, v) \<in> set es. key \<noteq> [] \<and> hd key = slash"
    "apr_hash_ok (h @ List.map_filter (log_local (prefix s)) es)"
  shows "log_receive_paths fuel es (h, s) = Some (h @ List.map_filter (log_local (prefix s)) es, s)"
  using assms(2,3)
proof (induction es arbitrary: h)
  case (Cons e es)
  obtain key v where e: "e = (key, v)" by fastforce
  have key: "key \<noteq> []" "hd key = slash" using Cons.prems(1) e by auto
  note loc = log_skip_local [OF key, of "prefix s"]
  show ?case
  proof (cases "local_path (prefix s) (drop 1 key)")
    case None
    then have "log_skip (prefix s) key" using loc by (metis option.distinct(1))
    then show ?thesis
      using Cons assms(1) None
      by (simp add: e log_receive_path_def session_obfuscate_def log_local_def map_filter_simps)
  next
    case (Some k)
    then have k: "\<not> log_skip (prefix s) key" "log_local_key (prefix s) key = k"
      using loc by (metis option.distinct(1), metis option.distinct(1) option.inject)
    let ?v = "v\<lparr>cp_copyfrom_path := log_copyfrom (cp_copyfrom_path v)\<rparr>"
    have l: "log_local (prefix s) e = Some (k, ?v)" using Some by (simp add: e log_local_def)
    then have "k \<notin> set (map fst h)" using Cons.prems(2) by (auto simp: apr_hash_ok_def map_filter_simps)
    then have "apr_hash_set h k (Some ?v) = h @ [(k, ?v)]" by (rule apr_hash_put_new)
    then have "log_receive_path fuel e (h, s) = Some (h @ [(k, ?v)], s)"
      using k assms(1) by (cases "log_copyfrom (cp_copyfrom_path v)")
        (auto simp: e log_receive_path_def session_obfuscate_def)
    then show ?thesis
      using Cons.IH [of "h @ [(k, ?v)]"] Cons.prems l by (simp add: map_filter_simps)
  qed
qed (simp add: map_filter_simps)

lemma local_path_inj:
  assumes "abs_path_ok k1" "abs_path_ok k2" "local_path pre (drop 1 k1) = Some l" "local_path pre (drop 1 k2) = Some l"
  shows "k1 = k2"
proof -
  have *: "drop 1 k = (if pre = [] then l else if l = [] then pre else pre @ slash # l)"
    if k: "abs_path_ok k" and l: "local_path pre (drop 1 k) = Some l" for k
  proof (cases "pre = []")
    case True
    then show ?thesis using l by (simp add: local_path_def)
  next
    case False
    obtain p where p: "k = slash # p" using k by (cases k) (auto simp: abs_path_ok_def)
    have "p \<noteq> pre @ [slash]" using k p by (auto simp: abs_path_ok_def)
    then show ?thesis
      using l False p by (auto simp: local_path_def starts_with_iff split: if_splits)
  qed
  have "k = slash # drop 1 k" if "abs_path_ok k" for k using that by (cases k) (auto simp: abs_path_ok_def)
  then show ?thesis using * [OF assms(1,3)] * [OF assms(2,4)] assms(1,2) by metis
qed

lemma log_local_distinct:
  assumes "apr_hash_ok es" "\<forall>(key, v) \<in> set es. abs_path_ok key"
  shows "apr_hash_ok (List.map_filter (log_local pre) es)"
  using assms
proof (induction es)
  case (Cons e es)
  then have IH: "apr_hash_ok (List.map_filter (log_local pre) es)" by (simp add: apr_hash_ok_def)
  show ?case
  proof (cases "log_local pre e")
    case (Some r)
    then have r: "local_path pre (drop 1 (fst e)) = Some (fst r)" by (auto simp: log_local_def)
    have "fst r \<notin> set (map fst (List.map_filter (log_local pre) es))"
    proof
      assume "fst r \<in> set (map fst (List.map_filter (log_local pre) es))"
      then obtain f where f: "f \<in> set es" "local_path pre (drop 1 (fst f)) = Some (fst r)"
        by (fastforce simp: List.map_filter_def log_local_def)
      have "abs_path_ok (fst e)" "abs_path_ok (fst f)" using Cons.prems(2) f(1) by (auto simp: case_prod_beta)
      then have "fst e = fst f" using local_path_inj [OF _ _ r f(2)] by blast
      then show False using Cons.prems(1) f(1) by (auto simp: apr_hash_ok_def)
    qed
    then show ?thesis using IH Some by (simp add: map_filter_simps apr_hash_ok_def)
  qed (use IH in \<open>simp add: map_filter_simps\<close>)
qed (simp add: map_filter_simps apr_hash_ok_def)

lemma log_receiver_list_revisions:
  "log_receiver_list fuel rls logs s = Some (ls, s') \<Longrightarrow> map lr_revision ls = map lr_revision logs @ map rl_revision rls"
proof (induction rls arbitrary: logs s)
  case (Cons rl rls)
  then obtain l s1 where "log_receiver fuel s rl = Some (l, s1)" "log_receiver_list fuel rls (logs @ [l]) s1 = Some (ls, s')"
    by (auto split: option.splits)
  moreover then have "lr_revision l = rl_revision rl" by (auto simp: log_receiver_def split: option.splits)
  ultimately show ?case using Cons.IH by fastforce
qed simp

section \<open>Properties\<close>

text \<open>
  C18. The receiver keeps exactly the changed paths of the dumped part, seen from it: with prefix
  \<open>proj\<close>, \<open>/proj/trunk\<close> becomes \<open>trunk\<close>, \<open>/proj\<close> becomes the empty path, and \<open>/project2/x\<close> is
  dropped. Actions and copy source revisions are kept, copy source paths lose their leading slash,
  and no two paths fall together.
\<close>

theorem log_receiver_exact:
  assumes "sflags s AND SF_OBFUSCATE = 0" "rl_changed_paths rl = Some es" "apr_hash_ok es"
    "\<forall>(key, v) \<in> set es. abs_path_ok key"
  shows "log_receiver fuel s rl =
    Some (\<lparr>lr_revision = rl_revision rl, lr_author = rl_author rl, lr_date = rl_date rl, lr_message = rl_message rl,
           lr_changed_paths = Some (List.map_filter (log_local (prefix s)) es)\<rparr>, s)"
proof -
  have "\<forall>(key, v) \<in> set es. key \<noteq> [] \<and> hd key = slash" using assms(4) by (auto simp: abs_path_ok_def)
  then have "log_receive_paths fuel es ([], s) = Some (List.map_filter (log_local (prefix s)) es, s)"
    using log_receive_paths_plain [OF assms(1), of es "[]"] log_local_distinct [OF assms(3,4)] by simp
  then show ?thesis
    using assms(1,2) by (cases "rl_author rl"; cases "rl_message rl")
      (simp_all add: log_receiver_def session_obfuscate_once_def)
qed

theorem log_receiver_exact_witness:
  "map_option (\<lambda>(l, s). map_option (map fst) (lr_changed_paths l)) (log_receiver 0 demo_log_session demo_raw) =
     Some (Some [''trunk'', ''''])"
proof -
  have "sflags demo_log_session AND SF_OBFUSCATE = 0" by code_simp
  then show ?thesis
    using log_receiver_exact [of demo_log_session demo_raw]
    by (simp add: demo_raw_def demo_log_session_def apr_hash_ok_def abs_path_ok_def map_filter_simps log_local_def
        local_path_def starts_with_def)
qed

text \<open>
  Fetching all logs appends one entry per reported revision, in the order of the server, with
  its revision number, whatever is obfuscated.
\<close>

theorem log_fetch_all_revisions:
  assumes "get_log start end' 0 = Some rls" "log_fetch_all get_log fuel s start end' logs = Some (st, ls, s')"
  shows "st = 0 \<and> map lr_revision ls = map lr_revision logs @ map rl_revision rls"
  using assms log_receiver_list_revisions [of fuel rls logs s ls s'] by (auto simp: log_fetch_all_def)

theorem log_fetch_all_revisions_witness:
  "\<exists>ls s'. log_fetch_all (\<lambda>_ _ _. Some [demo_raw, demo_raw]) 0 demo_log_session 0 9 [] = Some (0, ls, s') \<and>
     map lr_revision ls = [5, 5]"
proof -
  have "log_fetch_all (\<lambda>_ _ _. Some [demo_raw, demo_raw]) 0 demo_log_session 0 9 [] \<noteq> None" by code_simp
  then obtain st ls s' where "log_fetch_all (\<lambda>_ _ _. Some [demo_raw, demo_raw]) 0 demo_log_session 0 9 [] = Some (st, ls, s')"
    by auto
  then show ?thesis
    using log_fetch_all_revisions [of "\<lambda>_ _ _. Some [demo_raw, demo_raw]" 0 9 "[demo_raw, demo_raw]" 0 demo_log_session "[]"]
    by (simp add: demo_raw_def)
qed

end
