(* ===== verification/Delta.thy ===== *)
theory Delta
  imports Path_Repo Property Log
begin

text \<open>
  The delta editor of \<open>src/delta.c\<close>: it receives the difference between two revisions as calls of
  the Subversion library, collects it in a tree of nodes and, when the edit is closed, prints the
  node records of the dump.

  The record \<open>de\<close> is the state the callbacks share: the editor baton of the source, the two static
  hashes, the node batons (a list; the address of a baton is its index), the temporary files and
  what has been printed so far. \<open>env\<close> holds what the source takes from elsewhere: functions of the
  Subversion library, the compressor, the outcome of allocations and of \<open>mkstemp\<close>, and the
  contents of two variables the source leaves uninitialised. An operation returns \<open>None\<close> where the
  source would dereference a null or dangling pointer; otherwise the error, if any, with the state.
\<close>

unbundle bit_operations_syntax

section \<open>Definitions\<close>

subsection \<open>State\<close>

datatype cp_info = CPI_NONE | CPI_COPY | CPI_FAILED | CPI_FAILED_OUTSIDE

primrec cpi_val :: "cp_info \<Rightarrow> u8" where
  "cpi_val CPI_NONE = 0x01"
| "cpi_val CPI_COPY = 0x02"
| "cpi_val CPI_FAILED = 0x04"
| "cpi_val CPI_FAILED_OUTSIDE = 0x14"

definition cpi_and :: "cp_info \<Rightarrow> cp_info \<Rightarrow> bool" where
  "cpi_and a b \<longleftrightarrow> cpi_val a AND cpi_val b \<noteq> 0"

record node =
  n_path :: string
  n_filename :: "string option"
  n_old_filename :: "string option"
  n_delta_filename :: "string option"
  n_action :: char
  n_kind :: node_kind
  n_properties :: props
  n_del_properties :: "unit apr_hash"
  n_md5sum :: string
  n_copyfrom_path :: "string option"
  n_copyfrom_revision :: revnum
  n_copyfrom_rev_local :: revnum
  n_cp_info :: cp_info
  n_applied_delta :: bool
  n_dump_needed :: bool
  n_props_changed :: bool
  n_parent :: "nat option"
  n_children :: "nat list"

record env =
  svn_path_dirname :: "string \<Rightarrow> string"
  svn_prop_regular :: "string \<Rightarrow> bool"
  svn_svndiff :: "string \<Rightarrow> string \<Rightarrow> string"
  apr_md5 :: "string \<Rightarrow> string"
  md5_to_cstring :: "string \<Rightarrow> string"
  mkstemp_ok :: "nat \<Rightarrow> bool"
  env_codec :: codec
  env_mem :: "nat \<Rightarrow> bool"
  env_fuel :: nat
  junk_kind :: node_kind
  junk_name :: "string option"
  env_stale :: "freed \<Rightarrow> string option"
  env_memalign :: memalign
  env_snappy_init :: "nat \<Rightarrow> bool"

record de =
  de_session :: session
  de_opts :: dump_options
  de_logs :: "log_revision list"
  de_log :: log_revision
  de_dumped :: "nat apr_hash"
  de_local_revnum :: revnum
  de_root :: "nat option"
  de_nodes :: "node list"
  de_repo :: path_repo
  de_store :: property_storage
  hashes_created :: bool
  delta_hash :: "string rhash"
  md5_hash :: "string rhash"
  de_files :: "string \<Rightarrow> string option"
  de_tmp :: nat
  de_out :: string

datatype svn_error = SVN_NO_ERROR | SVN_ERROR

type_synonym de_res = "(svn_error \<times> de) option"

definition de_bind :: "de_res \<Rightarrow> (de \<Rightarrow> de_res) \<Rightarrow> de_res" where
  "de_bind r f =
     (case r of
        None \<Rightarrow> None
      | Some (e, d) \<Rightarrow> (if e = SVN_NO_ERROR then f d else Some (e, d)))"

definition de_print :: "string \<Rightarrow> de \<Rightarrow> de" where
  "de_print s d = d\<lparr>de_out := de_out d @ s\<rparr>"

definition upd_node :: "nat \<Rightarrow> (node \<Rightarrow> node) \<Rightarrow> de \<Rightarrow> de" where
  "upd_node i f d = d\<lparr>de_nodes := (de_nodes d)[i := f (de_nodes d ! i)]\<rparr>"

abbreviation nd :: "de \<Rightarrow> nat \<Rightarrow> node" where
  "nd d i \<equiv> de_nodes d ! i"

text \<open>\<open>apr_file_remove\<close>; \<open>utils_mkstemp\<close> makes a new empty file or fails.\<close>

definition file_remove :: "string \<Rightarrow> de \<Rightarrow> de" where
  "file_remove name d = d\<lparr>de_files := (de_files d)(name := None)\<rparr>"

definition mk_temp :: "env \<Rightarrow> string \<Rightarrow> de \<Rightarrow> string option \<times> de" where
  "mk_temp ev sub d =
     (let n = de_tmp d;
          name = (case temp_dir (de_opts d) of None \<Rightarrow> ''(null)'' | Some t \<Rightarrow> t) @ sub @ dec_nat n;
          d' = d\<lparr>de_tmp := n + 1\<rparr>
      in if \<not> mkstemp_ok ev n then (None, d') else (Some name, d'\<lparr>de_files := (de_files d')(name \<mapsto> [])\<rparr>))"

subsection \<open>Nodes\<close>

definition node_make :: "string \<Rightarrow> cp_info \<Rightarrow> nat option \<Rightarrow> node_kind \<Rightarrow> char \<Rightarrow> bool \<Rightarrow> node" where
  "node_make path cpi parent kind action needed =
     \<lparr>n_path = path, n_filename = None, n_old_filename = None, n_delta_filename = None, n_action = action,
      n_kind = kind, n_properties = [], n_del_properties = [], n_md5sum = replicate 16 nul,
      n_copyfrom_path = None, n_copyfrom_revision = 0, n_copyfrom_rev_local = 0, n_cp_info = cpi,
      n_applied_delta = False, n_dump_needed = needed, n_props_changed = False, n_parent = parent, n_children = []\<rparr>"

text \<open>The kind, the action and the dump flag are set by every caller right after the creation.\<close>

definition delta_create_node :: "string \<Rightarrow> nat \<Rightarrow> node_kind \<Rightarrow> char \<Rightarrow> bool \<Rightarrow> de \<Rightarrow> nat \<times> de" where
  "delta_create_node path parent kind action needed d =
     (let i = length (de_nodes d);
          node = node_make path (n_cp_info (nd d parent)) (Some parent) kind action needed
      in (i, upd_node parent (\<lambda>p. p\<lparr>n_children := n_children p @ [i]\<rparr>) (d\<lparr>de_nodes := de_nodes d @ [node]\<rparr>)))"

definition delta_create_node_no_parent :: "string \<Rightarrow> node_kind \<Rightarrow> char \<Rightarrow> bool \<Rightarrow> de \<Rightarrow> nat \<times> de" where
  "delta_create_node_no_parent path kind action needed d =
     (length (de_nodes d), d\<lparr>de_nodes := de_nodes d @ [node_make path CPI_NONE None kind action needed]\<rparr>)"

definition delta_mark_node :: "nat \<Rightarrow> de \<Rightarrow> de" where
  "delta_mark_node i d =
     (let n = nd d i;
          d1 = d\<lparr>de_dumped := apr_hash_set (de_dumped d) (n_path n) (Some i)\<rparr>;
          d2 = (if n_kind n = node_file then d1\<lparr>md5_hash := rhash_set (md5_hash d1) (n_path n) (Some (n_md5sum n))\<rparr> else d1)
      in upd_node i (\<lambda>n. n\<lparr>n_dump_needed := False\<rparr>) d2)"

text \<open>The case in which copy information of the log can be used as it is.\<close>

definition whole_repos :: "de \<Rightarrow> bool" where
  "whole_repos d \<longleftrightarrow> prefix (de_session d) = [] \<and> (opt_start (de_opts d) = 0 \<or> has_flag (de_opts d) DF_INCREMENTAL)"

definition delta_check_copy :: "nat \<Rightarrow> de \<Rightarrow> de" where
  "delta_check_copy i d =
     (let n = nd d i; opts = de_opts d
      in if n_cp_info n = CPI_COPY \<and> n_copyfrom_path n = None then d
         else if cpi_and (n_cp_info n) CPI_FAILED then d
         else (case n_copyfrom_path n of
                 None \<Rightarrow> upd_node i (\<lambda>n. n\<lparr>n_cp_info := CPI_NONE\<rparr>) d
               | Some cf \<Rightarrow>
                   if whole_repos d
                   then upd_node i (\<lambda>n. n\<lparr>n_copyfrom_rev_local := n_copyfrom_revision n, n_cp_info := CPI_COPY\<rparr>) d
                   else if (has_flag opts DF_INCREMENTAL \<or> opt_start opts \<le> n_copyfrom_revision n) \<and>
                           starts_with cf (prefix (de_session d))
                   then (let r = delta_get_local_copyfrom_rev (n_copyfrom_revision n) opts (de_logs d) (de_local_revnum d)
                         in if r > 0
                            then upd_node i (\<lambda>n. n\<lparr>n_copyfrom_rev_local := r, n_cp_info := CPI_COPY\<rparr>) d
                            else upd_node i (\<lambda>n. n\<lparr>n_cp_info := CPI_FAILED\<rparr>) d)
                   else upd_node i (\<lambda>n. n\<lparr>n_cp_info := CPI_FAILED_OUTSIDE\<rparr>) d))"

text \<open>A path relative to another: the bytes behind it, leading slashes skipped.\<close>

definition rel_path :: "string \<Rightarrow> string \<Rightarrow> string option" where
  "rel_path base path =
     (if length path < length base then None else Some (dropWhile (\<lambda>c. c = slash) (drop (length base) path)))"

definition set_action :: "nat \<Rightarrow> char \<Rightarrow> de \<Rightarrow> de" where
  "set_action i a d = upd_node i (\<lambda>n. n\<lparr>n_action := a\<rparr>) d"

text \<open>The first loop of \<open>delta_check_action\<close>: \<open>Inl True\<close> for a parent that is dumped instead of
  copied, \<open>Inr p\<close> for a copied parent, \<open>Inl False\<close> for neither.\<close>

fun action_parent :: "nat \<Rightarrow> de \<Rightarrow> nat option \<Rightarrow> (bool + nat) option" where
  "action_parent 0 d parent = None"
| "action_parent (Suc fuel) d parent =
     (case parent of
        None \<Rightarrow> Some (Inl False)
      | Some p \<Rightarrow>
          if n_cp_info (nd d p) = CPI_FAILED_OUTSIDE then Some (Inl True)
          else if n_cp_info (nd d p) \<noteq> CPI_COPY \<or> n_copyfrom_path (nd d p) = None
          then action_parent fuel d (n_parent (nd d p))
          else Some (Inr p))"

text \<open>An answer of the path repository: an error, or 'add' when the path is not there.\<close>

definition check_add :: "nat \<Rightarrow> de \<Rightarrow> int \<times> path_repo \<Rightarrow> de_res" where
  "check_add i d r =
     (let d' = d\<lparr>de_repo := snd r\<rparr>
      in if fst r < 0 then Some (SVN_ERROR, d')
         else Some (SVN_NO_ERROR, if fst r = 0 then set_action i CHR ''A'' d' else d'))"

definition check_replaced :: "env \<Rightarrow> nat \<Rightarrow> de \<Rightarrow> de_res" where
  "check_replaced ev i d =
     (let n = nd d i
      in if cpi_and (n_cp_info n) CPI_FAILED \<and> n_action n = CHR ''R''
         then (let ppath = svn_path_dirname ev (n_path n)
               in case rel_path ppath (n_path n) of
                    None \<Rightarrow> None
                  | Some rel \<Rightarrow>
                      check_add i d (path_repo_check_parent (env_codec ev) (de_repo d) ppath rel (de_local_revnum d - 1)))
         else Some (SVN_NO_ERROR, d))"

definition check_modified :: "env \<Rightarrow> nat \<Rightarrow> de \<Rightarrow> de_res" where
  "check_modified ev i d =
     (if n_action (nd d i) = CHR ''M'' \<and> de_local_revnum d > 0
      then check_add i d (path_repo_exists (env_codec ev) (de_repo d) (n_path (nd d i)) (de_local_revnum d - 1))
      else Some (SVN_NO_ERROR, d))"

definition check_root :: "nat \<Rightarrow> de \<Rightarrow> de" where
  "check_root i d =
     (if n_path (nd d i) = [slash] \<and> n_action (nd d i) = CHR ''A'' then set_action i CHR ''M'' d else d)"

definition check_action_rest :: "env \<Rightarrow> nat \<Rightarrow> de \<Rightarrow> de_res" where
  "check_action_rest ev i d =
     de_bind (check_replaced ev i d) (\<lambda>d1. de_bind (check_modified ev i d1) (\<lambda>d2. Some (SVN_NO_ERROR, check_root i d2)))"

definition check_copied :: "env \<Rightarrow> nat \<Rightarrow> nat \<Rightarrow> de \<Rightarrow> de_res" where
  "check_copied ev i p d =
     (case (delta_get_local_copyfrom_path (prefix (de_session d)) (the (n_copyfrom_path (nd d p))),
            rel_path (n_path (nd d p)) (n_path (nd d i))) of
        (Some cf, Some rel) \<Rightarrow>
          check_add i d (path_repo_check_parent (env_codec ev) (de_repo d) cf rel (n_copyfrom_rev_local (nd d p)))
      | _ \<Rightarrow> None)"

definition delta_check_action :: "env \<Rightarrow> nat \<Rightarrow> de \<Rightarrow> de_res" where
  "delta_check_action ev i d =
     (let n = nd d i
      in if n_action n \<noteq> CHR ''R'' \<and> n_action n \<noteq> CHR ''M'' then Some (SVN_NO_ERROR, d)
         else if whole_repos d then Some (SVN_NO_ERROR, d)
         else (case action_parent (Suc (length (de_nodes d))) d (n_parent n) of
                 None \<Rightarrow> None
               | Some (Inl outside) \<Rightarrow> check_action_rest ev i (if outside then set_action i CHR ''A'' d else d)
               | Some (Inr p) \<Rightarrow> check_copied ev i p d))"

declare action_parent.simps [simp del]

subsection \<open>Propagation of copies\<close>

fun copied_parent :: "nat \<Rightarrow> de \<Rightarrow> nat option \<Rightarrow> nat option option" where
  "copied_parent 0 d parent = None"
| "copied_parent (Suc fuel) d parent =
     (case parent of
        None \<Rightarrow> Some None
      | Some p \<Rightarrow> if n_copyfrom_path (nd d p) = None then copied_parent fuel d (n_parent (nd d p)) else Some (Some p))"

text \<open>
  The loop over the levels of \<open>check_path = before @ rest\<close>: the directory up to the next slash must
  have had the component behind it in the source revision. The answer is positive if all had.
\<close>

function propagate_loop :: "codec \<Rightarrow> path_repo \<Rightarrow> revnum \<Rightarrow> string \<Rightarrow> string \<Rightarrow> int \<times> path_repo" where
  "propagate_loop cdc repo revision before rest =
     (if slash \<notin> set rest then (1, repo)
      else let dir = before @ takeWhile (\<lambda>c. c \<noteq> slash) rest;
               rest' = drop 1 (dropWhile (\<lambda>c. c \<noteq> slash) rest);
               (check, repo') = path_repo_check_parent cdc repo dir (takeWhile (\<lambda>c. c \<noteq> slash) rest') revision
           in if check < 0 then (-1, repo')
              else if check = 0 then (0, repo')
              else propagate_loop cdc repo' revision (dir @ [slash]) rest')"
  by pat_completeness auto
termination
  by (relation "measure (\<lambda>(cdc, repo, revision, before, rest). length rest)") (simp, use behind_slash_less in auto)

declare propagate_loop.simps [simp del] copied_parent.simps [simp del]


definition propagate_to :: "env \<Rightarrow> nat \<Rightarrow> nat \<Rightarrow> de \<Rightarrow> de_res" where
  "propagate_to ev copied child d =
     (let cp = nd d copied
      in case delta_get_local_copyfrom_path (prefix (de_session d)) (the (n_copyfrom_path cp)) of
           None \<Rightarrow> Some (SVN_NO_ERROR, upd_node child (\<lambda>n. n\<lparr>n_cp_info := CPI_NONE\<rparr>) d)
         | Some path \<Rightarrow>
             (case rel_path (n_path cp) (n_path (nd d child)) of
                None \<Rightarrow> None
              | Some rel \<Rightarrow>
                  let revision = delta_get_local_copyfrom_rev (n_copyfrom_revision cp) (de_opts d) (de_logs d) (de_local_revnum d);
                      (check, repo) = propagate_loop (env_codec ev) (de_repo d) revision [] (path @ [slash] @ rel);
                      d' = d\<lparr>de_repo := repo\<rparr>
                  in if check < 0 then Some (SVN_ERROR, d')
                     else Some (SVN_NO_ERROR,
                            upd_node child (\<lambda>n. n\<lparr>n_cp_info := if check = 0 then CPI_NONE else CPI_COPY\<rparr>) d')))"

definition delta_propagate_copy :: "env \<Rightarrow> nat \<Rightarrow> nat \<Rightarrow> de \<Rightarrow> de_res" where
  "delta_propagate_copy ev parent child d =
     (let p = nd d parent
      in if n_cp_info p \<noteq> CPI_COPY
         then Some (SVN_NO_ERROR, upd_node child (\<lambda>n. n\<lparr>n_cp_info := n_cp_info p\<rparr>) d)
         else if \<not> starts_with (n_path (nd d child)) (n_path p) then Some (SVN_NO_ERROR, d)
         else (case copied_parent (Suc (length (de_nodes d))) d (Some parent) of
                 None \<Rightarrow> None
               | Some None \<Rightarrow> Some (SVN_NO_ERROR, upd_node child (\<lambda>n. n\<lparr>n_cp_info := n_cp_info p\<rparr>) d)
               | Some (Some copied) \<Rightarrow> propagate_to ev copied child d))"

subsection \<open>Printing a node\<close>

definition temp_name :: "de \<Rightarrow> string \<Rightarrow> string" where
  "temp_name d sub = (case temp_dir (de_opts d) of None \<Rightarrow> ''(null)'' | Some t \<Rightarrow> t) @ sub @ ''XXXXXX''"

text \<open>Opening a file for reading: it must have a name and exist.\<close>

definition file_read :: "de \<Rightarrow> string option \<Rightarrow> string option" where
  "file_read d name = (case name of None \<Rightarrow> None | Some f \<Rightarrow> de_files d f)"

definition delta_deltify_node :: "env \<Rightarrow> nat \<Rightarrow> de \<Rightarrow> de_res" where
  "delta_deltify_node ev i d =
     (case file_read d (n_filename (nd d i)) of
        None \<Rightarrow> Some (SVN_ERROR, d)
      | Some target \<Rightarrow>
          (case (if n_old_filename (nd d i) = None then Some [] else file_read d (n_old_filename (nd d i))) of
             None \<Rightarrow> Some (SVN_ERROR, d)
           | Some source \<Rightarrow>
               (case mk_temp ev ''/df/'' d of
                  (None, d1) \<Rightarrow>
                    Some (SVN_ERROR, upd_node i (\<lambda>n. n\<lparr>n_delta_filename := Some (temp_name d ''/df/'')\<rparr>) d1)
                | (Some name, d1) \<Rightarrow>
                    Some (SVN_NO_ERROR,
                      upd_node i (\<lambda>n. n\<lparr>n_delta_filename := Some name\<rparr>)
                        (d1\<lparr>de_files := (de_files d1)(name \<mapsto> svn_svndiff ev source target)\<rparr>)))))"

definition delta_cat_file :: "string option \<Rightarrow> de \<Rightarrow> de_res" where
  "delta_cat_file name d =
     (case file_read d name of
        None \<Rightarrow> Some (SVN_ERROR, d)
      | Some text' \<Rightarrow> Some (SVN_NO_ERROR, de_print text' d))"

definition header :: "string \<Rightarrow> string \<Rightarrow> string" where
  "header name val = name @ '': '' @ val @ nl"

definition user_path :: "dump_options \<Rightarrow> string \<Rightarrow> string" where
  "user_path opts path = (case opt_prefix opts of None \<Rightarrow> path | Some p \<Rightarrow> p @ path)"

text \<open>\<open>delta_dump_replace\<close> up to its call of \<open>delta_dump_node\<close>.\<close>

definition delta_dump_replace :: "nat \<Rightarrow> de \<Rightarrow> de" where
  "delta_dump_replace i d =
     upd_node i (\<lambda>n. n\<lparr>n_cp_info := CPI_NONE, n_action := CHR ''A''\<rparr>)
       (de_print (header ''Node-path'' (user_path (de_opts d) (n_path (nd d i))) @
                  header ''Node-action'' ''delete'' @ nl @ nl) d)"

definition action_text :: "char \<Rightarrow> string" where
  "action_text a =
     (if a = CHR ''M'' then ''change'' @ nl
      else if a = CHR ''A'' then ''add'' @ nl
      else if a = CHR ''D'' then ''delete'' @ nl
      else if a = CHR ''R'' then ''replace'' @ nl else [])"

definition dump_headers :: "nat \<Rightarrow> de \<Rightarrow> de" where
  "dump_headers i d =
     (let n = nd d i
      in de_print
           (header ''Node-path'' (user_path (de_opts d) (n_path n)) @
            (if n_action n \<noteq> CHR ''D'' then header ''Node-kind'' (if n_kind n = node_file then ''file'' else ''dir'') else []) @
            ''Node-action: '' @ action_text (n_action n)) d)"

text \<open>The label \<open>finish\<close>: the end of the record.\<close>

definition dump_finish :: "nat \<Rightarrow> de \<Rightarrow> de" where
  "dump_finish i d =
     (let d1 = delta_mark_node i (de_print (nl @ nl) d)
      in case n_old_filename (nd d1 i) of None \<Rightarrow> d1 | Some f \<Rightarrow> file_remove f d1)"

text \<open>The copy information: whether the record ends there, and whether the content is dumped.\<close>

definition dump_copy :: "nat \<Rightarrow> bool \<Rightarrow> de \<Rightarrow> (bool \<times> bool \<times> de) option" where
  "dump_copy i dump_content d =
     (let n = nd d i
      in if n_cp_info n \<noteq> CPI_COPY then Some (False, dump_content, d)
         else (case n_copyfrom_path n of
                 None \<Rightarrow> Some (False, dump_content, d)
               | Some cf \<Rightarrow>
                   (case delta_get_local_copyfrom_path (prefix (de_session d)) cf of
                      None \<Rightarrow> None
                    | Some path \<Rightarrow>
                        let d1 = de_print (header ''Node-copyfrom-rev'' (dec_int (n_copyfrom_rev_local n)) @
                                           header ''Node-copyfrom-path'' (user_path (de_opts d) path)) d;
                            content = (if n_action n = CHR ''A'' \<and> n_kind n = node_file
                                       then rhash_get (md5_hash d) path \<noteq> Some (n_md5sum n) else dump_content)
                        in if \<not> content \<and> \<not> n_props_changed n then Some (True, content, d1)
                           else Some (False, if n_kind n = node_dir then False else content, d1))))"


text \<open>The properties of a node: those not deleted, and in format 3 the deletions.\<close>

definition live_props :: "node \<Rightarrow> props" where
  "live_props n = filter (\<lambda>(k, v). apr_hash_get (n_del_properties n) k = None) (n_properties n)"

definition node_props_len :: "dump_options \<Rightarrow> node \<Rightarrow> nat" where
  "node_props_len opts n =
     (\<Sum>(k, v) \<leftarrow> live_props n. property_strlen (Some k) (Some v)) +
     (if dump_format opts = 3 then (\<Sum>(k, v) \<leftarrow> n_del_properties n. property_del_strlen (Some k)) else 0)"

definition PROPS_END :: string where
  "PROPS_END = ''PROPS-END'' @ nl"

definition node_props_text :: "dump_options \<Rightarrow> node \<Rightarrow> string" where
  "node_props_text opts n =
     concat (map (\<lambda>(k, v). property_dump (Some k) (Some v)) (live_props n)) @
     (if dump_format opts = 3 then concat (map (\<lambda>(k, v). property_del_dump (Some k)) (n_del_properties n)) else []) @
     PROPS_END"

text \<open>The file that holds the content of the record.\<close>

definition content_file :: "nat \<Rightarrow> de \<Rightarrow> string option" where
  "content_file i d = (if has_flag (de_opts d) DF_USE_DELTAS then n_delta_filename (nd d i) else n_filename (nd d i))"

definition content_headers :: "env \<Rightarrow> nat \<Rightarrow> nat \<Rightarrow> de \<Rightarrow> string" where
  "content_headers ev i len d =
     (if has_flag (de_opts d) DF_USE_DELTAS then header ''Text-delta'' ''true'' else []) @
     header ''Text-content-length'' (dec_nat len) @
     (if hd (n_md5sum (nd d i)) \<noteq> nul then header ''Text-content-md5'' (md5_to_cstring ev (n_md5sum (nd d i))) else [])"

text \<open>The lengths, then the properties and the content.\<close>

definition dump_lengths :: "env \<Rightarrow> nat \<Rightarrow> bool \<Rightarrow> bool \<Rightarrow> de \<Rightarrow> de_res" where
  "dump_lengths ev i dump_content dump_props d =
     (let opts = de_opts d;
          len0 = node_props_len opts (nd d i);
          prop_len = (if dump_props then len0 + length PROPS_END else len0);
          d1 = (if dump_props
                then de_print ((if dump_format opts = 3 then header ''Prop-delta'' ''true'' else []) @
                               header ''Prop-content-length'' (dec_nat prop_len)) d
                else d)
      in if \<not> dump_content
         then Some (SVN_NO_ERROR, de_print (header ''Content-length'' (dec_nat prop_len) @ nl) d1)
         else (case file_read d1 (content_file i d1) of
                 None \<Rightarrow> Some (SVN_ERROR, d1)
               | Some text' \<Rightarrow>
                   Some (SVN_NO_ERROR,
                     de_print (content_headers ev i (length text') d1 @
                               header ''Content-length'' (dec_nat (prop_len + length text')) @ nl) d1)))"

definition dump_content_file :: "nat \<Rightarrow> de \<Rightarrow> de_res" where
  "dump_content_file i d =
     de_bind (delta_cat_file (content_file i d) d)
       (\<lambda>d1. Some (SVN_NO_ERROR,
          if has_flag (de_opts d1) DF_USE_DELTAS
          then (case n_delta_filename (nd d1 i) of None \<Rightarrow> d1 | Some f \<Rightarrow> file_remove f d1) else d1))"

definition dump_body :: "env \<Rightarrow> nat \<Rightarrow> bool \<Rightarrow> bool \<Rightarrow> de \<Rightarrow> de_res" where
  "dump_body ev i dump_content dump_props0 d0 =
     de_bind (if dump_content \<and> has_flag (de_opts d0) DF_USE_DELTAS then delta_deltify_node ev i d0 else Some (SVN_NO_ERROR, d0))
       (\<lambda>d. let dump_props = (dump_props0 \<or> node_props_len (de_opts d) (nd d i) > 0)
            in de_bind (dump_lengths ev i dump_content dump_props d)
                 (\<lambda>d1. let d2 = (if dump_props then de_print (node_props_text (de_opts d1) (nd d1 i)) d1 else d1)
                       in de_bind (if dump_content then dump_content_file i d2 else Some (SVN_NO_ERROR, d2))
                            (\<lambda>d3. Some (SVN_NO_ERROR, dump_finish i d3))))"

text \<open>\<open>delta_dump_node\<close> from the node headers on.\<close>

definition dump_record :: "env \<Rightarrow> nat \<Rightarrow> de \<Rightarrow> de_res" where
  "dump_record ev i d =
     (let n = nd d i; d1 = dump_headers i d
      in if n_action n = CHR ''D'' then Some (SVN_NO_ERROR, dump_finish i d1)
         else (case dump_copy i (n_kind n = node_file \<and> n_applied_delta n) d1 of
                 None \<Rightarrow> None
               | Some (True, content, d2) \<Rightarrow> Some (SVN_NO_ERROR, dump_finish i d2)
               | Some (False, content, d2) \<Rightarrow>
                   dump_body ev i content (n_props_changed n \<or> n_action n = CHR ''A'') d2))"

text \<open>The early returns of \<open>delta_dump_node\<close>.\<close>

definition dump_skipped :: "nat \<Rightarrow> de \<Rightarrow> bool" where
  "dump_skipped i d \<longleftrightarrow>
     (let n = nd d i
      in has_flag (de_opts d) DF_INITIAL_DRY_RUN \<or>
         (n_action n = CHR ''M'' \<and> n_kind n = node_dir \<and> \<not> n_props_changed n) \<or>
         (n_cp_info n = CPI_COPY \<and> n_action n = CHR ''A'' \<and> n_copyfrom_path n = None))"

lemma upd_node_same: "i < length (de_nodes d) \<Longrightarrow> nd (upd_node i f d) i = f (nd d i)"
  by (simp add: upd_node_def)

lemma length_upd_node: "length (de_nodes (upd_node i f d)) = length (de_nodes d)"
  by (simp add: upd_node_def)

text \<open>What the checks of an action may change: the action, and the cache of the path repository.\<close>

definition acted :: "nat \<Rightarrow> char set \<Rightarrow> de \<Rightarrow> de \<Rightarrow> bool" where
  "acted i A d d' \<longleftrightarrow> (\<exists>a r. a \<in> insert (n_action (nd d i)) A \<and> d' = set_action i a (d\<lparr>de_repo := r\<rparr>))"

lemma acted_refl: "acted i A d d"
  unfolding acted_def
  by (rule exI [of _ "n_action (nd d i)"], rule exI [of _ "de_repo d"]) (simp add: set_action_def upd_node_def)

lemma acted_set: "a \<in> A \<Longrightarrow> acted i A d (set_action i a d)"
  unfolding acted_def by (rule exI [of _ a], rule exI [of _ "de_repo d"]) simp

lemma acted_trans:
  assumes "acted i A d d1" "acted i A d1 d2" "i < length (de_nodes d)"
  shows "acted i A d d2"
proof -
  obtain a r where 1: "a \<in> insert (n_action (nd d i)) A" "d1 = set_action i a (d\<lparr>de_repo := r\<rparr>)"
    using assms(1) by (auto simp: acted_def)
  obtain a' r' where 2: "a' \<in> insert (n_action (nd d1 i)) A" "d2 = set_action i a' (d1\<lparr>de_repo := r'\<rparr>)"
    using assms(2) by (auto simp: acted_def)
  have "d2 = set_action i a' (d\<lparr>de_repo := r'\<rparr>)" "n_action (nd d1 i) = a"
    using 1 2 assms(3) by (simp_all add: set_action_def upd_node_def)
  then show ?thesis using 1(1) 2(1) unfolding acted_def by blast
qed

lemma acted_length: "acted i A d d' \<Longrightarrow> length (de_nodes d') = length (de_nodes d)"
  by (auto simp: acted_def set_action_def length_upd_node)

lemma acted_action: "acted i A d d' \<Longrightarrow> i < length (de_nodes d) \<Longrightarrow> n_action (nd d' i) \<in> insert (n_action (nd d i)) A"
  by (auto simp: acted_def set_action_def upd_node_same)

lemma de_bind_SomeE:
  assumes "de_bind r f = Some (e, d')"
  obtains "r = Some (SVN_ERROR, d')" "e = SVN_ERROR" | d1 where "r = Some (SVN_NO_ERROR, d1)" "f d1 = Some (e, d')"
  using assms by (cases r; cases "fst (the r)") (auto simp: de_bind_def split: if_splits prod.splits)

lemma check_add_acted:
  assumes "check_add i d r = Some (e, d')"
  shows "acted i {CHR ''A'', CHR ''M''} d d'"
proof (cases "fst r = 0")
  case True
  then show ?thesis using assms
    by (auto simp: check_add_def acted_def Let_def)
next
  case False
  then show ?thesis using assms
    by (auto simp: check_add_def acted_def Let_def set_action_def upd_node_def intro!: exI [of _ "n_action (nd d i)"] split: if_splits)
qed

lemma check_replaced_acted: "check_replaced ev i d = Some (e, d') \<Longrightarrow> acted i {CHR ''A'', CHR ''M''} d d'"
  using check_add_acted acted_refl by (auto simp: check_replaced_def Let_def split: if_splits option.splits)

lemma check_modified_acted: "check_modified ev i d = Some (e, d') \<Longrightarrow> acted i {CHR ''A'', CHR ''M''} d d'"
  using check_add_acted acted_refl by (auto simp: check_modified_def split: if_splits)

lemma check_root_acted: "acted i {CHR ''A'', CHR ''M''} d (check_root i d)"
  using acted_refl acted_set by (auto simp: check_root_def)

lemma check_action_rest_acted:
  assumes "check_action_rest ev i d = Some (e, d')" "i < length (de_nodes d)"
  shows "acted i {CHR ''A'', CHR ''M''} d d'"
  using assms(1) unfolding check_action_rest_def
proof (elim de_bind_SomeE)
  fix d1 d2
  assume "check_replaced ev i d = Some (SVN_NO_ERROR, d1)" "check_modified ev i d1 = Some (SVN_NO_ERROR, d2)"
    "Some (SVN_NO_ERROR, check_root i d2) = Some (e, d')"
  then show ?thesis
    using check_replaced_acted check_modified_acted check_root_acted acted_trans acted_length assms(2)
    by (metis option.inject prod.inject)
qed (use check_replaced_acted check_modified_acted acted_trans assms(2) in blast)+

lemma delta_check_action_acted:
  assumes "delta_check_action ev i d = Some (e, d')" "i < length (de_nodes d)"
  shows "acted i {CHR ''A'', CHR ''M''} d d'"
proof -
  note rest = check_action_rest_acted [OF _ assms(2), of ev e d']
  have outside: "acted i {CHR ''A'', CHR ''M''} d d'" if "check_action_rest ev i (set_action i CHR ''A'' d) = Some (e, d')"
  proof (rule acted_trans [OF _ _ assms(2)])
    show "acted i {CHR ''A'', CHR ''M''} d (set_action i CHR ''A'' d)" by (rule acted_set) simp
    show "acted i {CHR ''A'', CHR ''M''} (set_action i CHR ''A'' d) d'"
      by (rule check_action_rest_acted [OF that]) (use assms(2) in \<open>simp add: set_action_def length_upd_node\<close>)
  qed
  have "acted i {CHR ''A'', CHR ''M''} d d'" if "check_copied ev i p d = Some (e, d')" for p
    using that check_add_acted by (auto simp: check_copied_def split: option.splits)
  with rest outside show ?thesis
    using assms(1) acted_refl unfolding delta_check_action_def Let_def
    by (auto split: if_splits option.splits sum.splits)
qed


text \<open>A check of a copy changes the copy information of the node only.\<close>

lemma delta_check_copy_node:
  "\<exists>c r. delta_check_copy i d = upd_node i (\<lambda>n. n\<lparr>n_cp_info := c, n_copyfrom_rev_local := r\<rparr>) d"
proof -
  have "d = upd_node i (\<lambda>n. n\<lparr>n_cp_info := n_cp_info (nd d i), n_copyfrom_rev_local := n_copyfrom_rev_local (nd d i)\<rparr>) d"
    by (simp add: upd_node_def)
  moreover have "upd_node i (\<lambda>n. n\<lparr>n_cp_info := c\<rparr>) d =
      upd_node i (\<lambda>n. n\<lparr>n_cp_info := c, n_copyfrom_rev_local := n_copyfrom_rev_local (nd d i)\<rparr>) d" for c
    by (simp add: upd_node_def)
  moreover have "upd_node i (\<lambda>n. n\<lparr>n_copyfrom_rev_local := r n, n_cp_info := c\<rparr>) d =
      upd_node i (\<lambda>n. n\<lparr>n_cp_info := c, n_copyfrom_rev_local := r (nd d i)\<rparr>) d" for r c
    by (cases "nd d i") (simp add: upd_node_def)
  ultimately show ?thesis
    unfolding delta_check_copy_def Let_def by (auto split: option.splits)
qed

lemma de_bind_cong [fundef_cong]:
  "r = r' \<Longrightarrow> (\<And>d. r' = Some (SVN_NO_ERROR, d) \<Longrightarrow> f d = g d) \<Longrightarrow> de_bind r f = de_bind r' g"
  by (auto simp: de_bind_def split: option.splits)

function delta_dump_node :: "env \<Rightarrow> nat \<Rightarrow> de \<Rightarrow> de_res" where
  "delta_dump_node ev i d =
     (if i \<ge> length (de_nodes d) then None
      else if \<not> n_dump_needed (nd d i) then Some (SVN_NO_ERROR, d)
      else if dump_skipped i d then Some (SVN_NO_ERROR, upd_node i (\<lambda>n. n\<lparr>n_dump_needed := False\<rparr>) d)
      else de_bind (delta_check_action ev i (delta_check_copy i d))
             (\<lambda>d1. if n_action (nd d1 i) = CHR ''R'' then delta_dump_node ev i (delta_dump_replace i d1)
                   else dump_record ev i d1))"
  by pat_completeness auto
termination
proof (relation "measure (\<lambda>(ev, i, d). if n_action (nd d i) = CHR ''R'' then 1 else 0)", simp)
  fix ev i d d1
  assume a: "\<not> length (de_nodes d) \<le> i" "delta_check_action ev i (delta_check_copy i d) = Some (SVN_NO_ERROR, d1)"
    "n_action (nd d1 i) = CHR ''R''"
  obtain c r where c: "delta_check_copy i d = upd_node i (\<lambda>n. n\<lparr>n_cp_info := c, n_copyfrom_rev_local := r\<rparr>) d"
    using delta_check_copy_node by blast
  then have l: "i < length (de_nodes (delta_check_copy i d))" using a(1) by (simp add: length_upd_node)
  have "n_action (nd d i) = CHR ''R''"
    using acted_action [OF delta_check_action_acted [OF a(2) l] l] a c by (auto simp: upd_node_same)
  moreover have "i < length (de_nodes d1)" using acted_length [OF delta_check_action_acted [OF a(2) l]] l by simp
  ultimately show "((ev, i, delta_dump_replace i d1), ev, i, d) \<in> measure (\<lambda>(ev, i, d). if n_action (nd d i) = CHR ''R'' then 1 else 0)"
    by (simp add: delta_dump_replace_def upd_node_same de_print_def)
qed

declare delta_dump_node.simps [simp del]

text \<open>
  \<open>delta_dump_node_recursive\<close>, with the depth of the recursion as fuel. The loop over the children
  stops at the first error.
\<close>

fun de_fold :: "('a \<Rightarrow> de \<Rightarrow> de_res) \<Rightarrow> 'a list \<Rightarrow> de \<Rightarrow> de_res" where
  "de_fold f [] d = Some (SVN_NO_ERROR, d)"
| "de_fold f (x # xs) d = de_bind (f x d) (de_fold f xs)"

primrec delta_dump_node_recursive :: "nat \<Rightarrow> env \<Rightarrow> nat \<Rightarrow> de \<Rightarrow> de_res" where
  "delta_dump_node_recursive 0 ev i d = None"
| "delta_dump_node_recursive (Suc fuel) ev i d =
     de_bind (if n_action (nd d i) \<noteq> CHR ''D'' then delta_dump_node ev i d else Some (SVN_NO_ERROR, d))
       (\<lambda>d1. de_bind
          (de_fold (\<lambda>child d. de_bind (delta_propagate_copy ev i child d) (delta_dump_node_recursive fuel ev child))
             (n_children (nd d1 i)) d1)
          (\<lambda>d2. if n_action (nd d2 i) = CHR ''D'' then delta_dump_node ev i d2 else Some (SVN_NO_ERROR, d2)))"


subsection \<open>Editor callbacks\<close>

text \<open>
  A callback that makes a node appends it to the nodes: the baton it hands back is the number of
  nodes before the call.
\<close>

definition de_obfuscate :: "env \<Rightarrow> string \<Rightarrow> de \<Rightarrow> (string \<times> de) option" where
  "de_obfuscate ev path d =
     (case session_obfuscate (env_fuel ev) (de_session d) (Some path) of
        Some (Some p, s) \<Rightarrow> Some (p, d\<lparr>de_session := s\<rparr>)
      | _ \<Rightarrow> None)"

text \<open>The kind of the root node is not set: \<open>junk_kind\<close>.\<close>

definition de_open_root :: "env \<Rightarrow> de \<Rightarrow> de_res" where
  "de_open_root ev d =
     (let (i, d1) = delta_create_node_no_parent [slash] (junk_kind ev) CHR ''M'' False d
      in Some (SVN_NO_ERROR, d1\<lparr>de_root := Some i\<rparr>))"

definition below :: "string \<Rightarrow> string \<Rightarrow> bool" where
  "below path npath \<longleftrightarrow> starts_with npath (path @ [slash])"

text \<open>
  The loops over the two hashes. What \<open>rhash_this\<close> leaves in \<open>filename\<close> is the uninitialised
  variable: a read through it gives some text or is refused.
\<close>

fun forget_files :: "env \<Rightarrow> string \<Rightarrow> string rhash \<Rightarrow> de \<Rightarrow> de option" where
  "forget_files ev path [] d = Some d"
| "forget_files ev path (hi # his) d =
     (let (npath, filename) = rhash_this hi (junk_name ev)
      in if below path npath
         then (case filename of
                 None \<Rightarrow> None
               | Some name \<Rightarrow>
                   (case property_delete (de_store d) npath of
                      None \<Rightarrow> None
                    | Some (rc, store) \<Rightarrow>
                        forget_files ev path his
                          ((file_remove name d)\<lparr>de_store := store, delta_hash := rhash_set (delta_hash d) npath None\<rparr>)))
         else forget_files ev path his d)"

fun forget_md5 :: "env \<Rightarrow> string \<Rightarrow> string rhash \<Rightarrow> de \<Rightarrow> de" where
  "forget_md5 ev path [] d = d"
| "forget_md5 ev path (hi # his) d =
     (let (npath, md5sum) = rhash_this hi (junk_name ev)
      in forget_md5 ev path his
           (if below path npath then d\<lparr>md5_hash := rhash_set (md5_hash d) npath None\<rparr> else d))"

definition de_delete_entry :: "env \<Rightarrow> string \<Rightarrow> nat \<Rightarrow> de \<Rightarrow> de_res" where
  "de_delete_entry ev path0 parent d0 =
     (case de_obfuscate ev path0 d0 of
        None \<Rightarrow> None
      | Some (path, d1) \<Rightarrow>
          (let d2 = snd (delta_create_node path parent node_none CHR ''D'' True d1)
           in case forget_files ev path (delta_hash d2) d2 of
                None \<Rightarrow> None
              | Some d3 \<Rightarrow>
                  (let d4 = forget_md5 ev path (md5_hash d3) d3
                   in case property_delete (de_store d4) path of
                        None \<Rightarrow> None
                      | Some (rc, store) \<Rightarrow>
                          (let d5 = d4\<lparr>de_store := store\<rparr>
                           in if has_flag (de_opts d5) DF_INITIAL_DRY_RUN then Some (SVN_NO_ERROR, d5)
                              else (case path_repo_delete (de_repo d5) path of
                                      None \<Rightarrow> None
                                    | Some (rc, repo) \<Rightarrow>
                                        Some (if rc \<noteq> 0 then SVN_ERROR else SVN_NO_ERROR, d5\<lparr>de_repo := repo\<rparr>))))))"

text \<open>Recording a new path in the path repository, which both adding callbacks end with.\<close>

definition add_path :: "string \<Rightarrow> de \<Rightarrow> de_res" where
  "add_path path d =
     (if has_flag (de_opts d) DF_INITIAL_DRY_RUN then Some (SVN_NO_ERROR, d)
      else (let (rc, repo) = path_repo_add (de_repo d) path
            in Some (if rc \<noteq> 0 then SVN_ERROR else SVN_NO_ERROR, d\<lparr>de_repo := repo\<rparr>)))"

text \<open>The log entry of an added node decides its action and its copy source.\<close>

definition node_from_log :: "changed_path option \<Rightarrow> cp_info \<Rightarrow> node \<Rightarrow> node" where
  "node_from_log log keep n =
     (case log of
        None \<Rightarrow> n\<lparr>n_action := CHR ''A''\<rparr>
      | Some l \<Rightarrow>
          (let n1 = n\<lparr>n_action := cp_action l\<rparr>;
               n2 = (case cp_copyfrom_path l of
                       None \<Rightarrow> n1
                     | Some cf \<Rightarrow> n1\<lparr>n_copyfrom_path := Some cf, n_copyfrom_revision := cp_copyfrom_rev l\<rparr>)
           in if \<not> cpi_and (n_cp_info n2) keep then n2\<lparr>n_cp_info := CPI_NONE\<rparr> else n2))"

definition de_log_entry :: "de \<Rightarrow> string \<Rightarrow> changed_path option option" where
  "de_log_entry d path = map_option (\<lambda>h. apr_hash_get h path) (lr_changed_paths (de_log d))"

definition de_add_directory :: "env \<Rightarrow> string \<Rightarrow> nat \<Rightarrow> de \<Rightarrow> de_res" where
  "de_add_directory ev path0 parent d0 =
     (case de_obfuscate ev path0 d0 of
        None \<Rightarrow> None
      | Some (path, d1) \<Rightarrow>
          (let (i, d2) = delta_create_node path parent node_dir nul True d1
           in case de_log_entry d2 path of
                None \<Rightarrow> None
              | Some log \<Rightarrow> add_path path (upd_node i (node_from_log log CPI_FAILED_OUTSIDE) d2)))"

definition load_props :: "env \<Rightarrow> nat \<Rightarrow> de \<Rightarrow> de_res" where
  "load_props ev i d =
     (case property_load (env_codec ev) (de_store d) (n_path (nd d i)) (n_properties (nd d i)) of
        None \<Rightarrow> None
      | Some (ret, props, store) \<Rightarrow>
          Some (if ret \<noteq> 0 then SVN_ERROR else SVN_NO_ERROR,
                upd_node i (\<lambda>n. n\<lparr>n_properties := props\<rparr>) (d\<lparr>de_store := store\<rparr>)))"

definition de_open_directory :: "env \<Rightarrow> string \<Rightarrow> nat \<Rightarrow> de \<Rightarrow> de_res" where
  "de_open_directory ev path0 parent d0 =
     (case de_obfuscate ev path0 d0 of
        None \<Rightarrow> None
      | Some (path, d1) \<Rightarrow>
          (let (i, d2) = delta_create_node path parent node_dir CHR ''M'' False d1 in load_props ev i d2))"


definition change_prop :: "env \<Rightarrow> nat \<Rightarrow> string \<Rightarrow> string option \<Rightarrow> de \<Rightarrow> de_res" where
  "change_prop ev i name val d =
     (if \<not> svn_prop_regular ev name then Some (SVN_NO_ERROR, d)
      else Some (SVN_NO_ERROR,
             upd_node i
               (\<lambda>n. (case val of
                       Some v \<Rightarrow> n\<lparr>n_properties := apr_hash_set (n_properties n) name (Some v)\<rparr>
                     | None \<Rightarrow> n\<lparr>n_del_properties := apr_hash_set (n_del_properties n) name (Some ())\<rparr>)
                    \<lparr>n_props_changed := True, n_dump_needed := True\<rparr>) d))"

definition de_change_dir_prop :: "env \<Rightarrow> nat \<Rightarrow> string \<Rightarrow> string option \<Rightarrow> de \<Rightarrow> de_res" where
  "de_change_dir_prop = change_prop"

definition save_props :: "env \<Rightarrow> nat \<Rightarrow> de \<Rightarrow> de_res" where
  "save_props ev i d =
     (case property_store (env_codec ev) (apr_md5 ev) (env_mem ev) (de_store d) (n_path (nd d i)) (n_properties (nd d i)) of
        None \<Rightarrow> None
      | Some (ret, store) \<Rightarrow> Some (if ret \<noteq> 0 then SVN_ERROR else SVN_NO_ERROR, d\<lparr>de_store := store\<rparr>))"

definition de_close_directory :: "env \<Rightarrow> nat \<Rightarrow> de \<Rightarrow> de_res" where
  "de_close_directory = save_props"

definition de_add_file :: "env \<Rightarrow> string \<Rightarrow> nat \<Rightarrow> de \<Rightarrow> de_res" where
  "de_add_file ev path0 parent d0 =
     (case de_obfuscate ev path0 d0 of
        None \<Rightarrow> None
      | Some (path, d1) \<Rightarrow>
          (let (i, d2) = delta_create_node path parent node_file nul True d1
           in case de_log_entry d2 path of
                None \<Rightarrow> None
              | Some log \<Rightarrow>
                  (let d3 = upd_node i (node_from_log log CPI_FAILED) d2;
                       d4 = (if cpi_and (n_cp_info (nd d3 i)) CPI_FAILED then set_action i CHR ''A'' d3 else d3)
                   in add_path path d4)))"

definition de_open_file :: "env \<Rightarrow> string \<Rightarrow> nat \<Rightarrow> de \<Rightarrow> de_res" where
  "de_open_file ev path0 parent d0 =
     (case de_obfuscate ev path0 d0 of
        None \<Rightarrow> None
      | Some (path, d1) \<Rightarrow>
          (let (i, d2) = delta_create_node path parent node_file CHR ''M'' False d1 in load_props ev i d2))"

text \<open>
  \<open>windows\<close> is what the windows that the driver passes to the handler of \<open>svn_txdelta_apply\<close>
  make of the source text; the library then writes the result to the new file and stores its
  digest in the node.
\<close>

definition de_apply_textdelta :: "env \<Rightarrow> nat \<Rightarrow> (string \<Rightarrow> string) \<Rightarrow> de \<Rightarrow> de_res" where
  "de_apply_textdelta ev i windows d =
     (let path = n_path (nd d i)
      in case mk_temp ev ''/td/'' d of
           (None, d1) \<Rightarrow> Some (SVN_ERROR, upd_node i (\<lambda>n. n\<lparr>n_filename := Some (temp_name d ''/td/'')\<rparr>) d1)
         | (Some name, d1) \<Rightarrow>
             (let d2 = upd_node i (\<lambda>n. n\<lparr>n_filename := Some name\<rparr>) d1;
                  filename = rhash_get (delta_hash d2) path
              in case (if filename = None then Some [] else file_read d2 filename) of
                   None \<Rightarrow> Some (SVN_ERROR, d2)
                 | Some src \<Rightarrow>
                     Some (SVN_NO_ERROR,
                       upd_node i (\<lambda>n. n\<lparr>n_md5sum := apr_md5 ev (windows src), n_old_filename := filename,
                                         n_applied_delta := True, n_dump_needed := True\<rparr>)
                         (d2\<lparr>de_files := (de_files d2)(name \<mapsto> windows src),
                             delta_hash := rhash_set (delta_hash d2) path (Some name)\<rparr>))))"

definition de_change_file_prop :: "env \<Rightarrow> nat \<Rightarrow> string \<Rightarrow> string option \<Rightarrow> de \<Rightarrow> de_res" where
  "de_change_file_prop = change_prop"

definition de_close_file :: "env \<Rightarrow> nat \<Rightarrow> de \<Rightarrow> de_res" where
  "de_close_file = save_props"

text \<open>\<open>de_absent_directory\<close> and \<open>de_absent_file\<close> only obfuscate the path.\<close>

definition de_absent :: "env \<Rightarrow> string \<Rightarrow> de \<Rightarrow> de_res" where
  "de_absent ev path d = map_option (\<lambda>(p, d). (SVN_NO_ERROR, d)) (de_obfuscate ev path d)"

text \<open>The loop over the parents of a deleted path: whether one was deleted or its copy failed.\<close>

fun parent_dumped :: "nat \<Rightarrow> env \<Rightarrow> string \<Rightarrow> de \<Rightarrow> bool option" where
  "parent_dumped 0 ev parent d = None"
| "parent_dumped (Suc fuel) ev parent d =
     (if parent = [] then Some False
      else case apr_hash_get (de_dumped d) parent of
             None \<Rightarrow> parent_dumped fuel ev (svn_path_dirname ev parent) d
           | Some p \<Rightarrow>
               if n_action (nd d p) = CHR ''D'' \<or> cpi_and (n_cp_info (nd d p)) CPI_FAILED then Some True
               else parent_dumped fuel ev (svn_path_dirname ev parent) d)"

text \<open>Dumping the deletion of a path that no node has deleted.\<close>

definition post_dump :: "env \<Rightarrow> string \<Rightarrow> char \<Rightarrow> de \<Rightarrow> de_res" where
  "post_dump ev path action d =
     (let (i, d1) = delta_create_node_no_parent path node_none action True d in delta_dump_node ev i d1)"

definition close_deleted :: "env \<Rightarrow> string \<Rightarrow> char \<Rightarrow> de \<Rightarrow> de_res" where
  "close_deleted ev path action d0 =
     (let d = (case rhash_get (delta_hash d0) path of
                 None \<Rightarrow> d0
               | Some f \<Rightarrow> (file_remove f d0)\<lparr>delta_hash := rhash_set (delta_hash d0) path None\<rparr>)
      in if apr_hash_get (de_dumped d) path \<noteq> None then Some (SVN_NO_ERROR, d)
         else (case parent_dumped (Suc (length path)) ev (svn_path_dirname ev path) d of
                 None \<Rightarrow> None
               | Some True \<Rightarrow> Some (SVN_NO_ERROR, d)
               | Some False \<Rightarrow>
                   if opt_start (de_opts d) > 1 \<and> lr_revision (de_log d) = opt_start (de_opts d)
                   then (let (check, repo) = path_repo_exists (env_codec ev) (de_repo d) path (de_local_revnum d);
                             d1 = d\<lparr>de_repo := repo\<rparr>
                         in if check = 0 then Some (SVN_NO_ERROR, d1) else post_dump ev path action d1)
                   else post_dump ev path action d))"

definition de_close_edit :: "env \<Rightarrow> de \<Rightarrow> de_res" where
  "de_close_edit ev d =
     (case de_root d of
        None \<Rightarrow> None
      | Some root' \<Rightarrow>
          de_bind (delta_dump_node_recursive (Suc (length (de_nodes d))) ev root' d)
            (\<lambda>d1. case lr_changed_paths (de_log d1) of
                    None \<Rightarrow> None
                  | Some h \<Rightarrow>
                      de_fold (\<lambda>(path, log) d. if cp_action log = CHR ''D'' then close_deleted ev path (cp_action log) d
                                              else Some (SVN_NO_ERROR, d)) h d1))"

text \<open>The editor is set up anew for every revision; the hashes live on.\<close>

definition delta_setup_editor :: "log_revision \<Rightarrow> revnum \<Rightarrow> log_revision list \<Rightarrow> de \<Rightarrow> de" where
  "delta_setup_editor log_revision local_revnum logs d =
     (let d1 = d\<lparr>de_logs := logs, de_log := log_revision, de_local_revnum := local_revnum, de_dumped := [],
                 de_root := None, de_nodes := []\<rparr>
      in if hashes_created d1 then d1
         else d1\<lparr>md5_hash := rhash_make, delta_hash := rhash_make, hashes_created := True\<rparr>)"

definition delta_cleanup :: "de \<Rightarrow> de" where
  "delta_cleanup d =
     (if hashes_created d
      then d\<lparr>md5_hash := rhash_clear (md5_hash d), delta_hash := rhash_clear (delta_hash d), hashes_created := False\<rparr>
      else d)"

end
