(* ===== verification/Dump.thy ===== *)
theory Dump
  imports Delta
begin

text \<open>
  The dump itself: \<open>src/dump.c\<close>. The record \<open>de\<close> of the editor is the whole state of the program:
  the options, the session, the logs, the path repository and the property storage are shared by
  pointer in the source. \<open>server\<close> is what the source asks the Subversion library for. A diff is the
  sequence of editor calls that the library makes; it stops at the first error. The main loop has
  fuel: its result is \<open>None\<close> when the fuel is used up. A read outside of the list of logs is the
  result \<open>Past_logs\<close>; \<open>Undefined\<close> stands for what else C does not define or what stops the program.
\<close>

unbundle bit_operations_syntax

section \<open>Definitions\<close>

subsection \<open>Revision records\<close>

definition rev_props :: "log_revision \<Rightarrow> (string \<times> string) list" where
  "rev_props l =
     (case lr_message l of None \<Rightarrow> [] | Some m \<Rightarrow> [(''svn:log'', m)]) @
     (case lr_author l of None \<Rightarrow> [] | Some a \<Rightarrow> [(''svn:author'', a)]) @
     (case lr_date l of None \<Rightarrow> [] | Some t \<Rightarrow> [(''svn:date'', t)])"

text \<open>The length is an \<open>int\<close>, to which values of type \<open>size_t\<close> are added.\<close>

definition rev_props_len :: "log_revision \<Rightarrow> int" where
  "rev_props_len l =
     (let len = fold (\<lambda>(k, v) n. c_int (n + int (property_strlen (Some k) (Some v)))) (rev_props l) 0
      in if len > 0 then c_int (len + int (length PROPS_END)) else len)"

definition rev_headers :: "revnum \<Rightarrow> int \<Rightarrow> string" where
  "rev_headers r len =
     header ''Revision-number'' (dec_int r) @ header ''Prop-content-length'' (dec_int len) @
     header ''Content-length'' (dec_int len) @ nl"

definition dump_revision_header :: "log_revision \<Rightarrow> revnum \<Rightarrow> string" where
  "dump_revision_header l local_revnum =
     rev_headers local_revnum (rev_props_len l) @
     (if rev_props_len l > 0
      then concat (map (\<lambda>(k, v). property_dump (Some k) (Some v)) (rev_props l)) @ PROPS_END @ nl
      else [])"

definition padding_message :: string where
  "padding_message = ''This is an empty revision for padding.''"

definition dump_padding_revision :: "revnum \<Rightarrow> string" where
  "dump_padding_revision r =
     rev_headers r (c_int (c_int (int (property_strlen (Some ''svn:log'') (Some padding_message))) + int (length PROPS_END))) @
     property_dump (Some ''svn:log'') (Some padding_message) @ PROPS_END @ nl"

subsection \<open>The user prefix\<close>

definition prefix_node :: "string \<Rightarrow> string" where
  "prefix_node path =
     header ''Node-path'' path @ header ''Node-kind'' ''dir'' @ header ''Node-action'' ''add'' @ nl"

function user_prefix_loop :: "string \<Rightarrow> string \<Rightarrow> string \<Rightarrow> string \<times> string" where
  "user_prefix_loop new_prefix s out =
     (if slash \<notin> set s then (new_prefix @ s, out)
      else if hd s = slash then user_prefix_loop new_prefix (tl s) out
      else let np = new_prefix @ takeWhile (\<lambda>c. c \<noteq> slash) s
           in user_prefix_loop (np @ [slash]) (drop 1 (dropWhile (\<lambda>c. c \<noteq> slash) s)) (out @ prefix_node np))"
  by pat_completeness auto
termination
proof (relation "measure (\<lambda>(np, s, out). length s)", simp)
  show "\<And>np s out. \<not> slash \<notin> set s \<Longrightarrow> hd s = slash \<Longrightarrow> ((np, tl s, out), np, s, out) \<in> measure (\<lambda>(np, s, out). length s)"
    by (auto simp: neq_Nil_conv in_set_conv_nth)
qed (use behind_slash_less in auto)

declare user_prefix_loop.simps [simp del]

definition dump_create_user_prefix :: "de \<Rightarrow> de" where
  "dump_create_user_prefix d =
     (case opt_prefix (de_opts d) of
        None \<Rightarrow> d
      | Some p \<Rightarrow>
          (let (new_prefix, out) = user_prefix_loop [] p []
           in (de_print out d)\<lparr>de_opts := (de_opts d)\<lparr>opt_prefix := Some new_prefix\<rparr>\<rparr>))"

subsection \<open>Driving the editor\<close>

text \<open>The calls of the editor; the calls on a node go to the innermost open node.\<close>

datatype edit_op =
  Open_root
| Delete_entry string
| Add_directory string
| Open_directory string
| Change_dir_prop string "string option"
| Close_directory
| Add_file string
| Open_file string
| Apply_textdelta "string \<Rightarrow> string"
| Change_file_prop string "string option"
| Close_file
| Absent string
| Close_edit

record diff =
  diff_do_diff :: bool
  diff_set_path :: bool
  diff_ops :: "edit_op list"
  diff_finish_report :: bool

record server =
  sv_stat :: "revnum \<Rightarrow> revnum option option"
  sv_check_path :: "string \<Rightarrow> revnum \<Rightarrow> node_kind option"
  sv_get_log :: get_log
  sv_uuid :: "string option"
  sv_do_diff :: "revnum \<Rightarrow> revnum \<Rightarrow> bool \<Rightarrow> bool \<Rightarrow> diff"
  sv_ra :: ra
  sv_fopen :: fopen

type_synonym batons = "nat list"

definition with_parent :: "(nat \<Rightarrow> de \<Rightarrow> de_res) \<Rightarrow> batons \<times> de \<Rightarrow> (svn_error \<times> batons \<times> de) option" where
  "with_parent f s =
     (case s of
        ([], d) \<Rightarrow> None
      | (p # ps, d) \<Rightarrow> map_option (\<lambda>(e, d'). (e, p # ps, d')) (f p d))"

text \<open>A call that makes a node opens it: its baton goes on the stack.\<close>

definition push_node :: "(nat \<Rightarrow> de \<Rightarrow> de_res) \<Rightarrow> batons \<times> de \<Rightarrow> (svn_error \<times> batons \<times> de) option" where
  "push_node f s =
     map_option (\<lambda>(e, bs, d'). (e, length (de_nodes (snd s)) # bs, d')) (with_parent f s)"

definition pop_node :: "(nat \<Rightarrow> de \<Rightarrow> de_res) \<Rightarrow> batons \<times> de \<Rightarrow> (svn_error \<times> batons \<times> de) option" where
  "pop_node f s = map_option (\<lambda>(e, bs, d'). (e, tl bs, d')) (with_parent f s)"

fun run_op :: "env \<Rightarrow> edit_op \<Rightarrow> batons \<times> de \<Rightarrow> (svn_error \<times> batons \<times> de) option" where
  "run_op ev Open_root (bs, d) = map_option (\<lambda>(e, d'). (e, [length (de_nodes d)], d')) (de_open_root ev d)"
| "run_op ev (Delete_entry p) s = with_parent (de_delete_entry ev p) s"
| "run_op ev (Add_directory p) s = push_node (de_add_directory ev p) s"
| "run_op ev (Open_directory p) s = push_node (de_open_directory ev p) s"
| "run_op ev (Change_dir_prop n v) s = with_parent (\<lambda>i. de_change_dir_prop ev i n v) s"
| "run_op ev Close_directory s = pop_node (de_close_directory ev) s"
| "run_op ev (Add_file p) s = push_node (de_add_file ev p) s"
| "run_op ev (Open_file p) s = push_node (de_open_file ev p) s"
| "run_op ev (Apply_textdelta w) s = with_parent (\<lambda>i. de_apply_textdelta ev i w) s"
| "run_op ev (Change_file_prop n v) s = with_parent (\<lambda>i. de_change_file_prop ev i n v) s"
| "run_op ev Close_file s = pop_node (de_close_file ev) s"
| "run_op ev (Absent p) s = with_parent (\<lambda>i. de_absent ev p) s"
| "run_op ev Close_edit (bs, d) = map_option (\<lambda>(e, d'). (e, bs, d')) (de_close_edit ev d)"

fun run_ops :: "env \<Rightarrow> edit_op list \<Rightarrow> batons \<times> de \<Rightarrow> de_res" where
  "run_ops ev [] s = Some (SVN_NO_ERROR, snd s)"
| "run_ops ev (op # ops) s =
     (case run_op ev op s of
        None \<Rightarrow> None
      | Some (e, s') \<Rightarrow> if e \<noteq> SVN_NO_ERROR then Some (e, snd s') else run_ops ev ops s')"

definition dump_do_diff :: "env \<Rightarrow> server \<Rightarrow> revnum \<Rightarrow> revnum \<Rightarrow> bool \<Rightarrow> de \<Rightarrow> (int \<times> de) option" where
  "dump_do_diff ev sv src dest start_empty d =
     (let df = sv_do_diff sv src dest start_empty (\<not> has_flag (de_opts d) DF_DRY_RUN)
      in if \<not> diff_do_diff df then Some (1, d)
         else if \<not> diff_set_path df then Some (1, d)
         else (case run_ops ev (diff_ops df) ([], d) of
                 None \<Rightarrow> None
               | Some (e, d') \<Rightarrow> Some (if e \<noteq> SVN_NO_ERROR \<or> \<not> diff_finish_report df then 1 else 0, d')))"

subsection \<open>Questions to the server\<close>

definition dump_determine_end :: "server \<Rightarrow> revnum \<Rightarrow> int \<times> revnum" where
  "dump_determine_end sv r =
     (case sv_stat sv r of
        None \<Rightarrow> (1, r)
      | Some None \<Rightarrow> (1, r)
      | Some (Some created) \<Rightarrow> (0, created))"

definition dump_check_path :: "server \<Rightarrow> string \<Rightarrow> revnum \<Rightarrow> node_kind" where
  "dump_check_path sv path r = (case sv_check_path sv path r of None \<Rightarrow> node_none | Some kind \<Rightarrow> kind)"

text \<open>The pool that the UUID is allocated in is destroyed before the function returns.\<close>

definition dump_fetch_uuid :: "server \<Rightarrow> int \<times> freed option" where
  "dump_fetch_uuid sv = (case sv_uuid sv of None \<Rightarrow> (1, None) | Some u \<Rightarrow> (0, Some (Freed u)))"

subsection \<open>Preparation\<close>

definition upd_opts :: "(dump_options \<Rightarrow> dump_options) \<Rightarrow> de \<Rightarrow> de" where
  "upd_opts f d = d\<lparr>de_opts := f (de_opts d)\<rparr>"

definition start_mid :: "de \<Rightarrow> bool" where
  "start_mid d \<longleftrightarrow> has_flag (de_opts d) DF_INCREMENTAL \<and> opt_start (de_opts d) \<noteq> 0"

text \<open>The revision range: a status other than 0 ends the dump.\<close>

definition dump_range :: "server \<Rightarrow> de \<Rightarrow> (int \<times> de) option" where
  "dump_range sv d0 =
     (let opts = de_opts d0;
          (rc, end') = dump_determine_end sv (opt_end opts);
          d = upd_opts (\<lambda>op. op\<lparr>opt_end := end'\<rparr>) d0
      in if rc \<noteq> 0 then Some (1, d)
         else if opt_start opts = 0 \<and> prefix (de_session d) \<noteq> []
         then (case log_get_range (sv_get_log sv) (opt_start opts) end' of
                 None \<Rightarrow> None
               | Some (rc, start', end'') \<Rightarrow>
                   Some (if rc \<noteq> 0 then 1 else 0, upd_opts (\<lambda>op. op\<lparr>opt_start := start', opt_end := end''\<rparr>) d))
         else if dump_check_path sv [] (opt_start opts) = node_none then Some (1, d)
         else Some (0, d))"

text \<open>The dummy log entry that keeps list indexes and local revisions equal.\<close>

definition dummy_log :: log_revision where
  "dummy_log =
     \<lparr>lr_revision = 0, lr_author = None, lr_date = None, lr_message = None, lr_changed_paths = None\<rparr>"

definition dump_storages :: "env \<Rightarrow> server \<Rightarrow> de \<Rightarrow> int \<times> de" where
  "dump_storages ev sv d0 =
     (let d = d0\<lparr>de_logs := (if prefix (de_session d0) \<noteq> [] then [dummy_log] else [])\<rparr>;
          tmp = (case temp_dir (de_opts d) of None \<Rightarrow> ''(null)'' | Some t \<Rightarrow> t)
      in case property_storage_create (env_snappy_init ev 0) (sv_fopen sv) tmp of
           None \<Rightarrow> (1, d)
         | Some store \<Rightarrow>
             (case path_repo_create (env_snappy_init ev 1) (env_memalign ev) (sv_fopen sv) tmp of
                None \<Rightarrow> (1, d\<lparr>de_store := store\<rparr>)
              | Some repo \<Rightarrow> (0, d\<lparr>de_store := store, de_repo := repo\<rparr>)))"

text \<open>How a step that may leave the list of logs ends.\<close>

datatype 'a res = Val 'a | Undefined | Past_logs

definition res_of :: "'a option \<Rightarrow> 'a res" where
  "res_of x = (case x of None \<Rightarrow> Undefined | Some y \<Rightarrow> Val y)"

text \<open>The history before the first dumped revision; \<open>ls\<close> is what is left of the logs.\<close>

fun history_loop :: "env \<Rightarrow> server \<Rightarrow> log_revision list \<Rightarrow> revnum \<Rightarrow> de \<Rightarrow> (int \<times> revnum \<times> de) option" where
  "history_loop ev sv [] local_rev d = Some (0, local_rev, d)"
| "history_loop ev sv (l # ls) local_rev d =
     (if lr_revision l < opt_start (de_opts d)
      then (let phrev = (if has_flag (de_opts d) DF_KEEP_REVNUMS then lr_revision l else local_rev)
            in case path_repo_commit_log (env_codec ev) (sv_ra sv) (env_fuel ev) (prefix (de_session d)) (de_opts d)
                      (de_repo d) l phrev (de_logs d) of
                 None \<Rightarrow> None
               | Some (rc, repo) \<Rightarrow>
                   if rc \<noteq> 0 then Some (1, local_rev, d\<lparr>de_repo := repo\<rparr>)
                   else history_loop ev sv ls (local_rev + 1) (d\<lparr>de_repo := repo\<rparr>))
      else Some (0, local_rev, d))"

definition log_at :: "de \<Rightarrow> revnum \<Rightarrow> log_revision option" where
  "log_at d i = (if 0 \<le> i \<and> i < int (length (de_logs d)) then Some (de_logs d ! nat i) else None)"

definition dump_history :: "env \<Rightarrow> server \<Rightarrow> de \<Rightarrow> (int \<times> revnum \<times> de) res" where
  "dump_history ev sv d =
     (case log_fetch_all (sv_get_log sv) (env_fuel ev) (de_session d) 0 (opt_end (de_opts d)) (de_logs d) of
        None \<Rightarrow> Undefined
      | Some (rc, logs, s) \<Rightarrow>
          if rc \<noteq> 0 then Val (1, -1, d\<lparr>de_logs := logs, de_session := s\<rparr>)
          else (case history_loop ev sv logs 0 (d\<lparr>de_logs := logs, de_session := s\<rparr>) of
                  None \<Rightarrow> Undefined
                | Some (rc, local_rev, d1) \<Rightarrow>
                    if rc \<noteq> 0 then Val (1, local_rev, d1)
                    else (let d2 = upd_opts (\<lambda>op. op\<lparr>opt_flags := opt_flags op OR DF_INITIAL_DRY_RUN\<rparr>) d1;
                              local' = (if local_rev > 1 \<or> prefix (de_session d2) = [] then local_rev - 1 else local_rev)
                          in case log_at d2 local' of
                               None \<Rightarrow> Past_logs
                             | Some l \<Rightarrow> Val (0, local', upd_opts (\<lambda>op. op\<lparr>opt_start := lr_revision l\<rparr>) d2))))"

text \<open>The header of the dump file.\<close>

definition dump_file_header :: "env \<Rightarrow> server \<Rightarrow> bool \<Rightarrow> de \<Rightarrow> (int \<times> de) option" where
  "dump_file_header ev sv mid d =
     (if has_flag (de_opts d) DF_NO_INCREMENTAL_HEADER \<and> mid then Some (0, d)
      else (let d1 = de_print (header ''SVN-fs-dump-format-version'' (dec_int (dump_format (de_opts d))) @ nl) d
            in if opt_prefix (de_opts d) = None \<and> prefix (de_session d) = []
               then (case dump_fetch_uuid sv of
                       (rc, None) \<Rightarrow> Some (1, d1)
                     | (rc, Some uuid) \<Rightarrow>
                         (case env_stale ev uuid of
                            None \<Rightarrow> None
                          | Some text' \<Rightarrow> Some (0, de_print (header ''UUID'' text' @ nl) d1)))
               else Some (0, d1)))"

subsection \<open>The main loop\<close>

text \<open>The log entry of the next revision: fetched from the server, or the next one of the list.\<close>

definition next_log :: "env \<Rightarrow> server \<Rightarrow> bool \<Rightarrow> revnum \<Rightarrow> revnum \<Rightarrow> de \<Rightarrow> (int \<times> revnum \<times> de) option" where
  "next_log ev sv logs_fetched global_rev list_idx d =
     (if logs_fetched then Some (0, list_idx + 1, d)
      else (case log_fetch_single (sv_get_log sv) (env_fuel ev) (de_session d) global_rev (opt_end (de_opts d)) of
              None \<Rightarrow> None
            | Some (rc, None, s) \<Rightarrow> Some (1, list_idx, d\<lparr>de_session := s\<rparr>)
            | Some (rc, Some l, s) \<Rightarrow>
                Some (0, int (length (de_logs d)), d\<lparr>de_session := s, de_logs := de_logs d @ [l]\<rparr>)))"

text \<open>Empty revisions up to the number of the next one.\<close>

function padding_loop :: "env \<Rightarrow> revnum \<Rightarrow> revnum \<Rightarrow> de \<Rightarrow> (int \<times> revnum \<times> de) option" where
  "padding_loop ev revision local_rev d =
     (if local_rev < revision
      then (let d1 = de_print (dump_padding_revision local_rev) d
            in case path_repo_commit (env_codec ev) (de_repo d1) local_rev of
                 None \<Rightarrow> None
               | Some (rc, repo) \<Rightarrow>
                   (let d2 = d1\<lparr>de_repo := repo\<rparr>
                    in if rc \<noteq> 0 then Some (1, local_rev, d2)
                       else padding_loop ev revision (local_rev + 1) (if local_rev = 1 then dump_create_user_prefix d2 else d2)))
      else Some (0, local_rev, d))"
  by pat_completeness auto
termination
  by (relation "measure (\<lambda>(ev, revision, local_rev, d). nat (revision - local_rev))") auto

declare padding_loop.simps [simp del]

definition dump_pad :: "env \<Rightarrow> log_revision \<Rightarrow> revnum \<Rightarrow> de \<Rightarrow> (int \<times> revnum \<times> de) option" where
  "dump_pad ev l local_rev d =
     (if has_flag (de_opts d) DF_KEEP_REVNUMS \<and> \<not> has_flag (de_opts d) DF_INITIAL_DRY_RUN
      then padding_loop ev (lr_revision l) local_rev d else Some (0, local_rev, d))"

definition dump_rev_start :: "log_revision \<Rightarrow> revnum \<Rightarrow> de \<Rightarrow> de" where
  "dump_rev_start l local_rev d =
     (if has_flag (de_opts d) DF_INITIAL_DRY_RUN then d
      else (let d1 = de_print (dump_revision_header l local_rev) d
            in if local_rev = 1 then dump_create_user_prefix d1 else d1))"

definition diff_base :: "revnum \<Rightarrow> dump_options \<Rightarrow> revnum" where
  "diff_base global_rev opts =
     (let r = (if global_rev - 1 < 0 then 0 else global_rev - 1)
      in if r < opt_start opts then opt_start opts else r)"

text \<open>What follows a diff: the path repository and the property storage.\<close>

definition dump_commit :: "env \<Rightarrow> revnum \<Rightarrow> de \<Rightarrow> (int \<times> de) option" where
  "dump_commit ev local_rev d =
     (case (if has_flag (de_opts d) DF_INITIAL_DRY_RUN then Some (path_repo_discard (env_codec ev) (de_repo d))
            else path_repo_commit (env_codec ev) (de_repo d) local_rev) of
        None \<Rightarrow> None
      | Some (rc, repo) \<Rightarrow>
          (let d1 = d\<lparr>de_repo := repo\<rparr>
           in if rc \<noteq> 0 then Some (1, d1)
              else (case property_storage_cleanup (de_store d1) of
                      None \<Rightarrow> None
                    | Some (rc, store) \<Rightarrow> Some (if rc \<noteq> 0 then 1 else 0, d1\<lparr>de_store := store\<rparr>))))"

text \<open>One round: status, the next local and global revision and list index, and the state.\<close>

type_synonym round = "int \<times> revnum \<times> revnum \<times> revnum \<times> de"

definition dump_diff_commit ::
  "env \<Rightarrow> server \<Rightarrow> revnum \<Rightarrow> revnum \<Rightarrow> revnum \<Rightarrow> log_revision \<Rightarrow> de \<Rightarrow> round option" where
  "dump_diff_commit ev sv global_rev local_rev idx l d =
     (let opts = de_opts d;
          d1 = delta_setup_editor l local_rev (de_logs d) d
      in case dump_do_diff ev sv (diff_base global_rev opts) (lr_revision l) (global_rev = opt_start opts) d1 of
           None \<Rightarrow> None
         | Some (rc, d2) \<Rightarrow>
             if rc \<noteq> 0 then Some (1, local_rev, global_rev, idx, d2)
             else (case dump_commit ev local_rev d2 of
                     None \<Rightarrow> None
                   | Some (rc, d3) \<Rightarrow>
                       if rc \<noteq> 0 then Some (1, local_rev, global_rev, idx, d3)
                       else Some (0, local_rev + 1, lr_revision l + 1, idx,
                              upd_opts (\<lambda>op. op\<lparr>opt_flags := opt_flags op AND NOT DF_INITIAL_DRY_RUN\<rparr>) d3)))"

definition dump_round :: "env \<Rightarrow> server \<Rightarrow> bool \<Rightarrow> revnum \<Rightarrow> revnum \<Rightarrow> revnum \<Rightarrow> de \<Rightarrow> round res" where
  "dump_round ev sv logs_fetched local_rev global_rev list_idx d =
     (case next_log ev sv logs_fetched global_rev list_idx d of
        None \<Rightarrow> Undefined
      | Some (rc, idx, d1) \<Rightarrow>
          if rc \<noteq> 0 then Val (1, local_rev, global_rev, idx, d1)
          else (case log_at d1 idx of
                  None \<Rightarrow> Past_logs
                | Some l \<Rightarrow>
                    (case dump_pad ev l local_rev d1 of
                       None \<Rightarrow> Undefined
                     | Some (rc, local', d2) \<Rightarrow>
                         if rc \<noteq> 0 then Val (1, local', global_rev, idx, d2)
                         else res_of (dump_diff_commit ev sv global_rev local' idx l (dump_rev_start l local' d2)))))"

fun dump_loop :: "nat \<Rightarrow> env \<Rightarrow> server \<Rightarrow> bool \<Rightarrow> revnum \<Rightarrow> revnum \<Rightarrow> revnum \<Rightarrow> de \<Rightarrow> (int \<times> de) res option" where
  "dump_loop 0 ev sv logs_fetched local_rev global_rev list_idx d = None"
| "dump_loop (Suc fuel) ev sv logs_fetched local_rev global_rev list_idx d =
     (case dump_round ev sv logs_fetched local_rev global_rev list_idx d of
        Undefined \<Rightarrow> Some Undefined
      | Past_logs \<Rightarrow> Some Past_logs
      | Val (rc, local', global', idx, d') \<Rightarrow>
          if rc \<noteq> 0 then Some (Val (1, delta_cleanup d'))
          else if global' \<le> opt_end (de_opts d') then dump_loop fuel ev sv logs_fetched local' global' idx d'
          else Some (Val (0, delta_cleanup d')))"

text \<open>The initialisation right before the loop.\<close>

definition dump_start :: "nat \<Rightarrow> env \<Rightarrow> server \<Rightarrow> bool \<Rightarrow> revnum \<Rightarrow> de \<Rightarrow> (int \<times> de) res option" where
  "dump_start fuel ev sv mid local_rev d =
     (if mid
      then (case log_at d (int (length (de_logs d)) - 1) of
              None \<Rightarrow> Some Past_logs
            | Some l \<Rightarrow>
                (let d1 = upd_opts (\<lambda>op. op\<lparr>opt_end := lr_revision l\<rparr>) d
                 in dump_loop fuel ev sv True
                      (if has_flag (de_opts d1) DF_KEEP_REVNUMS then opt_start (de_opts d1) else local_rev)
                      (opt_start (de_opts d1)) (local_rev - 1) d1))
      else dump_loop fuel ev sv False (if opt_start (de_opts d) = 0 then 0 else 1) (opt_start (de_opts d)) 0 d)"

definition dump_from_storages :: "nat \<Rightarrow> env \<Rightarrow> server \<Rightarrow> bool \<Rightarrow> de \<Rightarrow> (int \<times> de) res option" where
  "dump_from_storages fuel ev sv mid d =
     (case (if mid then dump_history ev sv d
            else Val (0, -1, if prefix (de_session d) \<noteq> [] \<and> opt_start (de_opts d) = 0
                             then upd_opts (\<lambda>op. op\<lparr>opt_start := 1\<rparr>) d else d)) of
        Undefined \<Rightarrow> Some Undefined
      | Past_logs \<Rightarrow> Some Past_logs
      | Val (rc, local_rev, d1) \<Rightarrow>
          if rc \<noteq> 0 then Some (Val (1, d1))
          else (case dump_file_header ev sv mid d1 of
                  None \<Rightarrow> Some Undefined
                | Some (rc, d2) \<Rightarrow>
                    if rc \<noteq> 0 then Some (Val (1, d2)) else dump_start fuel ev sv mid local_rev d2))"

definition dump :: "nat \<Rightarrow> env \<Rightarrow> server \<Rightarrow> de \<Rightarrow> (int \<times> de) res option" where
  "dump fuel ev sv d0 =
     (let d = upd_opts (\<lambda>op. if has_flag op DF_USE_DELTAS then op\<lparr>dump_format := 3\<rparr> else op) d0;
          mid = start_mid d
      in case dump_range sv d of
           None \<Rightarrow> Some Undefined
         | Some (rc, d1) \<Rightarrow>
             if rc \<noteq> 0 then Some (Val (1, d1))
             else if session_check_reparent (sv_check_path sv []) (de_session d1) (opt_start (de_opts d1)) \<noteq> 0
             then Some (Val (1, d1))
             else (case dump_storages ev sv d1 of
                     (rc, d2) \<Rightarrow>
                       if rc \<noteq> 0 then Some (Val (1, d2)) else dump_from_storages fuel ev sv mid d2))"

end
