(* ===== verification/Program.thy ===== *)
theory Program
  imports Dump Complex_Main
begin

text \<open>
  The program: the command line of \<open>src/main.c\<close> and the helpers of \<open>src/utils.c\<close> that no other
  component uses. \<open>parse_revnum\<close> writes through two pointers that may be equal, so it works on a
  store of numbers. Messages on standard error are not part of the state; the text of a chain of
  errors is what \<open>utils_handle_error\<close> prints.
\<close>

unbundle bit_operations_syntax

section \<open>Definitions\<close>

subsection \<open>Scanning\<close>

text \<open>\<open>sscanf\<close> for the conversions \<open>%ld\<close>, \<open>%4s\<close>, \<open>%c\<close> and literal characters: the values it
  assigns, in order. A number outside of the range of \<open>long\<close> is clipped, as by \<open>strtol\<close>.\<close>

datatype conv = C_ld | C_4s | C_c | C_lit char

datatype scanned = S_ld int | S_s string | S_c char

definition is_space :: "char \<Rightarrow> bool" where
  "is_space c \<longleftrightarrow> (of_char c :: nat) = 32 \<or> (9 \<le> (of_char c :: nat) \<and> (of_char c :: nat) \<le> 13)"

definition LONG_MAX :: int where "LONG_MAX = 2 ^ 63 - 1"

definition clip_long :: "int \<Rightarrow> int" where
  "clip_long i = max (- LONG_MAX - 1) (min LONG_MAX i)"

definition scan_ld :: "string \<Rightarrow> (int \<times> string) option" where
  "scan_ld s0 =
     (let s = dropWhile is_space s0;
          neg = (s \<noteq> [] \<and> hd s = CHR ''-'');
          s1 = (if s \<noteq> [] \<and> (hd s = CHR ''-'' \<or> hd s = CHR ''+'') then tl s else s);
          ds = takeWhile is_digit s1
      in if ds = [] then None
         else Some (clip_long (if neg then - int (undec ds) else int (undec ds)), dropWhile is_digit s1))"

definition scan_4s :: "string \<Rightarrow> (string \<times> string) option" where
  "scan_4s s0 =
     (let s = dropWhile is_space s0;
          w = takeWhile (\<lambda>c. \<not> is_space c) (take 4 s)
      in if w = [] then None else Some (w, drop (length w) s))"

fun sscanf :: "conv list \<Rightarrow> string \<Rightarrow> scanned list" where
  "sscanf [] s = []"
| "sscanf (C_lit c # cs) s = (if s \<noteq> [] \<and> hd s = c then sscanf cs (tl s) else [])"
| "sscanf (C_c # cs) s = (if s \<noteq> [] then S_c (hd s) # sscanf cs (tl s) else [])"
| "sscanf (C_ld # cs) s = (case scan_ld s of None \<Rightarrow> [] | Some (i, s') \<Rightarrow> S_ld i # sscanf cs s')"
| "sscanf (C_4s # cs) s = (case scan_4s s of None \<Rightarrow> [] | Some (w, s') \<Rightarrow> S_s w # sscanf cs s')"

subsection \<open>Revision ranges\<close>

definition to_lower :: "char \<Rightarrow> char" where
  "to_lower c = (let n = of_char c :: nat in if 65 \<le> n \<and> n \<le> 90 then char_of (n + 32) else c)"

definition is_head :: "string \<Rightarrow> bool" where
  "is_head s \<longleftrightarrow> map to_lower s = ''head''"

text \<open>A store of \<open>svn_revnum_t\<close> objects; the pointers are addresses in it.\<close>

type_synonym longs = "nat \<Rightarrow> int"

text \<open>\<open>sscanf\<close> stores what it has read even when a later part of the format does not match.\<close>

definition store_ld :: "nat \<Rightarrow> scanned list \<Rightarrow> nat \<Rightarrow> longs \<Rightarrow> longs" where
  "store_ld k vs p m = (if k < length vs then (case vs ! k of S_ld i \<Rightarrow> m(p := i) | _ \<Rightarrow> m) else m)"

definition parse_single :: "string \<Rightarrow> nat \<Rightarrow> nat \<Rightarrow> longs \<Rightarrow> int \<times> longs" where
  "parse_single str start' end' m =
     (let vs = sscanf [C_ld, C_c] str;
          m1 = store_ld 0 vs end' m
      in if length vs = 1
         then (if m1 end' < 1 then (1, m1) else (0, m1(start' := m1 end' - 1)))
         else (case sscanf [C_4s, C_c] str of
                 [S_s tmp1] \<Rightarrow> if is_head tmp1 then (0, m1(start' := -1, end' := -1)) else (1, m1)
               | _ \<Rightarrow> (1, m1)))"

definition parse_range :: "string \<Rightarrow> nat \<Rightarrow> nat \<Rightarrow> longs \<Rightarrow> int \<times> longs" where
  "parse_range str start' end' m =
     (let vs = sscanf [C_ld, C_lit CHR '':'', C_4s, C_c] str;
          m1 = store_ld 0 vs start' m
      in if length vs = 2 \<and> (case vs ! 1 of S_s tmp1 \<Rightarrow> is_head tmp1 | _ \<Rightarrow> False)
         then (if m1 start' < 0 then (1, m1) else (0, m1(end' := -1)))
         else (let ws = sscanf [C_ld, C_lit CHR '':'', C_ld, C_c] str;
                   m2 = store_ld 1 ws end' (store_ld 0 ws start' m1)
               in if length ws = 2
                  then (if m2 start' < 0 \<or> m2 end' < 0 \<or> m2 end' < m2 start' then (1, m2) else (0, m2))
                  else parse_single str start' end' m2))"

definition parse_revnum :: "string \<Rightarrow> nat \<Rightarrow> nat \<Rightarrow> longs \<Rightarrow> int \<times> longs" where
  "parse_revnum str start' end' m =
     (case sscanf [C_4s, C_lit CHR '':'', C_4s, C_c] str of
        [S_s tmp1, S_s tmp2] \<Rightarrow>
          if is_head tmp1 \<and> is_head tmp2 then (0, m(start' := -1, end' := -1)) else parse_range str start' end' m
      | _ \<Rightarrow> parse_range str start' end' m)"

subsection \<open>The command line\<close>

definition PACKAGE :: string where "PACKAGE = ''rsvndump''"
definition PACKAGE_VERSION :: string where "PACKAGE_VERSION = ''0.6.2''"
definition PACKAGE_BUGREPORT :: string where "PACKAGE_BUGREPORT = ''jonas@jgehring.net''"

definition print_version :: string where
  "print_version =
     PACKAGE @ '' '' @ PACKAGE_VERSION @ nl @
     ''Copyright (C) 2008-present Jonas Gehring <'' @ PACKAGE_BUGREPORT @ ''>'' @ nl @
     ''Released under the GNU General Public License.'' @ nl"

definition usage_dump_options :: "string list" where
  "usage_dump_options =
     [''Dump options:'',
      ''    -r [--revision] ARG       specify revision number (or X:Y range)'',
      ''    --deltas                  use deltas in dump output'',
      ''    --incremental             dump incrementally'',
      ''    --prefix ARG              prepend ARG to the path that is being dumped'',
      ''    --keep-revnums            keep the dumped revision numbers in sync with'',
      ''                              the repository by using empty revisions for'',
      ''                              padding'',
      ''    --no-incremental-header   don'' @ [CHR 0x27] @ ''t print the dumpfile header when dumping'',
      ''                              with --incremental and not starting at'',
      ''                              revision 0'', []]"

definition print_usage :: string where
  "print_usage =
     print_version @ nl @ ''USAGE: '' @ PACKAGE @ '' [options] <url>'' @ nl @ nl @
     concat (map (\<lambda>l. l @ nl)
       ([''Common options:'',
         ''    -h [--help]               print a nice help screen'',
         ''    --version                 print the program name and version'',
         ''    -q [--quiet]              be quiet'',
         ''    -v [--verbose]            print extra progress'',
         ''    -n [--dry-run]            don'' @ [CHR 0x27] @ ''t fetch text deltas'', []] @
        usage_dump_options @
        [''Subversion compatibility options:'',
         ''    -u [--username] ARG       specify a username ARG'',
         ''    -p [--password] ARG       specify a password ARG'',
         ''    --no-auth-cache           do not cache authentication tokens'',
         ''    --non-interactive         do no interactive prompting'',
         ''    --config-dir ARG          read user configuration files from directory ARG'', [],
         ''Report bugs to <'' @ PACKAGE_BUGREPORT @ ''>'']))"

text \<open>What the loop over the arguments works on. \<open>m_argv\<close> is the argument vector as it is left
  behind for those who can see it.\<close>

record prog =
  m_session :: session
  m_opts :: dump_options
  m_loglevel :: int
  m_argv :: "string list"
  m_out :: string

definition opt_flag :: "u32 \<Rightarrow> prog \<Rightarrow> prog" where
  "opt_flag f p = p\<lparr>m_opts := (m_opts p)\<lparr>opt_flags := opt_flags (m_opts p) OR f\<rparr>\<rparr>"

definition ses_flag :: "u32 \<Rightarrow> prog \<Rightarrow> prog" where
  "ses_flag f p = p\<lparr>m_session := (m_session p)\<lparr>sflags := sflags (m_session p) OR f\<rparr>\<rparr>"

text \<open>The options without an argument; \<open>None\<close> for any other argument.\<close>

definition simple_option :: "string \<Rightarrow> prog \<Rightarrow> prog option" where
  "simple_option a p =
     (if a = ''-q'' \<or> a = ''--quiet'' then Some (p\<lparr>m_loglevel := -1\<rparr>)
      else if a = ''-v'' \<or> a = ''--verbose''
      then Some (p\<lparr>m_loglevel := (if m_loglevel p < 0 then 0 else m_loglevel p) + 1\<rparr>)
      else if a = ''-n'' \<or> a = ''--dry-run'' then Some (opt_flag DF_DRY_RUN p)
      else if a = ''--obfuscate'' then Some (ses_flag SF_OBFUSCATE p)
      else if a = ''--no-auth-cache'' then Some (ses_flag SF_NO_AUTH_CACHE p)
      else if a = ''--non-interactive'' then Some (ses_flag SF_NON_INTERACTIVE p)
      else if a = ''--keep-revnums'' then Some (opt_flag DF_KEEP_REVNUMS p)
      else if a = ''--no-incremental-header'' then Some (opt_flag DF_NO_INCREMENTAL_HEADER p)
      else if a = ''--deltas'' then Some (opt_flag DF_USE_DELTAS p)
      else if a = ''--incremental'' then Some (opt_flag DF_INCREMENTAL p)
      else if a = ''--online'' \<or> a = ''--dump-uuid'' \<or> a = ''--no-check-certificate'' then Some p
      else None)"

text \<open>The revision options: the addresses of \<open>opts.start\<close> and \<open>opts.end\<close> are 0 and 1.\<close>

definition opt_revnum :: "string \<Rightarrow> nat \<Rightarrow> nat \<Rightarrow> prog \<Rightarrow> prog option" where
  "opt_revnum val start' end' p =
     (case parse_revnum val start' end' ((\<lambda>_. 0)(0 := opt_start (m_opts p), 1 := opt_end (m_opts p))) of
        (rc, m) \<Rightarrow>
          if rc \<noteq> 0 then None
          else Some (p\<lparr>m_opts := (m_opts p)\<lparr>opt_start := m 0, opt_end := m 1\<rparr>\<rparr>))"

definition blank :: "string \<Rightarrow> string" where
  "blank s = replicate (length s) CHR '' ''"

datatype arg_result = Arg_next prog | Arg_skip prog | Arg_finish prog | Arg_failure prog

text \<open>
  An option with its argument, if there is one: \<open>Arg_skip\<close> continues behind the argument. The last
  two options take an argument without looking whether there is one.
\<close>

definition value_option :: "string \<Rightarrow> string option \<Rightarrow> prog \<Rightarrow> arg_result option" where
  "value_option a val p =
     (if a = ''-r'' \<or> a = ''--revision''
      then Some (case val of
             None \<Rightarrow> Arg_failure p
           | Some v \<Rightarrow> (case opt_revnum v 0 1 p of None \<Rightarrow> Arg_failure p | Some p' \<Rightarrow> Arg_skip (p'\<lparr>m_argv := m_argv p @ [v]\<rparr>)))
      else if a = ''-u'' \<or> a = ''--username''
      then Some (case val of
             None \<Rightarrow> Arg_failure p
           | Some v \<Rightarrow> Arg_skip (p\<lparr>m_session := (m_session p)\<lparr>username := Some v\<rparr>, m_argv := m_argv p @ [blank v]\<rparr>))
      else if a = ''-p'' \<or> a = ''--password''
      then Some (case val of
             None \<Rightarrow> Arg_failure p
           | Some v \<Rightarrow> Arg_skip (p\<lparr>m_session := (m_session p)\<lparr>password := Some v\<rparr>, m_argv := m_argv p @ [blank v]\<rparr>))
      else if a = ''--config-dir''
      then Some (case val of
             None \<Rightarrow> Arg_failure p
           | Some v \<Rightarrow> Arg_skip (p\<lparr>m_session := (m_session p)\<lparr>config_dir := Some v\<rparr>, m_argv := m_argv p @ [v]\<rparr>))
      else if a = ''--prefix''
      then Some (case val of
             None \<Rightarrow> Arg_failure p
           | Some v \<Rightarrow> Arg_skip (p\<lparr>m_opts := (m_opts p)\<lparr>opt_prefix := Some v\<rparr>, m_argv := m_argv p @ [v]\<rparr>))
      else if a = ''--stop''
      then Some (case val of
             None \<Rightarrow> Arg_failure p
           | Some v \<Rightarrow>
               (case opt_revnum v 1 1 (p\<lparr>m_opts := (m_opts p)\<lparr>opt_start := 0\<rparr>\<rparr>) of
                  None \<Rightarrow> Arg_failure p
                | Some p' \<Rightarrow> Arg_skip (p'\<lparr>m_argv := m_argv p @ [v]\<rparr>)))
      else if a = ''-d'' \<or> a = ''--download-dir'' \<or> a = ''-o'' \<or> a = ''--outfile''
      then Some (Arg_skip (case val of None \<Rightarrow> p | Some v \<Rightarrow> p\<lparr>m_argv := m_argv p @ [v]\<rparr>))
      else None)"

definition parse_arg :: "(string \<Rightarrow> bool) \<Rightarrow> string \<Rightarrow> string option \<Rightarrow> prog \<Rightarrow> arg_result" where
  "parse_arg is_url a val p0 =
     (let p = p0\<lparr>m_argv := m_argv p0 @ [a]\<rparr>
      in if a = ''-h'' \<or> a = ''--help'' then Arg_finish (p\<lparr>m_out := m_out p @ print_usage\<rparr>)
         else if a = ''--version'' then Arg_finish (p\<lparr>m_out := m_out p @ print_version\<rparr>)
         else (case simple_option a p of
                 Some p' \<Rightarrow> Arg_next p'
               | None \<Rightarrow>
                   (case value_option a val p of
                      Some r \<Rightarrow> r
                    | None \<Rightarrow>
                        if \<not> is_url a then Arg_failure p
                        else if url (m_session p) \<noteq> None then Arg_failure p
                        else Arg_next (p\<lparr>m_session := (m_session p)\<lparr>url := Some a\<rparr>\<rparr>))))"

fun parse_args :: "(string \<Rightarrow> bool) \<Rightarrow> string list \<Rightarrow> prog \<Rightarrow> arg_result" where
  "parse_args is_url [] p = Arg_next p"
| "parse_args is_url [a] p =
     (case parse_arg is_url a None p of Arg_skip p' \<Rightarrow> Arg_next p' | r \<Rightarrow> r)"
| "parse_args is_url (a # b # as) p =
     (case parse_arg is_url a (Some b) p of
        Arg_next p' \<Rightarrow> parse_args is_url (b # as) p'
      | Arg_skip p' \<Rightarrow> parse_args is_url as p'
      | r \<Rightarrow> r)"

subsection \<open>The entry point\<close>

text \<open>What the program finds around it.\<close>

record world =
  w_cmdline_init :: bool
  w_is_url :: "string \<Rightarrow> bool"
  w_tmpdir :: "string option"
  w_mkdtemp :: "string \<Rightarrow> string option"
  w_svn :: svn_setup
  w_rand :: "nat \<Rightarrow> nat"
  w_env :: env
  w_server :: server

text \<open>The state before the storages are created; until then nothing reads them.\<close>

definition de_init :: "session \<Rightarrow> dump_options \<Rightarrow> de" where
  "de_init s opts =
     \<lparr>de_session = s, de_opts = opts, de_logs = [], de_log = dummy_log, de_dumped = [], de_local_revnum = -1,
      de_root = None, de_nodes = [], de_repo = the (path_repo_create True memory (disk 0) []),
      de_store = the (property_storage_create True (disk 0) []), hashes_created = False, delta_hash = [],
      md5_hash = [], de_files = (\<lambda>_. None), de_tmp = 0, de_out = []\<rparr>"

text \<open>Exit status, standard output, and the directory that is handed to \<open>utils_rrmdir\<close>, if any.\<close>

type_synonym exit_state = "int \<times> string \<times> string option"

definition utils_canonicalize_pstrdup :: "svn_setup \<Rightarrow> string \<Rightarrow> string" where
  "utils_canonicalize_pstrdup svn path = svn_path_canonicalize svn path"

definition main_temp_dir :: "world \<Rightarrow> string option" where
  "main_temp_dir w =
     w_mkdtemp w (utils_canonicalize_pstrdup (w_svn w)
       ((case w_tmpdir w of None \<Rightarrow> ''/tmp'' | Some t \<Rightarrow> t) @ ''/'' @ PACKAGE @ ''XXXXXX''))"

text \<open>
  After the dump: \<open>session_close\<close> clears the pool that the name of the temporary directory is in, and the name is
  read after that, to remove the directory or to print it.
\<close>

definition main_finish :: "env \<Rightarrow> string \<Rightarrow> string \<Rightarrow> int \<Rightarrow> exit_state res" where
  "main_finish ev dir out ret =
     (case env_stale ev (Freed dir) of
        None \<Rightarrow> Undefined
      | Some name \<Rightarrow> Val (if ret = 0 then (0, out, Some name) else (1, out, None)))"

definition main_run :: "nat \<Rightarrow> world \<Rightarrow> prog \<Rightarrow> exit_state res option" where
  "main_run fuel w p =
     (if url (m_session p) = None then Some (Val (1, m_out p @ print_usage, None))
      else (case main_temp_dir w of
              None \<Rightarrow> Some (Val (1, m_out p, None))
            | Some dir \<Rightarrow>
                (case session_open (w_svn w) (env_fuel (w_env w)) (m_session p) of
                   None \<Rightarrow> Some Undefined
                 | Some (rc, s) \<Rightarrow>
                     if rc \<noteq> 0 then Some (Val (0, m_out p, Some dir))
                     else (case dump fuel (w_env w) (w_server w) (de_init s ((m_opts p)\<lparr>temp_dir := Some dir\<rparr>)) of
                             None \<Rightarrow> None
                           | Some Undefined \<Rightarrow> Some Undefined
                           | Some Past_logs \<Rightarrow> Some Past_logs
                           | Some (Val (ret, d)) \<Rightarrow> Some (main_finish (w_env w) dir (m_out p @ de_out d) ret)))))"

definition main :: "nat \<Rightarrow> world \<Rightarrow> string list \<Rightarrow> exit_state res option" where
  "main fuel w args =
     (if \<not> w_cmdline_init w then Some (Val (1, [], None))
      else (case parse_args (w_is_url w) args
                   \<lparr>m_session = session_create (w_rand w), m_opts = dump_options_create, m_loglevel = 0,
                    m_argv = [], m_out = []\<rparr> of
              Arg_finish p \<Rightarrow> Some (Val (0, m_out p, None))
            | Arg_failure p \<Rightarrow> Some (Val (1, m_out p, None))
            | Arg_skip p \<Rightarrow> main_run fuel w p
            | Arg_next p \<Rightarrow> main_run fuel w p))"

subsection \<open>Utilities\<close>

text \<open>
  A chain of errors is the list of their codes and messages. A code without a message is printed
  once; \<open>strerror\<close> is the text of a code: of \<open>svn_strerror\<close>, of \<open>apr_strerror\<close> after recoding, or
  the message that recoding failed.
\<close>

fun handle_error_loop :: "(int \<Rightarrow> string) \<Rightarrow> string \<Rightarrow> (int \<times> string option) list \<Rightarrow> int list \<Rightarrow> string" where
  "handle_error_loop strerror pre [] empties = []"
| "handle_error_loop strerror pre ((code, msg) # es) empties =
     (case msg of
        Some m \<Rightarrow> pre @ m @ nl @ handle_error_loop strerror pre es empties
      | None \<Rightarrow>
          if code \<in> set empties then handle_error_loop strerror pre es empties
          else pre @ strerror code @ nl @ handle_error_loop strerror pre es (empties @ [code]))"

definition utils_handle_error :: "(int \<Rightarrow> string) \<Rightarrow> (int \<times> string option) list \<Rightarrow> bool \<Rightarrow> string \<Rightarrow> string \<times> int option" where
  "utils_handle_error strerror error fatal pre =
     (handle_error_loop strerror pre error [], if fatal then Some 1 else None)"

text \<open>\<open>bsearch\<close> on a sorted array of strings.\<close>

function bsearch :: "string \<Rightarrow> string list \<Rightarrow> nat \<Rightarrow> nat \<Rightarrow> nat option" where
  "bsearch s a l u =
     (if l < u
      then (let idx = (l + u) div 2
            in if s < a ! idx then bsearch s a l idx
               else if s > a ! idx then bsearch s a (idx + 1) u
               else Some idx)
      else None)"
  by pat_completeness auto
termination
  by (relation "measure (\<lambda>(s, a, l, u). u - l)") auto

declare bsearch.simps [simp del]

definition utils_search :: "string \<Rightarrow> string list \<Rightarrow> nat option" where
  "utils_search s a = bsearch s a 0 (length a)"

text \<open>The stop watch: milliseconds of the day, from the fields of the local time.\<close>

definition stopwatch_create :: "int \<Rightarrow> int \<Rightarrow> int \<Rightarrow> int \<Rightarrow> int" where
  "stopwatch_create hour minute second usec =
     3600000 * hour + 60000 * minute + 1000 * second + usec div 1000"

definition stopwatch_elapsed :: "int \<Rightarrow> int \<Rightarrow> rat" where
  "stopwatch_elapsed now mds =
     (let d = now - mds; d' = (if d < 0 then d + 86400 * 1000 else d) in of_int d' / 1000)"

section \<open>Revision ranges\<close>

lemma digit_not_space: "is_digit c \<Longrightarrow> \<not> is_space c"
  by (auto simp: is_digit_def is_space_def)

lemma dec_nat_scan:
  assumes "rest = [] \<or> \<not> is_digit (hd rest)"
  shows "dropWhile is_space (dec_nat n @ rest) = dec_nat n @ rest" "takeWhile is_digit (dec_nat n @ rest) = dec_nat n"
    "dropWhile is_digit (dec_nat n @ rest) = rest" "hd (dec_nat n @ rest) \<noteq> CHR ''-''" "hd (dec_nat n @ rest) \<noteq> CHR ''+''"
proof -
  have h: "is_digit (hd (dec_nat n))" using dec_nat_digits [of "hd (dec_nat n)" n] by simp
  then show "dropWhile is_space (dec_nat n @ rest) = dec_nat n @ rest"
    using digit_not_space by (cases "dec_nat n") auto
  show "hd (dec_nat n @ rest) \<noteq> CHR ''-''" "hd (dec_nat n @ rest) \<noteq> CHR ''+''" using h by (auto simp: is_digit_def)
  have "takeWhile is_digit (dec_nat n @ rest) = dec_nat n @ takeWhile is_digit rest"
    "dropWhile is_digit (dec_nat n @ rest) = dropWhile is_digit rest"
    using dec_nat_digits by (auto simp: takeWhile_append dropWhile_append)
  then show "takeWhile is_digit (dec_nat n @ rest) = dec_nat n" "dropWhile is_digit (dec_nat n @ rest) = rest"
    using assms by (cases rest; simp)+
qed

lemma scan_ld_dec:
  assumes "0 \<le> i" "i \<le> LONG_MAX" "rest = [] \<or> \<not> is_digit (hd rest)"
  shows "scan_ld (dec_int i @ rest) = Some (i, rest)"
  using assms(1,2) dec_nat_scan [OF assms(3), of "nat i"]
  by (simp add: scan_ld_def dec_int_def Let_def clip_long_def LONG_MAX_def)

lemma scan_4s_le: "scan_4s s = Some (w, s') \<Longrightarrow> length w \<le> 4"
  using le_trans [OF length_takeWhile_le, of "take 4 (dropWhile is_space s)" 4] by (auto simp: scan_4s_def Let_def split: if_splits)

text \<open>The word \<open>%4s\<close> reads from a number is no \<open>HEAD\<close>: it begins with a digit.\<close>

lemma scan_4s_digits:
  assumes "scan_4s (dec_nat n @ rest) = Some (w, s')" "rest = [] \<or> \<not> is_digit (hd rest)"
  shows "\<not> is_head w"
proof -
  obtain c cs where c: "dec_nat n = c # cs" by (cases "dec_nat n") simp_all
  have d: "is_digit c" using dec_nat_digits [of c n] c by simp
  have "hd w = c" "w \<noteq> []"
    using assms(1) dec_nat_scan(1) [OF assms(2), of n] c digit_not_space [OF d]
    by (auto simp: scan_4s_def Let_def take_Cons' split: if_splits)
  moreover have "to_lower c \<noteq> CHR ''h''" using d by (auto simp: to_lower_def is_digit_def Let_def)
  ultimately show ?thesis by (cases w) (auto simp: is_head_def)
qed

lemma no_head:
  assumes "\<And>w s'. scan_4s str = Some (w, s') \<Longrightarrow> \<not> is_head w"
  shows "parse_revnum str s e m = parse_range str s e m"
  using assms by (auto simp: parse_revnum_def split: option.splits list.splits scanned.splits)

text \<open>The word \<open>HEAD\<close> in any mix of cases.\<close>

lemma head_letters:
  assumes "is_head h"
  shows "length h = 4" "\<forall>c \<in> set h. \<not> is_space c" "hd h \<noteq> CHR '':'' \<and> \<not> is_digit (hd h) \<and> hd h \<noteq> CHR ''-'' \<and> hd h \<noteq> CHR ''+''"
proof -
  have map: "map to_lower h = ''head''" using assms by (simp add: is_head_def)
  show len: "length h = 4" using arg_cong [OF map, of length] by simp
  have "\<not> is_space c" if "to_lower c \<in> set ''head''" for c
    using that by (auto simp: to_lower_def is_space_def Let_def split: if_splits)
  then show "\<forall>c \<in> set h. \<not> is_space c" using map by (metis (no_types) image_eqI list.set_map)
  have "to_lower (hd h) = CHR ''h''" using map len by (cases h) auto
  then show "hd h \<noteq> CHR '':'' \<and> \<not> is_digit (hd h) \<and> hd h \<noteq> CHR ''-'' \<and> hd h \<noteq> CHR ''+''"
    by (auto simp: to_lower_def is_digit_def Let_def split: if_splits)
qed

lemma scan_4s_head:
  assumes "is_head h"
  shows "scan_4s (h @ s) = Some (h, s)"
proof -
  note h = head_letters [OF assms]
  have "dropWhile is_space (h @ s) = h @ s" using h(1,2) by (cases h) auto
  moreover have "takeWhile (\<lambda>c. \<not> is_space c) (take 4 (h @ s)) = h" using h(1,2) by (simp add: takeWhile_eq_all_conv)
  ultimately show ?thesis using h(1) unfolding scan_4s_def Let_def by (metis append_eq_conv_conj length_0_conv zero_neq_numeral)
qed

lemma scan_ld_head:
  assumes "is_head h"
  shows "scan_ld (h @ s) = None"
proof -
  note h = head_letters [OF assms]
  have "dropWhile is_space (h @ s) = h @ s" "hd (h @ s) = hd h" "h \<noteq> []" using h(1,2) by (cases h; auto)+
  then show ?thesis using h(3) by (cases "h @ s") (auto simp: scan_ld_def Let_def)
qed

lemma colon_no_digit: "\<not> is_digit (CHR '':'')"
  by (simp add: is_digit_def)

lemma range_no_head:
  assumes "0 \<le> x" "rest = [] \<or> \<not> is_digit (hd rest)"
  shows "parse_revnum (dec_int x @ rest) s e m = parse_range (dec_int x @ rest) s e m"
  using assms scan_4s_digits [of "nat x" rest] by (intro no_head) (auto simp: dec_int_def)

lemma sscanf_ld_4s:
  assumes "0 \<le> x" "x \<le> LONG_MAX" "0 \<le> y" "y \<le> LONG_MAX"
  shows "sscanf [C_ld, C_lit CHR '':'', C_ld, C_c] (dec_int x @ CHR '':'' # dec_int y) = [S_ld x, S_ld y]"
    "\<exists>vs. sscanf [C_ld, C_lit CHR '':'', C_4s, C_c] (dec_int x @ CHR '':'' # dec_int y) = S_ld x # vs \<and>
       \<not> (length vs = 1 \<and> (case vs ! 0 of S_s w \<Rightarrow> is_head w | _ \<Rightarrow> False))"
proof -
  have x: "scan_ld (dec_int x @ CHR '':'' # dec_int y) = Some (x, CHR '':'' # dec_int y)"
    by (rule scan_ld_dec) (use assms colon_no_digit in auto)
  have y: "scan_ld (dec_int y) = Some (y, [])" using scan_ld_dec [OF assms(3,4), of "[]"] by simp
  show "sscanf [C_ld, C_lit CHR '':'', C_ld, C_c] (dec_int x @ CHR '':'' # dec_int y) = [S_ld x, S_ld y]" using x y by simp
  have "\<not> is_head w" if "scan_4s (dec_int y) = Some (w, s')" for w s'
    using scan_4s_digits [of "nat y" "[]"] that assms(3) by (auto simp: dec_int_def)
  then show "\<exists>vs. sscanf [C_ld, C_lit CHR '':'', C_4s, C_c] (dec_int x @ CHR '':'' # dec_int y) = S_ld x # vs \<and>
       \<not> (length vs = 1 \<and> (case vs ! 0 of S_s w \<Rightarrow> is_head w | _ \<Rightarrow> False))"
    using x by (auto split: option.split)
qed

lemma parse_two:
  assumes "0 \<le> x" "x \<le> LONG_MAX" "0 \<le> y" "y \<le> LONG_MAX"
  shows "parse_revnum (dec_int x @ CHR '':'' # dec_int y) s e m =
    (if (m(s := x, e := y)) e < (m(s := x, e := y)) s then 1 else 0, m(s := x, e := y))"
proof -
  obtain vs where vs: "sscanf [C_ld, C_lit CHR '':'', C_4s, C_c] (dec_int x @ CHR '':'' # dec_int y) = S_ld x # vs"
    "\<not> (length vs = 1 \<and> (case vs ! 0 of S_s w \<Rightarrow> is_head w | _ \<Rightarrow> False))" using sscanf_ld_4s(2) [OF assms] by blast
  have "parse_range (dec_int x @ CHR '':'' # dec_int y) s e m =
    (if (m(s := x, e := y)) e < (m(s := x, e := y)) s then 1 else 0, m(s := x, e := y))"
    unfolding parse_range_def vs(1) sscanf_ld_4s(1) [OF assms] using vs(2) assms
    by (auto simp: Let_def store_ld_def)
  then show ?thesis using range_no_head [OF assms(1), of "CHR '':'' # dec_int y"] colon_no_digit by simp
qed

lemma parse_to_head:
  assumes "0 \<le> x" "x \<le> LONG_MAX" "is_head h"
  shows "parse_revnum (dec_int x @ CHR '':'' # h) s e m = (0, m(s := x, e := -1))"
proof -
  have "scan_ld (dec_int x @ CHR '':'' # h) = Some (x, CHR '':'' # h)" by (rule scan_ld_dec) (use assms colon_no_digit in auto)
  then have "parse_range (dec_int x @ CHR '':'' # h) s e m = (0, m(s := x, e := -1))"
    using assms scan_4s_head [OF assms(3), of "[]"] by (simp add: parse_range_def Let_def store_ld_def)
  then show ?thesis using range_no_head [OF assms(1), of "CHR '':'' # h"] colon_no_digit by simp
qed

lemma parse_head:
  assumes "is_head h"
  shows "parse_revnum h s e m = (0, m(s := -1, e := -1))"
    and "is_head h' \<Longrightarrow> parse_revnum (h @ CHR '':'' # h') s e m = (0, m(s := -1, e := -1))"
proof -
  note h = scan_4s_head [OF assms] and ld = scan_ld_head [OF assms]
  show "parse_revnum h s e m = (0, m(s := -1, e := -1))"
    using h [of "[]"] ld [of "[]"] assms by (simp add: parse_revnum_def parse_range_def parse_single_def Let_def store_ld_def)
  show "parse_revnum (h @ CHR '':'' # h') s e m = (0, m(s := -1, e := -1))" if "is_head h'"
    using h [of "CHR '':'' # h'"] scan_4s_head [OF that, of "[]"] assms that by (simp add: parse_revnum_def)
qed

lemma parse_one:
  assumes "0 \<le> x" "x \<le> LONG_MAX"
  shows "parse_revnum (dec_int x) s e m = (if x < 1 then 1 else 0, if x < 1 then m(s := x, e := x) else m(e := x, s := x - 1))"
proof -
  have x: "scan_ld (dec_int x) = Some (x, [])" using scan_ld_dec [OF assms, of "[]"] by simp
  then have "parse_range (dec_int x) s e m = parse_single (dec_int x) s e (m(s := x))"
    by (simp add: parse_range_def Let_def store_ld_def)
  also have "\<dots> = (if x < 1 then 1 else 0, if x < 1 then m(s := x, e := x) else m(e := x, s := x - 1))"
    using x by (auto simp: parse_single_def Let_def store_ld_def fun_eq_iff)
  finally show ?thesis using range_no_head [OF assms(1), of "[]"] by simp
qed

section \<open>The argument vector\<close>

text \<open>A reference for the vector that is left behind: the value of a credential is blanked.\<close>

definition simple_names :: "string list" where
  "simple_names = [''-q'', ''--quiet'', ''-v'', ''--verbose'', ''-n'', ''--dry-run'', ''--obfuscate'', ''--no-auth-cache'',
     ''--non-interactive'', ''--keep-revnums'', ''--no-incremental-header'', ''--deltas'', ''--incremental'', ''--online'',
     ''--dump-uuid'', ''--no-check-certificate'']"

definition value_names :: "string list" where
  "value_names = [''-r'', ''--revision'', ''-u'', ''--username'', ''-p'', ''--password'', ''--config-dir'', ''--prefix'',
     ''--stop'', ''-d'', ''--download-dir'', ''-o'', ''--outfile'']"

definition takes_value :: "string \<Rightarrow> bool" where
  "takes_value a \<longleftrightarrow> a \<in> set value_names"

definition credential :: "string \<Rightarrow> bool" where
  "credential a \<longleftrightarrow> a \<in> {''-u'', ''--username'', ''-p'', ''--password''}"

fun hide_args :: "string list \<Rightarrow> string list" where
  "hide_args (a # b # as) =
     (if takes_value a then a # (if credential a then blank b else b) # hide_args as else a # hide_args (b # as))"
| "hide_args as = as"

lemma simple_not_value: "a \<in> set simple_names \<Longrightarrow> \<not> takes_value a"
proof -
  have "list_all (\<lambda>a. a \<notin> set value_names) simple_names" by code_simp
  then show "a \<in> set simple_names \<Longrightarrow> \<not> takes_value a" by (simp add: takes_value_def list_all_iff)
qed

lemma simple_option_None: "a \<notin> set simple_names \<Longrightarrow> simple_option a p = None"
  by (simp add: simple_names_def simple_option_def)

lemma value_option_None: "\<not> takes_value a \<Longrightarrow> value_option a val p = None"
  by (simp add: takes_value_def value_names_def value_option_def)

lemma if_Some_cases: "(if P then Some x else y) = Some z \<Longrightarrow> (x = z \<Longrightarrow> R) \<Longrightarrow> (y = Some z \<Longrightarrow> R) \<Longrightarrow> R"
  by (simp split: if_splits)

lemma opt_revnum_keeps: "opt_revnum v s e p = Some p' \<Longrightarrow> m_out p' = m_out p \<and> opt_flags (m_opts p') = opt_flags (m_opts p)"
  by (auto simp: opt_revnum_def split: prod.splits if_splits)

text \<open>No option of the command line sets the flag of the dry run of the base revision.\<close>

definition no_dry :: "prog \<Rightarrow> bool" where
  "no_dry p \<longleftrightarrow> opt_flags (m_opts p) AND DF_INITIAL_DRY_RUN = 0"

lemma no_dry_flag: "f AND DF_INITIAL_DRY_RUN = 0 \<Longrightarrow> no_dry (opt_flag f p) = no_dry p"
  by (simp add: no_dry_def opt_flag_def bit.conj_disj_distrib2)

lemma simple_option_keeps:
  assumes "simple_option a p = Some p'"
  shows "m_argv p' = m_argv p \<and> m_out p' = m_out p \<and> no_dry p' = no_dry p"
proof -
  have f: "no_dry (opt_flag DF_DRY_RUN p) = no_dry p" "no_dry (opt_flag DF_KEEP_REVNUMS p) = no_dry p"
    "no_dry (opt_flag DF_NO_INCREMENTAL_HEADER p) = no_dry p" "no_dry (opt_flag DF_USE_DELTAS p) = no_dry p"
    "no_dry (opt_flag DF_INCREMENTAL p) = no_dry p" by (rule no_dry_flag, code_simp)+
  have s: "no_dry (ses_flag f p) = no_dry p" "m_argv (opt_flag f p) = m_argv p" "m_out (opt_flag f p) = m_out p"
    "m_argv (ses_flag f p) = m_argv p" "m_out (ses_flag f p) = m_out p" "no_dry (p\<lparr>m_loglevel := l\<rparr>) = no_dry p" for f l
    by (simp_all add: no_dry_def ses_flag_def opt_flag_def)
  show ?thesis using assms unfolding simple_option_def
    by (elim if_Some_cases) (auto simp: f s)
qed

lemma value_option_keeps:
  assumes "value_option a val p = Some r"
  shows "takes_value a" "r \<noteq> Arg_next p'" "r \<noteq> Arg_finish p'"
    "r = Arg_skip p' \<Longrightarrow> m_argv p' = m_argv p @ (case val of None \<Rightarrow> [] | Some v \<Rightarrow> [if credential a then blank v else v]) \<and>
       m_out p' = m_out p \<and> no_dry p' = no_dry p"
proof -
  show t: "takes_value a" using assms value_option_None by (cases "takes_value a") simp_all
  have "r \<noteq> Arg_next p' \<and> r \<noteq> Arg_finish p' \<and> (r = Arg_skip p' \<longrightarrow> 
      m_argv p' = m_argv p @ (case val of None \<Rightarrow> [] | Some v \<Rightarrow> [if credential a then blank v else v]) \<and>
      m_out p' = m_out p \<and> no_dry p' = no_dry p)"
    using t assms unfolding takes_value_def value_names_def list.set insert_iff empty_iff
    by (elim disjE) (auto simp: value_option_def credential_def no_dry_def dest!: opt_revnum_keeps split: option.splits)
  then show "r \<noteq> Arg_next p'" "r \<noteq> Arg_finish p'" "r = Arg_skip p' \<Longrightarrow>
      m_argv p' = m_argv p @ (case val of None \<Rightarrow> [] | Some v \<Rightarrow> [if credential a then blank v else v]) \<and>
      m_out p' = m_out p \<and> no_dry p' = no_dry p" by auto
qed

lemma parse_arg_keeps:
  shows "parse_arg is_url a val p = Arg_next p' \<Longrightarrow>
      m_argv p' = m_argv p @ [a] \<and> \<not> takes_value a \<and> m_out p' = m_out p \<and> no_dry p' = no_dry p"
    and "parse_arg is_url a val p = Arg_skip p' \<Longrightarrow> takes_value a \<and> m_out p' = m_out p \<and> no_dry p' = no_dry p \<and>
      m_argv p' = m_argv p @ a # (case val of None \<Rightarrow> [] | Some v \<Rightarrow> [if credential a then blank v else v])"
proof -
  define q where "q = p\<lparr>m_argv := m_argv p @ [a]\<rparr>"
  have q: "m_argv q = m_argv p @ [a]" "m_out q = m_out p" "no_dry q = no_dry p"
    "no_dry (q\<lparr>m_session := x\<rparr>) = no_dry p" for x by (simp_all add: q_def no_dry_def)
  have v: "\<not> takes_value a" if "value_option a val q = None"
  proof
    assume "takes_value a"
    then have "value_option a val q \<noteq> None" unfolding takes_value_def value_names_def list.set insert_iff empty_iff
      by (elim disjE) (simp_all add: value_option_def)
    then show False using that by simp
  qed
  show "parse_arg is_url a val p = Arg_next p' \<Longrightarrow>
      m_argv p' = m_argv p @ [a] \<and> \<not> takes_value a \<and> m_out p' = m_out p \<and> no_dry p' = no_dry p"
    using simple_option_keeps [of a q p'] simple_option_None [of a q] simple_not_value [of a] q v value_option_keeps(2) [of a val q]
    unfolding parse_arg_def Let_def q_def [symmetric] by (auto split: if_splits option.splits)
  show "parse_arg is_url a val p = Arg_skip p' \<Longrightarrow> takes_value a \<and> m_out p' = m_out p \<and> no_dry p' = no_dry p \<and>
      m_argv p' = m_argv p @ a # (case val of None \<Rightarrow> [] | Some v \<Rightarrow> [if credential a then blank v else v])"
    using q value_option_keeps(1,4) [of a val q]
    unfolding parse_arg_def Let_def q_def [symmetric] by (auto split: if_splits option.splits)
qed

lemma parse_args_keeps:
  "parse_args is_url args p = Arg_next p' \<Longrightarrow> m_argv p' = m_argv p @ hide_args args \<and> m_out p' = m_out p \<and> no_dry p' = no_dry p"
proof (induction is_url args p rule: parse_args.induct)
  case (2 is_url a p)
  then show ?case using parse_arg_keeps [of is_url a None p] by (auto split: arg_result.splits)
next
  case (3 is_url a b as p)
  show ?case
  proof (cases "parse_arg is_url a (Some b) p")
    case (Arg_next p1)
    then show ?thesis using 3 parse_arg_keeps(1) [OF Arg_next] by simp
  next
    case (Arg_skip p1)
    then show ?thesis using 3 parse_arg_keeps(2) [OF Arg_skip] by simp
  qed (use 3 in simp_all)
qed simp

lemma parse_args_no_skip: "parse_args is_url args p \<noteq> Arg_skip p'"
  by (induction is_url args p rule: parse_args.induct) (auto split: arg_result.splits)

section \<open>Searching\<close>

lemma bsearch_spec:
  assumes "sorted a" "u \<le> length a"
  shows "case bsearch s a l u of None \<Rightarrow> \<forall>i. l \<le> i \<and> i < u \<longrightarrow> a ! i \<noteq> s | Some i \<Rightarrow> l \<le> i \<and> i < u \<and> a ! i = s"
  using assms
proof (induction s a l u rule: bsearch.induct)
  case (1 s a l u)
  show ?case
  proof (cases "l < u")
    case True
    let ?i = "(l + u) div 2"
    have i: "l \<le> ?i" "?i < u" using True by auto
    have le: "a ! j \<le> a ! k" if "j \<le> k" "k < u" for j k using "1.prems" that sorted_nth_mono by (metis le_trans less_le_not_le not_le)
    show ?thesis
    proof (cases "s < a ! ?i")
      case True
      then have "a ! j \<noteq> s" if "?i \<le> j" "j < u" for j using le [OF that] by auto
      moreover have "case bsearch s a l ?i of None \<Rightarrow> \<forall>j. l \<le> j \<and> j < ?i \<longrightarrow> a ! j \<noteq> s | Some j \<Rightarrow> l \<le> j \<and> j < ?i \<and> a ! j = s"
        using "1.IH"(1) [OF \<open>l < u\<close> refl True "1.prems"(1)] "1.prems"(2) i by simp
      moreover have "bsearch s a l u = bsearch s a l ?i" using \<open>l < u\<close> True by (simp add: bsearch.simps [of s a l u])
      ultimately show ?thesis using i by (cases "bsearch s a l ?i") (simp_all, metis linorder_not_less)
    next
      case False
      show ?thesis
      proof (cases "a ! ?i < s")
        case True
        then have "a ! j \<noteq> s" if "j \<le> ?i" for j using le [OF that i(2)] by auto
        moreover have "case bsearch s a (?i + 1) u of None \<Rightarrow> \<forall>j. ?i + 1 \<le> j \<and> j < u \<longrightarrow> a ! j \<noteq> s
            | Some j \<Rightarrow> ?i + 1 \<le> j \<and> j < u \<and> a ! j = s"
          using "1.IH"(2) [OF \<open>l < u\<close> refl False True "1.prems"] .
        moreover have "bsearch s a l u = bsearch s a (?i + 1) u" using \<open>l < u\<close> True False by (simp add: bsearch.simps [of s a l u])
        ultimately show ?thesis using i by (cases "bsearch s a (?i + 1) u") (simp_all, metis not_less_eq_eq)
      next
        case False2: False
        then have "s = a ! ?i" using False by auto
        have "bsearch s a l u = Some ?i" by (subst bsearch.simps) (use \<open>l < u\<close> False False2 in \<open>simp add: Let_def\<close>)
        then show ?thesis using i \<open>s = a ! ?i\<close> by simp
      qed
    qed
  qed (auto simp: bsearch.simps [of s a l u])
qed

section \<open>Properties\<close>

definition demo_prog :: prog where
  "demo_prog = \<lparr>m_session = session_create (\<lambda>n. n), m_opts = dump_options_create, m_loglevel = 0, m_argv = [], m_out = []\<rparr>"

text \<open>
  C22. Revision ranges: \<open>X:Y\<close> stores both numbers and is refused exactly when it is reversed, \<open>X:HEAD\<close> stores the
  start and leaves the end open, \<open>HEAD\<close> and \<open>HEAD:HEAD\<close> stand for the last revision, in any mix of upper and lower case; for all
  numbers from 0 on that fit into a \<open>long\<close>.
\<close>

theorem parse_revnum_correct:
  assumes "0 \<le> x" "x \<le> LONG_MAX" "0 \<le> y" "y \<le> LONG_MAX" "s \<noteq> e" "is_head h" "is_head h'"
  shows "parse_revnum (dec_int x @ '':'' @ dec_int y) s e m = (if y < x then 1 else 0, m(s := x, e := y)) \<and>
    parse_revnum (dec_int x @ '':'' @ h) s e m = (0, m(s := x, e := -1)) \<and>
    parse_revnum h s e m = (0, m(s := -1, e := -1)) \<and> parse_revnum (h @ '':'' @ h') s e m = (0, m(s := -1, e := -1))"
  using parse_two [OF assms(1-4), of s e m] parse_to_head [OF assms(1,2,6)] parse_head(1) [OF assms(6)]
    parse_head(2) [OF assms(6,7)] assms(5) by simp

theorem parse_revnum_correct_witness:
  "fst (parse_revnum (dec_int 3 @ '':'' @ dec_int 12) 0 1 (\<lambda>_. 0)) = 0 \<and>
   fst (parse_revnum (dec_int 12 @ '':'' @ dec_int 3) 0 1 (\<lambda>_. 0)) = 1 \<and>
   snd (parse_revnum (dec_int 12 @ '':'' @ ''HEAD'') 0 1 (\<lambda>_. 0)) 0 = 12 \<and>
   snd (parse_revnum ''Head'' 0 1 (\<lambda>_. 0)) 1 = -1 \<and> fst (parse_revnum (''HEAD'' @ '':'' @ ''head'') 0 1 (\<lambda>_. 0)) = 0"
proof -
  have "is_head ''HEAD''" "is_head ''Head''" "is_head ''head''" by code_simp+
  then show ?thesis
    using parse_revnum_correct [of 3 12 0 1 "''HEAD''" "''head''" "\<lambda>_. 0"] parse_revnum_correct [of 12 3 0 1 "''Head''" "''head''" "\<lambda>_. 0"]
      parse_revnum_correct [of 12 3 0 1 "''HEAD''" "''head''" "\<lambda>_. 0"]
    by (simp add: LONG_MAX_def)
qed

text \<open>
  A single number \<open>N\<close> is not the range of this revision alone: the start is \<open>N - 1\<close>, and 0 is refused.
\<close>

theorem parse_revnum_single:
  assumes "0 \<le> x" "x \<le> LONG_MAX"
  shows "parse_revnum (dec_int x) s e m =
      (if x < 1 then 1 else 0, if x < 1 then m(s := x, e := x) else m(e := x, s := x - 1))"
  by (rule parse_one [OF assms])

text \<open>
  \<open>--stop N\<close> passes the address of the end twice, and what the parser stores last for a single
  number is the start: the dump ends at \<open>N - 1\<close>, one revision early.
\<close>

theorem stop_option_early:
  assumes "1 \<le> n" "n \<le> LONG_MAX"
  shows "value_option ''--stop'' (Some (dec_int n)) p =
    Some (Arg_skip (p\<lparr>m_opts := (m_opts p)\<lparr>opt_start := 0, opt_end := n - 1\<rparr>, m_argv := m_argv p @ [dec_int n]\<rparr>))"
  using assms by (simp add: value_option_def opt_revnum_def parse_one)

theorem stop_option_early_witness:
  "\<exists>p'. value_option ''--stop'' (Some (dec_int 7)) demo_prog = Some (Arg_skip p') \<and> opt_end (m_opts p') = 6"
  using stop_option_early [of 7 demo_prog] by (simp add: LONG_MAX_def)

text \<open>
  C23. Credentials do not stay visible: whenever the command line is accepted, every value of
  \<open>--username\<close> and \<open>--password\<close> in the argument vector, and nothing else of it, has been overwritten with blanks of the same length, and
  reading the arguments prints nothing.
\<close>

theorem credentials_hidden:
  assumes "parse_args is_url args p = Arg_next p'"
  shows "m_argv p' = m_argv p @ hide_args args \<and> m_out p' = m_out p"
  using parse_args_keeps [OF assms] by blast

theorem credentials_hidden_witness:
  "\<exists>p'. parse_args (\<lambda>_. True) [''-p'', ''pw'', ''-q''] demo_prog = Arg_next p' \<and> m_argv p' = [''-p'', ''  '', ''-q'']"
proof -
  obtain p' where p: "parse_args (\<lambda>_. True) [''-p'', ''pw'', ''-q''] demo_prog = Arg_next p'"
    by (simp add: parse_arg_def simple_option_def value_option_def demo_prog_def Let_def)
  have "hide_args [''-p'', ''pw'', ''-q''] = [''-p'', ''  '', ''-q'']" by code_simp
  then show ?thesis using credentials_hidden [OF p] p by (auto simp: demo_prog_def)
qed

text \<open>
  Binary search in a sorted array finds an index of the string exactly when it is there.
\<close>

theorem utils_search_correct:
  assumes "sorted a"
  shows "case utils_search s a of None \<Rightarrow> s \<notin> set a | Some i \<Rightarrow> i < length a \<and> a ! i = s"
  using bsearch_spec [OF assms order_refl, where s = s and l = 0] by (auto simp: utils_search_def in_set_conv_nth split: option.splits)

theorem utils_search_correct_witness:
  "case utils_search ''b'' [''a'', ''c''] of None \<Rightarrow> ''b'' \<notin> set [''a'', ''c'']
    | Some i \<Rightarrow> i < length [''a'', ''c''] \<and> [''a'', ''c''] ! i = ''b''"
  by (rule utils_search_correct) (simp add: less_eq_char_def)

end
