(* ===== verification/Self_Test.thy ===== *)
theory Self_Test
  imports Program
begin

text \<open>
  The self test of the path repository that debug builds have: it compares the paths of a revision as
  they are reconstructed with those that the server lists. The comparison is a binary search in both
  directions, so it relies on the order of the crit-bit tree being the order of the sorting routine.
\<close>

section \<open>The test\<close>

definition all_found :: "string list \<Rightarrow> string list \<Rightarrow> bool" where
  "all_found ps a \<longleftrightarrow> (\<forall>p \<in> set ps. utils_search p a \<noteq> None)"

text \<open>The comparison counts the elements and then looks every path of one array up in the other.\<close>

definition trees_differ :: "string list \<Rightarrow> string list \<Rightarrow> bool" where
  "trees_differ recon orig \<longleftrightarrow> length recon \<noteq> length orig \<or> \<not> all_found recon orig \<or> \<not> all_found orig recon"

definition skip_root :: "string list \<Rightarrow> string list" where
  "skip_root orig = (if orig \<noteq> [] \<and> hd orig = [] then tl orig else orig)"

definition path_repo_test ::
  "codec \<Rightarrow> memalign \<Rightarrow> ra \<Rightarrow> nat \<Rightarrow> path_repo \<Rightarrow> revnum \<Rightarrow> revnum \<Rightarrow> (int \<times> path_repo) option" where
  "path_repo_test cdc mem ra fuel repo revision svn_rev =
     (case pr_reconstruct cdc (db repo) (cb_tree_make mem) revision of
        (st, kv, t) \<Rightarrow>
          let repo = repo\<lparr>db := kv\<rparr>
          in if st \<noteq> 0 then Some (1, repo)
             else (case pr_tree_to_array t '''' of
                     None \<Rightarrow> None
                   | Some recon \<Rightarrow>
                       (case pr_fetch_paths ra fuel [] '''' svn_rev of
                          None \<Rightarrow> None
                        | Some (_, orig) \<Rightarrow>
                            Some (if trees_differ recon (skip_root (utils_sort orig)) then 1 else 0, repo))))"

text \<open>The loop over all revisions below the last one that have data of their own.\<close>

function test_loop :: "codec \<Rightarrow> memalign \<Rightarrow> ra \<Rightarrow> nat \<Rightarrow> revnum \<Rightarrow> revnum \<Rightarrow> path_repo \<Rightarrow> (int \<times> path_repo) option" where
  "test_loop cdc mem ra fuel upto_rev rv repo =
     (let rv = rv + 1 :: int
      in if rv < upto_rev then
           if \<not> mukv_exists (db repo) (apr_itoa rv) then test_loop cdc mem ra fuel upto_rev rv repo
           else (case path_repo_test cdc mem ra fuel repo rv rv of
                   None \<Rightarrow> None
                 | Some (ret, repo) \<Rightarrow> if ret = 0 then test_loop cdc mem ra fuel upto_rev rv repo else Some (ret, repo))
         else Some (0, repo))"
  by pat_completeness auto
termination by (relation "measure (\<lambda>(_, _, _, _, upto_rev, rv, _). nat (upto_rev - rv))") auto

declare test_loop.simps [simp del]

definition path_repo_test_all :: "codec \<Rightarrow> memalign \<Rightarrow> ra \<Rightarrow> nat \<Rightarrow> path_repo \<Rightarrow> (int \<times> path_repo) option" where
  "path_repo_test_all cdc mem ra fuel repo = test_loop cdc mem ra fuel (head repo) 0 repo"

definition demo_ra :: ra where
  "demo_ra = no_ra\<lparr>ra_stat := (\<lambda>_ _. Some (Some node_dir)),
     ra_get_dir := (\<lambda>p _. if p = [] then Some [(''trunk'', node_dir)] else if p = ''trunk'' then Some [(''a'', node_file)] else None)\<rparr>"

section \<open>Order and search\<close>

lemma strcmp_less_list: "strcmp_less s t \<Longrightarrow> s < t"
  by (induction s t rule: strcmp_less.induct) (auto simp: less_char_def)

lemma keys_sorted: "tree_ok t \<Longrightarrow> sorted (keys t)"
proof -
  assume "tree_ok t"
  then have "sorted_wrt strcmp_less (keys t)"
    using leaves_sorted by (auto simp: tree_ok_def cb_tree_ok_def split: option.splits)
  then show ?thesis using strcmp_less_list by (auto elim!: sorted_wrt_mono_rel [rotated] intro: less_imp_le)
qed

lemma utils_search_mem: "sorted a \<Longrightarrow> utils_search s a \<noteq> None \<longleftrightarrow> s \<in> set a"
  using utils_search_correct [of a s] by (auto split: option.splits)

lemma all_found_subset: "sorted a \<Longrightarrow> all_found ps a \<longleftrightarrow> set ps \<subseteq> set a"
  using utils_search_mem [of a] by (auto simp: all_found_def)

text \<open>Two sorted arrays without duplicates pass the comparison exactly when they hold the same strings.\<close>

lemma trees_differ_iff:
  assumes "sorted recon" "distinct recon" "sorted orig" "distinct orig"
  shows "trees_differ recon orig \<longleftrightarrow> set recon \<noteq> set orig"
  using assms distinct_card [of recon] distinct_card [of orig] by (auto simp: trees_differ_def all_found_subset)

text \<open>The root is the least path: skipping an empty first element removes it from the set.\<close>

lemma skip_root_ok:
  assumes "sorted a" "distinct a"
  shows "sorted (skip_root a)" "distinct (skip_root a)" "set (skip_root a) = set a - {[]}"
  using assms by (cases a; auto simp: skip_root_def dest: antisym)+

section \<open>The test compares sets of paths\<close>

lemma path_repo_test_spec:
  assumes inv: "pr_inv cdc repo v" and r: "0 \<le> revision" "revision \<le> vhead v" and mem: "mem_enough mem"
    and orig: "pr_fetch_paths ra fuel [] '''' svn_rev = Some (rc, orig)" "distinct orig"
  obtains kv where "path_repo_test cdc mem ra fuel repo revision svn_rev =
      Some (if set orig - {[]} = vhist v revision then 0 else 1, repo\<lparr>db := kv\<rparr>)"
    "pr_inv cdc (repo\<lparr>db := kv\<rparr>) v" "mukv_abs kv = mukv_abs (db repo)"
proof -
  have h: "hist_ok cdc (db repo) (vhist v) (vhead v) (vfresh v)" using inv by (simp add: pr_inv_def)
  obtain L where L: "mukv_ok (db repo)" "vhead v < 2 ^ 31" "db_log cdc (mukv_abs (db repo)) L"
    "\<And>r. 0 \<le> r \<Longrightarrow> r \<le> vhead v \<Longrightarrow> recon_set L r = vhist v r"
    by (rule hist_okE [OF h]) (rule that)
  obtain kv t where rec: "pr_reconstruct cdc (db repo) (cb_tree_make mem) revision = (0, kv, t)" "mukv_ok kv"
    "mukv_abs kv = mukv_abs (db repo)" "tree_ok t" "elems t = recon_set L revision"
    by (rule pr_reconstruct_spec [OF L(3,1) _ _ r(1) le_less_trans [OF r(2) L(2)], of "cb_tree_make mem"]) (use mem in auto)
  let ?o = "skip_root (sort orig)"
  have o: "sorted ?o" "distinct ?o" "set ?o = set orig - {[]}" using skip_root_ok [of "sort orig"] orig(2) by auto
  have k: "sorted (keys t)" "distinct (keys t)" "set (keys t) = vhist v revision"
    using keys_sorted [OF rec(4)] rec(4,5) L(4) [OF r] by (auto simp: tree_ok_def keys_distinct elems_def)
  have "trees_differ (keys t) ?o \<longleftrightarrow> set orig - {[]} \<noteq> vhist v revision"
    using trees_differ_iff [OF k(1,2) o(1,2)] k(3) o(3) by auto
  then have "path_repo_test cdc mem ra fuel repo revision svn_rev =
      Some (if set orig - {[]} = vhist v revision then 0 else 1, repo\<lparr>db := kv\<rparr>)"
    using rec(1) pr_tree_to_array_all [OF rec(4)] orig(1) by (simp add: path_repo_test_def Let_def utils_sort_def)
  moreover have "pr_inv cdc (repo\<lparr>db := kv\<rparr>) v"
    using inv hist_ok_kv [OF h rec(2,3)] by (simp add: pr_inv_def)
  ultimately show thesis using that rec(3) by blast
qed

lemma mukv_exists_abs: "mukv_exists kv k \<longleftrightarrow> mukv_abs kv k \<noteq> None"
  by (simp add: mukv_exists_def mukv_abs_def)

text \<open>A directory that the server serves is fetched as its listing, without a path that occurs twice.\<close>

lemma fetch_root:
  assumes "serves ra rv '''' l" "names_ok l" "levels l < fuel"
  shows "pr_fetch_paths ra fuel [] '''' rv = Some (0, [] # listed '''' l)" "distinct ([] # listed '''' l)"
proof -
  show "pr_fetch_paths ra fuel [] '''' rv = Some (0, [] # listed '''' l)"
    by (rule pr_fetch_paths_listed) (use assms in \<open>auto simp: fetchable_def\<close>)
  show "distinct ([] # listed '''' l)" using listed_distinct [OF assms(2)] listed_nonempty [OF assms(2)] by simp
qed

text \<open>The loop passes exactly when every stored revision that it visits does.\<close>

lemma test_loop_spec:
  assumes "pr_inv cdc repo v" "0 \<le> rv" "upto_rev \<le> vhead v" "mem_enough mem"
    and "\<And>r. 0 < r \<Longrightarrow> r < upto_rev \<Longrightarrow> \<exists>rc. pr_fetch_paths ra fuel [] '''' r = Some (rc, listing r) \<and> distinct (listing r)"
  shows "\<exists>ret repo'. test_loop cdc mem ra fuel upto_rev rv repo = Some (ret, repo') \<and> pr_inv cdc repo' v \<and>
    (ret = 0 \<longleftrightarrow> (\<forall>r. rv < r \<and> r < upto_rev \<and> mukv_exists (db repo) (apr_itoa r) \<longrightarrow> set (listing r) - {[]} = vhist v r))"
  using assms
proof (induction cdc mem ra fuel upto_rev rv repo rule: test_loop.induct)
  case (1 cdc mem ra fuel upto_rev rv repo)
  let ?P = "\<lambda>m kv. \<forall>r. m < r \<and> r < upto_rev \<and> mukv_exists kv (apr_itoa r) \<longrightarrow> set (listing r) - {[]} = vhist v r"
  have split: "?P rv kv \<longleftrightarrow> (rv + 1 < upto_rev \<and> mukv_exists kv (apr_itoa (rv + 1)) \<longrightarrow>
      set (listing (rv + 1)) - {[]} = vhist v (rv + 1)) \<and> ?P (rv + 1) kv" for kv
    by (smt (verit))
  show ?case
  proof (cases "rv + 1 < upto_rev")
    case True
    show ?thesis
    proof (cases "mukv_exists (db repo) (apr_itoa (rv + 1))")
      case ex: True
      obtain rc where f: "pr_fetch_paths ra fuel [] '''' (rv + 1) = Some (rc, listing (rv + 1))" "distinct (listing (rv + 1))"
        using 1(7) [of "rv + 1"] 1(4) True by auto
      have "0 \<le> rv + 1" "rv + 1 \<le> vhead v" using 1(4,5) True by auto
      then obtain kv where t: "path_repo_test cdc mem ra fuel repo (rv + 1) (rv + 1) =
          Some (if set (listing (rv + 1)) - {[]} = vhist v (rv + 1) then 0 else 1, repo\<lparr>db := kv\<rparr>)"
        "pr_inv cdc (repo\<lparr>db := kv\<rparr>) v" "mukv_abs kv = mukv_abs (db repo)"
        by (rule path_repo_test_spec [OF 1(3) _ _ 1(6) f])
      have same: "mukv_exists kv = mukv_exists (db repo)" using t(3) by (simp add: mukv_exists_abs fun_eq_iff)
      show ?thesis
      proof (cases "set (listing (rv + 1)) - {[]} = vhist v (rv + 1)")
        case eq: True
        have "test_loop cdc mem ra fuel upto_rev rv repo = test_loop cdc mem ra fuel upto_rev (rv + 1) (repo\<lparr>db := kv\<rparr>)"
          using True ex t(1) eq by (subst test_loop.simps) simp
        then show ?thesis using 1(2) [OF refl True _ t(1) refl] ex eq t(2) 1(4-7) split [of "db repo"] same by simp
      next
        case False
        then have "test_loop cdc mem ra fuel upto_rev rv repo = Some (1, repo\<lparr>db := kv\<rparr>)"
          using True ex t(1) by (subst test_loop.simps) simp
        then show ?thesis using t(2) split [of "db repo"] False ex True by auto
      qed
    next
      case False
      then have "test_loop cdc mem ra fuel upto_rev rv repo = test_loop cdc mem ra fuel upto_rev (rv + 1) repo"
        using True by (subst test_loop.simps) simp
      then show ?thesis using 1(1) [OF refl True False 1(3)] 1(4-7) split [of "db repo"] False by simp
    qed
  next
    case False
    then have "test_loop cdc mem ra fuel upto_rev rv repo = Some (0, repo)" by (subst test_loop.simps) simp
    then show ?thesis using 1(3) False by auto
  qed
qed

section \<open>Properties\<close>

text \<open>
  C34. The self test of a revision reports success exactly when the reconstructed set of paths is the
  set of all paths, on all levels, of the tree that the server has in the given revision, its root apart; and it leaves the
  path repository as it was for every later operation. The server answers with a directory at the root and with the entries of
  the tree, whose names are different within a directory, not empty and without a slash; memory does not run out, and the recursion of the
  model has fuel for the levels of the tree.
\<close>

theorem path_repo_test_correct:
  assumes "pr_inv cdc repo v" "0 \<le> revision" "revision \<le> vhead v" "mem_enough mem"
    and "serves ra svn_rev '''' l" "names_ok l" "levels l < fuel"
  shows "\<exists>repo'. path_repo_test cdc mem ra fuel repo revision svn_rev =
      Some (if set (listed '''' l) = vhist v revision then 0 else 1, repo') \<and> pr_inv cdc repo' v"
proof -
  have root: "set ([] # listed '''' l) - {[]} = set (listed '''' l)" using listed_nonempty [OF assms(6)] by auto
  show ?thesis
    by (rule path_repo_test_spec [OF assms(1-4) fetch_root [OF assms(5-7)]]) (use root in auto)
qed

definition demo_listing :: listing where
  "demo_listing = Dir_entry ''trunk'' (File_entry ''a'' Done) Done"

theorem path_repo_test_correct_witness:
  "map_option fst (path_repo_test codec_none memory demo_ra 3 demo_repo 1 1) = Some 0"
proof -
  have l: "serves demo_ra 1 '''' demo_listing" "names_ok demo_listing" "levels demo_listing < 3"
    "listed '''' demo_listing = [''trunk'', ''trunk/a'']"
    by (simp_all add: serves_def demo_ra_def demo_listing_def entry_path_def)
  have "pr_inv codec_none demo_repo demo_v" by (rule pr_reach_inv [OF demo_reach codec_none_ok])
  from path_repo_test_correct [OF this, of 1, OF _ _ memory_enough l(1-3)] show ?thesis using l(4) by auto
qed

text \<open>
  The test of a whole repository passes exactly when every stored revision after the first and before
  the last commit agrees with the server. The revision of the last commit itself is not visited.
\<close>

theorem path_repo_test_all_correct:
  assumes inv: "pr_inv cdc repo v" and mem: "mem_enough mem"
    and l: "\<And>r. 0 < r \<Longrightarrow> r < vhead v \<Longrightarrow> serves ra r '''' (l r) \<and> names_ok (l r) \<and> levels (l r) < fuel"
  shows "\<exists>ret repo'. path_repo_test_all cdc mem ra fuel repo = Some (ret, repo') \<and> pr_inv cdc repo' v \<and>
    (ret = 0 \<longleftrightarrow> (\<forall>r. 0 < r \<and> r < vhead v \<and> mukv_exists (db repo) (apr_itoa r) \<longrightarrow> set (listed '''' (l r)) = vhist v r))"
proof -
  have h: "head repo = vhead v" using inv by (simp add: pr_inv_def)
  have f: "\<exists>rc. pr_fetch_paths ra fuel [] '''' r = Some (rc, [] # listed '''' (l r)) \<and> distinct ([] # listed '''' (l r))"
    if "0 < r" "r < vhead v" for r using fetch_root [of ra r "l r" fuel] l [OF that] by blast
  have "set ([] # listed '''' (l r)) - {[]} = set (listed '''' (l r))" if "0 < r" "r < vhead v" for r
    using listed_nonempty [of "l r" "''''"] l [OF that] by auto
  then have "(\<forall>r. 0 < r \<and> r < vhead v \<and> mukv_exists (db repo) (apr_itoa r) \<longrightarrow> set ([] # listed '''' (l r)) - {[]} = vhist v r) \<longleftrightarrow>
      (\<forall>r. 0 < r \<and> r < vhead v \<and> mukv_exists (db repo) (apr_itoa r) \<longrightarrow> set (listed '''' (l r)) = vhist v r)" by (metis (lifting))
  then show ?thesis
    using test_loop_spec [OF inv order_refl order_refl mem f] h by (simp add: path_repo_test_all_def)
qed

end
