(* ===== verification/Delta_Records.thy ===== *)
theory Delta_Records
  imports Delta
begin

text \<open>
  What the editor prints. A dump consists of records: header lines, an empty line, and where the
  headers announce them, properties and text. This theory says what a well-formed record is, gives
  a reader for a stream of records, and shows that everything a closed edit prints is a sequence
  of records that the reader takes apart again.
\<close>

section \<open>Records\<close>

text \<open>Headers, and the two sections of the body if there is one.\<close>

datatype drec = Rec (rec_headers: "(string \<times> string) list") (rec_body: "(string \<times> string) option")

definition hdrs :: "(string \<times> string) list \<Rightarrow> string" where
  "hdrs hs = concat (map (\<lambda>(k, v). header k v) hs)"

fun show_rec :: "drec \<Rightarrow> string" where
  "show_rec (Rec hs None) = hdrs hs @ nl @ nl"
| "show_rec (Rec hs (Some (p, t))) = hdrs hs @ nl @ p @ t @ nl @ nl"

text \<open>The announced lengths are those of the sections.\<close>

fun rec_ok :: "drec \<Rightarrow> bool" where
  "rec_ok (Rec hs None) \<longleftrightarrow> map_of hs ''Content-length'' = None"
| "rec_ok (Rec hs (Some (p, t))) \<longleftrightarrow>
     map_of hs ''Content-length'' = Some (dec_nat (length p + length t)) \<and>
     map_of hs ''Prop-content-length'' = (if p = [] then None else Some (dec_nat (length p))) \<and>
     (case map_of hs ''Text-content-length'' of None \<Rightarrow> t = [] | Some l \<Rightarrow> l = dec_nat (length t))"

section \<open>A reader\<close>

text \<open>A line, without its end.\<close>

definition read_line :: "string \<Rightarrow> (string \<times> string) option" where
  "read_line s =
     (if CHR 0x0A \<notin> set s then None
      else Some (takeWhile (\<lambda>c. c \<noteq> CHR 0x0A) s, drop 1 (dropWhile (\<lambda>c. c \<noteq> CHR 0x0A) s)))"

definition read_header :: "string \<Rightarrow> (string \<times> string) option" where
  "read_header l =
     (let k = takeWhile (\<lambda>c. c \<noteq> CHR '':'') l; v = drop (length k) l
      in if take 2 v = '': '' then Some (k, drop 2 v) else None)"

text \<open>The headers up to an empty line, and a whole record; the first argument bounds the number of
  lines.\<close>

fun read_headers :: "nat \<Rightarrow> string \<Rightarrow> ((string \<times> string) list \<times> string) option" where
  "read_headers 0 s = None"
| "read_headers (Suc n) s =
     (case read_line s of
        None \<Rightarrow> None
      | Some (l, s') \<Rightarrow>
          if l = [] then Some ([], s')
          else (case read_header l of
                  None \<Rightarrow> None
                | Some h \<Rightarrow> map_option (\<lambda>(hs, s''). (h # hs, s'')) (read_headers n s')))"

definition header_len :: "(string \<times> string) list \<Rightarrow> string \<Rightarrow> nat" where
  "header_len hs k = (case map_of hs k of None \<Rightarrow> 0 | Some v \<Rightarrow> undec v)"

definition read_rec :: "string \<Rightarrow> (drec \<times> string) option" where
  "read_rec s =
     (case read_headers (length s) s of
        None \<Rightarrow> None
      | Some (hs, s') \<Rightarrow>
          if map_of hs ''Content-length'' = None
          then (if take 1 s' = nl then Some (Rec hs None, drop 1 s') else None)
          else (let n = header_len hs ''Content-length''; m = header_len hs ''Prop-content-length''
                in if n \<le> length s' \<and> m \<le> n \<and> take 2 (drop n s') = nl @ nl
                   then Some (Rec hs (Some (take m s', take (n - m) (drop m s'))), drop (n + 2) s') else None))"

fun read_recs :: "nat \<Rightarrow> string \<Rightarrow> drec list option" where
  "read_recs 0 s = (if s = [] then Some [] else None)"
| "read_recs (Suc n) s =
     (if s = [] then Some []
      else (case read_rec s of None \<Rightarrow> None | Some (r, s') \<Rightarrow> map_option (Cons r) (read_recs n s')))"

text \<open>
  Header lines that can be told apart: no newline, no colon in the name, no empty name. The record
  of a node begins with its path.
\<close>

definition line_ok :: "string \<Rightarrow> bool" where
  "line_ok s \<longleftrightarrow> CHR 0x0A \<notin> set s"

definition rec_clean :: "drec \<Rightarrow> bool" where
  "rec_clean r \<longleftrightarrow> (\<exists>path hs. rec_headers r = (''Node-path'', path) # hs) \<and>
     (\<forall>(k, v) \<in> set (rec_headers r). k \<noteq> [] \<and> CHR '':'' \<notin> set k \<and> line_ok k \<and> line_ok v)"

lemma read_line_append: "line_ok l \<Longrightarrow> read_line (l @ nl @ s) = Some (l, s)"
  by (auto simp: read_line_def line_ok_def takeWhile_append dropWhile_append)

lemma read_header_show: "CHR '':'' \<notin> set k \<Longrightarrow> read_header (k @ '': '' @ v) = Some (k, v)"
proof -
  assume "CHR '':'' \<notin> set k"
  then have "takeWhile (\<lambda>c. c \<noteq> CHR '':'') (k @ '': '' @ v) = k" by (auto simp: takeWhile_append)
  then show ?thesis by (simp add: read_header_def)
qed

lemma read_headers_show:
  assumes "\<forall>(k, v) \<in> set hs. k \<noteq> [] \<and> CHR '':'' \<notin> set k \<and> line_ok k \<and> line_ok v" "length hs < n"
  shows "read_headers n (hdrs hs @ nl @ s) = Some (hs, s)"
  using assms
proof (induction hs arbitrary: n)
  case Nil
  then show ?case using read_line_append [of "[]" s] by (cases n) (auto simp: hdrs_def line_ok_def)
next
  case (Cons h hs)
  obtain k v where h: "h = (k, v)" by (cases h)
  obtain m where n: "n = Suc m" using Cons.prems(2) by (cases n) auto
  have "line_ok (k @ '': '' @ v)" using Cons.prems(1) h by (auto simp: line_ok_def)
  then have "read_line (hdrs (h # hs) @ nl @ s) = Some (k @ '': '' @ v, hdrs hs @ nl @ s)"
    using read_line_append [of "k @ '': '' @ v" "hdrs hs @ nl @ s"] h by (simp add: hdrs_def header_def)
  moreover have "read_header (k @ '': '' @ v) = Some (k, v)"
    by (rule read_header_show) (use Cons.prems(1) h in auto)
  moreover have "read_headers m (hdrs hs @ nl @ s) = Some (hs, s)" using Cons n by auto
  ultimately show ?case using h n by simp
qed

lemma hdrs_long: "length hs \<le> length (hdrs hs)"
  by (induction hs) (auto simp: hdrs_def header_def)

lemma read_rec_show:
  assumes "rec_ok r" "rec_clean r"
  shows "read_rec (show_rec r @ s) = Some (r, s)"
proof (cases r)
  case (Rec hs b)
  have h: "read_headers n (hdrs hs @ nl @ s') = Some (hs, s')" if "length (hdrs hs) < n" for n s'
    by (rule read_headers_show) (use assms(2) Rec that hdrs_long [of hs] in \<open>auto simp: rec_clean_def\<close>)
  show ?thesis
  proof (cases b)
    case None
    then show ?thesis
      using assms(1) Rec h [of _ "nl @ s"] by (simp add: read_rec_def del: read_headers.simps)
  next
    case (Some x)
    obtain p t where x: "x = (p, t)" by (cases x)
    have "header_len hs ''Content-length'' = length p + length t" "header_len hs ''Prop-content-length'' = length p"
      using assms(1) Rec Some x by (auto simp: header_len_def split: if_splits)
    then show ?thesis
      using assms(1) Rec Some x h [of _ "p @ t @ nl @ nl @ s"] by (simp add: read_rec_def del: read_headers.simps)
  qed
qed

lemma show_rec_nonempty: "show_rec r \<noteq> []"
  by (cases r rule: show_rec.cases) auto

lemma read_recs_show:
  assumes "\<forall>r \<in> set rs. rec_ok r \<and> rec_clean r" "length rs \<le> n"
  shows "read_recs n (concat (map show_rec rs)) = Some rs"
  using assms
proof (induction rs arbitrary: n)
  case (Cons r rs)
  then show ?case by (cases n) (auto simp: read_rec_show show_rec_nonempty)
qed (case_tac n, auto)

section \<open>What printing a node leaves alone\<close>

text \<open>Printing a node sets its action, its copy information, the name of its delta and its flag, no
  other field and no other node.\<close>

definition node_static :: "node \<Rightarrow> node" where
  "node_static n =
     n\<lparr>n_action := nul, n_cp_info := CPI_NONE, n_copyfrom_rev_local := 0, n_delta_filename := None, n_dump_needed := False\<rparr>"

lemma node_static_fields:
  assumes "node_static m = node_static n"
  shows "n_path m = n_path n" "n_kind m = n_kind n" "n_copyfrom_path m = n_copyfrom_path n"
    "n_copyfrom_revision m = n_copyfrom_revision n" "n_parent m = n_parent n" "n_children m = n_children n"
    "n_filename m = n_filename n" "n_old_filename m = n_old_filename n" "n_properties m = n_properties n"
    "n_del_properties m = n_del_properties n" "n_md5sum m = n_md5sum n" "n_applied_delta m = n_applied_delta n"
    "n_props_changed m = n_props_changed n"
  using assms by (cases m; cases n; simp add: node_static_def)+
text \<open>Printing the record of a node sets even less.\<close>

definition node_rest :: "node \<Rightarrow> node" where
  "node_rest n = n\<lparr>n_delta_filename := None, n_dump_needed := False\<rparr>"

lemma node_rest_fields:
  assumes "node_rest m = node_rest n"
  shows "node_static m = node_static n" "n_action m = n_action n" "n_cp_info m = n_cp_info n"
    "n_copyfrom_rev_local m = n_copyfrom_rev_local n"
  using assms by (cases m; cases n; simp add: node_static_def node_rest_def)+

definition framedp :: "(node \<Rightarrow> node) \<Rightarrow> nat \<Rightarrow> de \<Rightarrow> de \<Rightarrow> bool" where
  "framedp g i d d' \<longleftrightarrow>
     de_session d' = de_session d \<and> de_opts d' = de_opts d \<and> de_logs d' = de_logs d \<and> de_log d' = de_log d \<and>
     de_local_revnum d' = de_local_revnum d \<and> de_root d' = de_root d \<and>
     length (de_nodes d') = length (de_nodes d) \<and> (\<forall>j. j \<noteq> i \<longrightarrow> nd d' j = nd d j) \<and> g (nd d' i) = g (nd d i)"

abbreviation framed :: "nat \<Rightarrow> de \<Rightarrow> de \<Rightarrow> bool" where
  "framed \<equiv> framedp node_static"

abbreviation recorded :: "nat \<Rightarrow> de \<Rightarrow> de \<Rightarrow> bool" where
  "recorded \<equiv> framedp node_rest"

lemma recorded_framed: "recorded i d d' \<Longrightarrow> framed i d d'"
  unfolding framedp_def using node_rest_fields(1) [of "nd d' i" "nd d i"] by blast

lemma framed_refl [simp, intro]: "framedp g i d d"
  by (simp add: framedp_def)

lemma framed_trans [trans]: "framedp g i d d1 \<Longrightarrow> framedp g i d1 d2 \<Longrightarrow> framedp g i d d2"
  by (simp add: framedp_def)

lemma framed_upd: "(\<And>n. g (f n) = g n) \<Longrightarrow> framedp g i d (upd_node i f d)"
  by (cases "i < length (de_nodes d)") (auto simp: framedp_def upd_node_def nth_list_update list_update_beyond)

lemma framed_print [simp, intro]: "framedp g i d (de_print s d)"
  by (simp add: framedp_def de_print_def)

lemma framed_remove [simp, intro]: "framedp g i d (file_remove f d)"
  by (simp add: framedp_def file_remove_def)

lemma framed_repo [simp, intro]: "framedp g i d (d\<lparr>de_repo := r\<rparr>)"
  by (simp add: framedp_def)

lemma framed_acted: "acted i A d d' \<Longrightarrow> framed i d d'"
  by (auto simp: acted_def set_action_def node_static_def intro: framed_trans [OF framed_repo framed_upd])

lemma framed_check_copy: "framed i d (delta_check_copy i d)"
proof -
  obtain c r where "delta_check_copy i d = upd_node i (\<lambda>n. n\<lparr>n_cp_info := c, n_copyfrom_rev_local := r\<rparr>) d"
    using delta_check_copy_node by blast
  then show ?thesis by (auto simp: node_static_def intro: framed_upd)
qed

lemma framed_replace: "framed i d (delta_dump_replace i d)"
  unfolding delta_dump_replace_def by (rule framed_trans [OF framed_print framed_upd]) (simp add: node_static_def)

lemma framed_headers: "framedp g i d (dump_headers i d)"
  by (simp add: dump_headers_def Let_def)

lemma recorded_mark: "recorded i d (delta_mark_node i d)"
proof -
  have "recorded i d d'" if "d' = d\<lparr>de_dumped := h\<rparr> \<or> d' = d\<lparr>de_dumped := h, md5_hash := m\<rparr>" for d' h m
    using that by (auto simp: framedp_def)
  then show ?thesis
    unfolding delta_mark_node_def Let_def by (intro framed_trans [OF _ framed_upd]) (auto simp: node_rest_def)
qed

lemma recorded_finish: "recorded i d (dump_finish i d)"
  unfolding dump_finish_def Let_def
  by (rule framed_trans [OF framed_print]) (auto split: option.splits intro: recorded_mark framed_trans [OF recorded_mark])

lemma framed_copy: "dump_copy i c d = Some (f, c', d') \<Longrightarrow> framedp g i d d'"
  by (auto simp: dump_copy_def Let_def split: if_splits option.splits)

lemma framed_mk_temp: "mk_temp ev sub d = (r, d') \<Longrightarrow> framedp g i d d'"
  by (auto simp: mk_temp_def framedp_def Let_def split: if_splits)

lemma framed_files: "framedp g i d (d\<lparr>de_files := f\<rparr>)"
  by (simp add: framedp_def)

lemma recorded_deltify:
  assumes "delta_deltify_node ev i d = Some (e, d')"
  shows "recorded i d d'"
proof -
  have "recorded i d (upd_node i (\<lambda>n. n\<lparr>n_delta_filename := f\<rparr>) d1)" if "mk_temp ev ''/df/'' d = (r, d1)" for r f d1
    by (rule framed_trans [OF framed_mk_temp [OF that] framed_upd]) (simp add: node_rest_def)
  moreover have "recorded i d (upd_node i (\<lambda>n. n\<lparr>n_delta_filename := f\<rparr>) (d1\<lparr>de_files := g\<rparr>))"
    if "mk_temp ev ''/df/'' d = (r, d1)" for r f g d1
    by (rule framed_trans [OF framed_trans [OF framed_mk_temp [OF that] framed_files] framed_upd])
      (simp add: node_rest_def)
  ultimately show ?thesis
    using assms by (auto simp: delta_deltify_node_def split: option.splits prod.splits)
qed

lemma framed_lengths: "dump_lengths ev i c p d = Some (e, d') \<Longrightarrow> framedp g i d d'"
  by (auto simp: dump_lengths_def Let_def framedp_def de_print_def split: if_splits option.splits)

lemma framed_content: "dump_content_file i d = Some (e, d') \<Longrightarrow> framedp g i d d'"
  by (elim de_bind_SomeE [OF trans [OF dump_content_file_def [symmetric]]])
    (auto simp: delta_cat_file_def framedp_def de_print_def file_remove_def split: option.splits if_splits)

lemma framed_bind:
  assumes "de_bind r f = Some (e, d')" "\<And>e1 d1. r = Some (e1, d1) \<Longrightarrow> framedp g i d d1"
    "\<And>d1 e2 d2. framedp g i d d1 \<Longrightarrow> f d1 = Some (e2, d2) \<Longrightarrow> framedp g i d d2"
  shows "framedp g i d d'"
  using assms(1) by (elim de_bind_SomeE) (use assms(2,3) in blast)+

lemma recorded_body:
  assumes "dump_body ev i c p d = Some (e, d')"
  shows "recorded i d d'"
  using assms unfolding dump_body_def Let_def
proof (rule framed_bind, goal_cases)
  case (1 e1 d1)
  then show ?case using recorded_deltify by (auto split: if_splits)
next
  case (2 d1 e2 d2)
  note f = 2(1)
  from 2(2) show ?case
  proof (rule framed_bind, goal_cases)
    case (1 e3 d3)
    show ?case by (rule framed_trans [OF f framed_lengths [OF 1]])
  next
    case (2 d3 e3 d4)
    note g = framed_trans [OF 2(1) framed_print]
    from 2(2) show ?case
      by (rule framed_bind)
        (auto split: if_splits dest!: framed_content intro: 2(1) g framed_trans [OF g] framed_trans [OF 2(1)]
          framed_trans [OF _ recorded_finish])
  qed
qed

lemma recorded_record: "dump_record ev i d = Some (e, d') \<Longrightarrow> recorded i d d'"
  unfolding dump_record_def Let_def
  by (auto split: if_splits option.splits bool.splits dest!: framed_copy [where g = node_rest] recorded_body)
    (meson framed_trans framed_headers recorded_finish)+

lemma framed_check_action:
  "delta_check_action ev i d = Some (e, d') \<Longrightarrow> i < length (de_nodes d) \<Longrightarrow> framed i d d'"
  by (blast intro: framed_acted delta_check_action_acted)

lemma framed_length: "framed i d d' \<Longrightarrow> length (de_nodes d') = length (de_nodes d)"
  by (simp add: framedp_def)

lemma framed_dump_node:
  assumes "delta_dump_node ev i d = Some (e, d')"
  shows "framed i d d'"
  using assms
proof (induction ev i d rule: delta_dump_node.induct)
  case (1 ev i d)
  show ?case
  proof (cases "i \<ge> length (de_nodes d) \<or> \<not> n_dump_needed (nd d i) \<or> dump_skipped i d")
    case True
    then show ?thesis
      using "1.prems" by (auto simp: delta_dump_node.simps [of ev i d] node_static_def intro: framed_upd split: if_splits)
  next
    case False
    let ?d = "delta_check_copy i d"
    have l: "i < length (de_nodes ?d)" using False framed_length [OF framed_check_copy, of i d] by simp
    have "de_bind (delta_check_action ev i ?d) (\<lambda>d1. if n_action (nd d1 i) = CHR ''R''
        then delta_dump_node ev i (delta_dump_replace i d1) else dump_record ev i d1) = Some (e, d')"
      using "1.prems" False by (simp add: delta_dump_node.simps [of ev i d])
    then show ?thesis
    proof (elim de_bind_SomeE)
      fix d1
      assume d1: "delta_check_action ev i ?d = Some (SVN_NO_ERROR, d1)"
        "(if n_action (nd d1 i) = CHR ''R'' then delta_dump_node ev i (delta_dump_replace i d1)
          else dump_record ev i d1) = Some (e, d')"
      have f: "framed i d d1" using framed_check_copy framed_check_action [OF d1(1) l] framed_trans by blast
      show ?thesis
        using "1.IH" [of d1] False d1 framed_trans [OF f]
          framed_trans [OF framed_trans [OF f framed_replace], of d'] recorded_framed [OF recorded_record, of ev i d1 e d']
        by (auto split: if_splits)
    qed (use framed_check_copy framed_check_action l framed_trans in blast)
  qed
qed


section \<open>The headers of a node\<close>

definition action_word :: "char \<Rightarrow> string" where
  "action_word a = (if a = CHR ''M'' then ''change'' else if a = CHR ''A'' then ''add'' else ''delete'')"

definition base_headers :: "dump_options \<Rightarrow> node \<Rightarrow> (string \<times> string) list" where
  "base_headers opts n =
     [(''Node-path'', user_path opts (n_path n))] @
     (if n_action n \<noteq> CHR ''D'' then [(''Node-kind'', if n_kind n = node_file then ''file'' else ''dir'')] else []) @
     [(''Node-action'', action_word (n_action n))]"

text \<open>The path of a copy source seen from the dumped part; outside of it there is none.\<close>

definition local_source :: "string \<Rightarrow> string \<Rightarrow> string" where
  "local_source pre cf = (case delta_get_local_copyfrom_path pre cf of None \<Rightarrow> [] | Some p \<Rightarrow> p)"

definition copy_headers :: "de \<Rightarrow> node \<Rightarrow> (string \<times> string) list" where
  "copy_headers d n =
     (case n_copyfrom_path n of
        None \<Rightarrow> []
      | Some cf \<Rightarrow>
          if n_cp_info n \<noteq> CPI_COPY then []
          else [(''Node-copyfrom-rev'', dec_int (n_copyfrom_rev_local n)),
                (''Node-copyfrom-path'',
                 user_path (de_opts d) (local_source (prefix (de_session d)) cf))])"

definition len_headers :: "env \<Rightarrow> dump_options \<Rightarrow> node \<Rightarrow> bool \<Rightarrow> string \<Rightarrow> string option \<Rightarrow> (string \<times> string) list" where
  "len_headers ev opts n props p content =
     (if props then (if dump_format opts = 3 then [(''Prop-delta'', ''true'')] else []) @
        [(''Prop-content-length'', dec_nat (length p))] else []) @
     (case content of
        None \<Rightarrow> []
      | Some t \<Rightarrow>
          (if has_flag opts DF_USE_DELTAS then [(''Text-delta'', ''true'')] else []) @
          [(''Text-content-length'', dec_nat (length t))] @
          (if hd (n_md5sum n) \<noteq> nul then [(''Text-content-md5'', md5_to_cstring ev (n_md5sum n))] else [])) @
     [(''Content-length'', dec_nat (length p + (case content of None \<Rightarrow> 0 | Some t \<Rightarrow> length t)))]"

lemma hdrs_append [simp]: "hdrs (hs @ hs') = hdrs hs @ hdrs hs'"
  by (simp add: hdrs_def)

lemma hdrs_Nil [simp]: "hdrs [] = []"
  by (simp add: hdrs_def)

lemma hdrs_single [simp]: "hdrs ((k, v) # hs) = header k v @ hdrs hs"
  by (simp add: hdrs_def)

lemma de_print_print [simp]: "de_print t (de_print s d) = de_print (s @ t) d"
  by (simp add: de_print_def)

lemma nd_print [simp]: "nd (de_print s d) i = nd d i" "de_opts (de_print s d) = de_opts d"
  "de_files (de_print s d) = de_files d" "de_session (de_print s d) = de_session d" "md5_hash (de_print s d) = md5_hash d"
  by (simp_all add: de_print_def)

lemma file_read_print [simp]: "file_read (de_print s d) f = file_read d f"
  by (cases f) (simp_all add: file_read_def)

lemma content_file_de_print [simp]: "content_file i (de_print s d) = content_file i d"
  by (simp add: content_file_def)

lemma out_print: "de_out (de_print s d) = de_out d @ s"
  by (simp add: de_print_def)

lemma dump_headers_print:
  assumes "n_action (nd d i) \<in> {CHR ''M'', CHR ''A'', CHR ''D''}"
  shows "dump_headers i d = de_print (hdrs (base_headers (de_opts d) (nd d i))) d"
  using assms by (auto simp: dump_headers_def base_headers_def action_text_def action_word_def header_def Let_def)

lemma dump_copy_print:
  assumes "dump_copy i c d = Some (f, c', d')"
  shows "d' = de_print (hdrs (copy_headers d (nd d i))) d"
proof (cases "n_copyfrom_path (nd d i)")
  case None
  then show ?thesis using assms by (auto simp: dump_copy_def copy_headers_def de_print_def Let_def split: if_splits)
next
  case (Some cf)
  show ?thesis
  proof (cases "delta_get_local_copyfrom_path (prefix (de_session d)) cf")
    case None
    then show ?thesis using assms Some by (auto simp: dump_copy_def copy_headers_def de_print_def Let_def split: if_splits)
  next
    case (Some p)
    then have "local_source (prefix (de_session d)) cf = p" by (simp add: local_source_def)
    then show ?thesis
      using assms Some \<open>n_copyfrom_path (nd d i) = Some cf\<close>
      by (auto simp: dump_copy_def copy_headers_def de_print_def Let_def split: if_splits)
  qed
qed

lemma node_props_length:
  "length (node_props_text opts n) = node_props_len opts n + length PROPS_END"
proof -
  have "length (concat (map (\<lambda>(k, v). property_dump (Some k) (Some v)) ps)) =
      (\<Sum>(k, v) \<leftarrow> ps. property_strlen (Some k) (Some v))" for ps :: props
    by (induction ps) (auto simp: property_strlen_dump)
  moreover have "length (concat (map (\<lambda>(k, v :: unit). property_del_dump (Some k)) ps)) =
      (\<Sum>(k, v) \<leftarrow> ps. property_del_strlen (Some k))" for ps
    by (induction ps) (auto simp: property_del_strlen_dump)
  ultimately show ?thesis by (simp add: node_props_text_def node_props_len_def)
qed

lemma dump_lengths_print:
  assumes "dump_lengths ev i c props d = Some (SVN_NO_ERROR, d')" "props \<or> node_props_len (de_opts d) (nd d i) = 0"
  shows "\<exists>content. (if c then content = file_read d (content_file i d) \<and> content \<noteq> None else content = None) \<and>
    d' = de_print (hdrs (len_headers ev (de_opts d) (nd d i) props
      (if props then node_props_text (de_opts d) (nd d i) else []) content) @ nl) d"
proof (cases c)
  case False
  then show ?thesis
    using assms by (auto simp: dump_lengths_def len_headers_def Let_def node_props_length)
next
  case True
  then obtain t where "file_read d (content_file i d) = Some t"
    using assms by (auto simp: dump_lengths_def Let_def content_file_def file_read_def split: option.splits if_splits)
  then show ?thesis
    using assms True
    by (auto simp: dump_lengths_def len_headers_def content_headers_def content_file_def file_read_def Let_def
        node_props_length add.assoc split: option.splits if_splits)
qed


section \<open>The body of a record\<close>

lemma de_bind_okE:
  assumes "de_bind r f = Some (SVN_NO_ERROR, d')"
  obtains d1 where "r = Some (SVN_NO_ERROR, d1)" "f d1 = Some (SVN_NO_ERROR, d')"
  using assms by (rule de_bind_SomeE) auto

text \<open>The text a record is to contain: the new text of the file, or its difference to the old one.\<close>

definition node_content :: "env \<Rightarrow> de \<Rightarrow> node \<Rightarrow> string option" where
  "node_content ev d n =
     (case file_read d (n_filename n) of
        None \<Rightarrow> None
      | Some target \<Rightarrow>
          if \<not> has_flag (de_opts d) DF_USE_DELTAS then Some target
          else map_option (\<lambda>source. svn_svndiff ev source target)
                 (if n_old_filename n = None then Some [] else file_read d (n_old_filename n)))"

lemma deltify_content:
  assumes "delta_deltify_node ev i d = Some (SVN_NO_ERROR, d1)" "i < length (de_nodes d)" "has_flag (de_opts d) DF_USE_DELTAS"
  shows "file_read d1 (content_file i d1) = node_content ev d (nd d i) \<and> de_out d1 = de_out d"
  using assms
  by (auto simp: delta_deltify_node_def node_content_def content_file_def file_read_def mk_temp_def upd_node_def Let_def
      split: option.splits if_splits prod.splits)

lemma content_file_print:
  assumes "dump_content_file i d = Some (SVN_NO_ERROR, d')"
  shows "\<exists>t. file_read d (content_file i d) = Some t \<and> de_out d' = de_out d @ t"
  using assms unfolding dump_content_file_def
  by (elim de_bind_SomeE) (auto simp: delta_cat_file_def de_print_def file_remove_def split: option.splits if_splits)

lemma dump_finish_out: "de_out (dump_finish i d) = de_out d @ nl @ nl"
  by (auto simp: dump_finish_def delta_mark_node_def de_print_def file_remove_def upd_node_def Let_def split: option.splits)


lemma dump_body_out:
  assumes "dump_body ev i c p0 d = Some (SVN_NO_ERROR, d')" "i < length (de_nodes d)"
  defines "n \<equiv> nd d i"
  defines "props \<equiv> p0 \<or> node_props_len (de_opts d) n > 0"
  defines "p \<equiv> if props then node_props_text (de_opts d) n else []"
  shows "\<exists>content. (if c then content = node_content ev d n \<and> content \<noteq> None else content = None) \<and>
    de_out d' = de_out d @ hdrs (len_headers ev (de_opts d) n props p content) @ nl @ p @
      (case content of None \<Rightarrow> [] | Some t \<Rightarrow> t) @ nl @ nl"
proof -
  let ?step1 = "if c \<and> has_flag (de_opts d) DF_USE_DELTAS then delta_deltify_node ev i d else Some (SVN_NO_ERROR, d)"
  obtain d1 where d1: "?step1 = Some (SVN_NO_ERROR, d1)" and
    rest: "(let dump_props = (p0 \<or> node_props_len (de_opts d1) (nd d1 i) > 0)
            in de_bind (dump_lengths ev i c dump_props d1)
                 (\<lambda>d1. let d2 = (if dump_props then de_print (node_props_text (de_opts d1) (nd d1 i)) d1 else d1)
                       in de_bind (if c then dump_content_file i d2 else Some (SVN_NO_ERROR, d2))
                            (\<lambda>d3. Some (SVN_NO_ERROR, dump_finish i d3)))) = Some (SVN_NO_ERROR, d')"
    using assms(1) unfolding dump_body_def by (rule de_bind_okE)
  have f: "framed i d d1" using d1 recorded_framed [OF recorded_deltify] by (auto split: if_splits)
  then have o: "de_opts d1 = de_opts d" and s: "node_static (nd d1 i) = node_static n" by (auto simp: framedp_def n_def)
  have same: "node_props_len (de_opts d1) (nd d1 i) = node_props_len (de_opts d) n"
    "node_props_text (de_opts d1) (nd d1 i) = node_props_text (de_opts d) n"
    "len_headers ev (de_opts d1) (nd d1 i) props p x = len_headers ev (de_opts d) n props p x" for x
    using node_static_fields [OF s] o
    by (simp_all add: node_props_len_def node_props_text_def live_props_def len_headers_def cong: option.case_cong)
  have c1: "(c \<longrightarrow> file_read d1 (content_file i d1) = node_content ev d n) \<and> de_out d1 = de_out d"
    using d1 deltify_content [of ev i d d1] assms(2)
    by (auto simp: n_def content_file_def node_content_def file_read_def split: if_splits option.splits)
  obtain d2 where d2: "dump_lengths ev i c props d1 = Some (SVN_NO_ERROR, d2)" and
    rest2: "de_bind (if c then dump_content_file i (if props then de_print (node_props_text (de_opts d2) (nd d2 i)) d2 else d2)
        else Some (SVN_NO_ERROR, if props then de_print (node_props_text (de_opts d2) (nd d2 i)) d2 else d2))
      (\<lambda>d3. Some (SVN_NO_ERROR, dump_finish i d3)) = Some (SVN_NO_ERROR, d')"
    using rest unfolding Let_def same(1) props_def [symmetric] by (rule de_bind_okE)
  obtain content where content: "if c then content = file_read d1 (content_file i d1) \<and> content \<noteq> None else content = None"
    and d2': "d2 = de_print (hdrs (len_headers ev (de_opts d) n props p content) @ nl) d1"
  proof -
    have "props \<or> node_props_len (de_opts d1) (nd d1 i) = 0" using same(1) by (auto simp: props_def)
    from dump_lengths_print [OF d2 this, unfolded same(2), folded p_def, unfolded same(3)] that show thesis by blast
  qed
  let ?d2 = "if props then de_print (node_props_text (de_opts d2) (nd d2 i)) d2 else d2"
  have o2: "de_out ?d2 = de_out d @ hdrs (len_headers ev (de_opts d) n props p content) @ nl @ p"
    using c1 d2' same(2) by (simp add: out_print p_def)
  have r2: "file_read ?d2 (content_file i ?d2) = file_read d1 (content_file i d1)"
    unfolding d2' by simp
  obtain d3 where d3: "(if c then dump_content_file i ?d2 else Some (SVN_NO_ERROR, ?d2)) = Some (SVN_NO_ERROR, d3)"
    and d': "d' = dump_finish i d3"
    using rest2 by (rule de_bind_okE) auto
  have "de_out d3 = de_out ?d2 @ (case content of None \<Rightarrow> [] | Some t \<Rightarrow> t)"
    using d3 content content_file_print [of i ?d2 d3] r2 by (auto split: if_splits)
  then show ?thesis using content c1 o2 d' dump_finish_out [of i d3] by (intro exI [of _ content]) auto
qed


section \<open>The record of a node\<close>

text \<open>The record that belongs to a node, as a value: what is printed is compared with this.\<close>

definition copied :: "node \<Rightarrow> bool" where
  "copied n \<longleftrightarrow> n_cp_info n = CPI_COPY \<and> n_copyfrom_path n \<noteq> None"

text \<open>The text goes into the record when it was changed; for a copied file, unless it is that of the
  source.\<close>

definition wants_content :: "de \<Rightarrow> node \<Rightarrow> bool" where
  "wants_content d n =
     (if copied n \<and> n_action n = CHR ''A'' \<and> n_kind n = node_file
      then rhash_get (md5_hash d) (the (delta_get_local_copyfrom_path (prefix (de_session d)) (the (n_copyfrom_path n))))
             \<noteq> Some (n_md5sum n)
      else n_kind n = node_file \<and> n_applied_delta n)"

definition wants_props :: "dump_options \<Rightarrow> node \<Rightarrow> bool" where
  "wants_props opts n \<longleftrightarrow> n_props_changed n \<or> n_action n = CHR ''A'' \<or> node_props_len opts n > 0"

definition node_record :: "env \<Rightarrow> de \<Rightarrow> node \<Rightarrow> drec" where
  "node_record ev d n =
     (let opts = de_opts d; hs = base_headers opts n; hs' = hs @ copy_headers d n;
          props = wants_props opts n;
          p = (if props then node_props_text opts n else []);
          content = (if wants_content d n then node_content ev d n else None)
      in if n_action n = CHR ''D'' then Rec hs None
         else if copied n \<and> \<not> wants_content d n \<and> \<not> n_props_changed n then Rec hs' None
         else Rec (hs' @ len_headers ev opts n props p content) (Some (p, case content of None \<Rightarrow> [] | Some t \<Rightarrow> t)))"

definition delete_record :: "dump_options \<Rightarrow> node \<Rightarrow> drec" where
  "delete_record opts n = Rec [(''Node-path'', user_path opts (n_path n)), (''Node-action'', ''delete'')] None"

lemma dump_copy_flags:
  assumes "dump_copy i (n_kind (nd d i) = node_file \<and> n_applied_delta (nd d i)) d = Some (f, c, d')"
  shows "f = (copied (nd d i) \<and> \<not> wants_content d (nd d i) \<and> \<not> n_props_changed (nd d i)) \<and>
    (\<not> f \<longrightarrow> c = wants_content d (nd d i))"
  using assms by (auto simp: dump_copy_def wants_content_def copied_def Let_def split: if_splits option.splits)

lemma node_content_print [simp]: "node_content ev (de_print s d) n = node_content ev d n"
  by (auto simp: node_content_def split: option.split)

lemma wants_content_print [simp]: "wants_content (de_print s d) n = wants_content d n"
  by (simp add: wants_content_def)

lemma copy_headers_print [simp]: "copy_headers (de_print s d) n = copy_headers d n"
  by (simp add: copy_headers_def split: option.split)

lemma dump_record_out:
  assumes "dump_record ev i d = Some (SVN_NO_ERROR, d')" "i < length (de_nodes d)"
    "n_action (nd d i) \<in> {CHR ''M'', CHR ''A'', CHR ''D''}"
  shows "de_out d' = de_out d @ show_rec (node_record ev d (nd d i))"
proof (cases "n_action (nd d i) = CHR ''D''")
  case True
  then show ?thesis
    using assms dump_headers_print [OF assms(3)]
    by (auto simp: dump_record_def node_record_def dump_finish_out out_print Let_def)
next
  case False
  let ?n = "nd d i" and ?d1 = "de_print (hdrs (base_headers (de_opts d) (nd d i))) d"
  obtain f c d2 where copy: "dump_copy i (n_kind ?n = node_file \<and> n_applied_delta ?n) ?d1 = Some (f, c, d2)"
    and rest: "(if f then Some (SVN_NO_ERROR, dump_finish i d2)
      else dump_body ev i c (n_props_changed ?n \<or> n_action ?n = CHR ''A'') d2) = Some (SVN_NO_ERROR, d')"
    using assms(1) False dump_headers_print [OF assms(3)]
    by (auto simp: dump_record_def Let_def split: option.splits bool.splits)
  have d2: "d2 = de_print (hdrs (base_headers (de_opts d) ?n @ copy_headers d ?n)) d"
    using dump_copy_print [OF copy] by simp
  have fl: "f = (copied ?n \<and> \<not> wants_content d ?n \<and> \<not> n_props_changed ?n)" "\<not> f \<longrightarrow> c = wants_content d ?n"
    using dump_copy_flags [of i ?d1 f c d2] copy by auto
  show ?thesis
  proof (cases f)
    case True
    then show ?thesis using rest fl(1) d2 False by (auto simp: dump_finish_out out_print node_record_def Let_def)
  next
    case f: False
    then have "dump_body ev i c (n_props_changed ?n \<or> n_action ?n = CHR ''A'') d2 = Some (SVN_NO_ERROR, d')"
      "i < length (de_nodes d2)" using rest d2 assms(2) by (auto simp: de_print_def)
    from dump_body_out [OF this] show ?thesis
      using f fl False unfolding d2
      by (auto simp: out_print node_record_def wants_props_def Let_def split: if_splits)
  qed
qed

lemma node_headers_free:
  "map_of (base_headers opts n) ''Content-length'' = None" "map_of (base_headers opts n) ''Prop-content-length'' = None"
  "map_of (base_headers opts n) ''Text-content-length'' = None" "map_of (copy_headers d n) ''Content-length'' = None"
  "map_of (copy_headers d n) ''Prop-content-length'' = None" "map_of (copy_headers d n) ''Text-content-length'' = None"
  by (simp_all add: base_headers_def copy_headers_def split: option.split)

lemma len_headers_lookup:
  "map_of (len_headers ev opts n props p content) ''Content-length'' =
     Some (dec_nat (length p + (case content of None \<Rightarrow> 0 | Some t \<Rightarrow> length t)))"
  "map_of (len_headers ev opts n props p content) ''Prop-content-length'' = (if props then Some (dec_nat (length p)) else None)"
  "map_of (len_headers ev opts n props p content) ''Text-content-length'' = map_option (\<lambda>t. dec_nat (length t)) content"
  by (simp_all add: len_headers_def split: option.split)

lemma node_record_ok: "rec_ok (node_record ev d n)"
proof -
  have "node_props_text opts n \<noteq> []" for opts by (simp add: node_props_text_def PROPS_END_def)
  then show ?thesis
    by (simp add: node_record_def Let_def node_headers_free len_headers_lookup map_add_def split: option.split)
qed

text \<open>Names and values of a node that fit on a header line.\<close>

definition node_clean :: "env \<Rightarrow> de \<Rightarrow> node \<Rightarrow> bool" where
  "node_clean ev d n \<longleftrightarrow>
     line_ok (user_path (de_opts d) (n_path n)) \<and> line_ok (md5_to_cstring ev (n_md5sum n)) \<and>
     (case n_copyfrom_path n of
        None \<Rightarrow> True
      | Some cf \<Rightarrow> line_ok (user_path (de_opts d) (local_source (prefix (de_session d)) cf)))"

lemma node_clean_cong:
  "de_opts d' = de_opts d \<Longrightarrow> de_session d' = de_session d \<Longrightarrow> node_clean ev d' n = node_clean ev d n"
  by (simp add: node_clean_def split: option.split)

lemma line_ok_dec [simp]: "line_ok (dec_nat n)" "line_ok (dec_int i)"
proof -
  show n: "line_ok (dec_nat n)" for n using dec_nat_digits [of "CHR 0x0A" n] by (auto simp: line_ok_def is_digit_def)
  then show "line_ok (dec_int i)" by (auto simp: dec_int_def line_ok_def)
qed

lemma node_record_clean: "node_clean ev d n \<Longrightarrow> rec_clean (node_record ev d n)"
proof -
  assume c: "node_clean ev d n"
  let ?P = "\<lambda>hs. \<forall>(k, v) \<in> set hs. k \<noteq> [] \<and> CHR '':'' \<notin> set k \<and> line_ok k \<and> line_ok v"
  have "?P (base_headers (de_opts d) n)"
    using c by (auto simp: base_headers_def node_clean_def line_ok_def action_word_def)
  moreover have "?P (copy_headers d n)"
    using c line_ok_dec(2) [of "n_copyfrom_rev_local n"]
    by (auto simp: copy_headers_def node_clean_def line_ok_def split: option.splits)
  moreover have "?P (len_headers ev (de_opts d) n props p content)" for props p content
    using c line_ok_dec(1) by (auto simp: len_headers_def node_clean_def line_ok_def split: option.split)
  moreover have "\<exists>path hs. rec_headers (node_record ev d n) = (''Node-path'', path) # hs"
    by (simp add: node_record_def base_headers_def Let_def)
  ultimately show ?thesis by (simp add: rec_clean_def node_record_def Let_def ball_Un)
qed

lemma delete_record_ok: "rec_ok (delete_record opts n)"
  by (simp add: delete_record_def)

lemma delete_record_clean: "node_clean ev d n \<Longrightarrow> rec_clean (delete_record (de_opts d) n)"
  by (auto simp: delete_record_def rec_clean_def node_clean_def line_ok_def)

lemma node_clean_framed:
  assumes "framed i d d'" "node_clean ev d (nd d j)"
  shows "node_clean ev d' (nd d' j)"
proof -
  have "node_static (nd d' j) = node_static (nd d j)" "de_opts d' = de_opts d" "de_session d' = de_session d"
    using assms(1) by (cases "j = i"; simp add: framedp_def)+
  then show ?thesis
    using assms(2) node_static_fields [of "nd d' j" "nd d j"] by (simp add: node_clean_def split: option.splits)
qed


section \<open>Printing a node\<close>

definition act_ok :: "node \<Rightarrow> bool" where
  "act_ok n \<longleftrightarrow> n_action n \<in> {CHR ''A'', CHR ''M'', CHR ''D'', CHR ''R''}"

lemma check_copy_out: "de_out (delta_check_copy i d) = de_out d"
  using delta_check_copy_node [of i d] by (auto simp: upd_node_def)

lemma check_copy_action: "n_action (nd (delta_check_copy i d) i) = n_action (nd d i)"
proof (cases "i < length (de_nodes d)")
  case True
  then show ?thesis using delta_check_copy_node [of i d] by (auto simp: upd_node_same)
next
  case False
  then show ?thesis using delta_check_copy_node [of i d] by (auto simp: upd_node_def list_update_beyond)
qed

lemma acted_out: "acted i A d d' \<Longrightarrow> de_out d' = de_out d"
  by (auto simp: acted_def set_action_def upd_node_def)

lemma check_action_add: "n_action (nd d i) \<in> {CHR ''A'', CHR ''D''} \<Longrightarrow> delta_check_action ev i d = Some (SVN_NO_ERROR, d)"
  by (auto simp: delta_check_action_def Let_def)

text \<open>The second round, after the deletion of a replaced node.\<close>

lemma dump_node_after_replace:
  assumes "i < length (de_nodes d)" "n_dump_needed (nd d i)" "\<not> has_flag (de_opts d) DF_INITIAL_DRY_RUN"
  shows "delta_dump_node ev i (delta_dump_replace i d) = dump_record ev i (delta_check_copy i (delta_dump_replace i d))"
proof -
  let ?d = "delta_dump_replace i d"
  have n: "nd ?d i = (nd d i)\<lparr>n_cp_info := CPI_NONE, n_action := CHR ''A''\<rparr>" "length (de_nodes ?d) = length (de_nodes d)"
    "de_opts ?d = de_opts d"
    using assms(1) by (simp_all add: delta_dump_replace_def upd_node_def)
       (simp_all add: de_print_def)
  have a: "n_action (nd (delta_check_copy i ?d) i) = CHR ''A''" by (simp add: check_copy_action n)
  have "\<not> dump_skipped i ?d" using assms n by (simp add: dump_skipped_def Let_def)
  then show ?thesis
    using assms n a check_action_add [of "delta_check_copy i ?d" i ev]
    by (simp add: delta_dump_node.simps [of ev i ?d] de_bind_def)
qed

lemma acted_needed: "acted i A d d' \<Longrightarrow> i < length (de_nodes d) \<Longrightarrow> n_dump_needed (nd d' i) = n_dump_needed (nd d i)"
  by (auto simp: acted_def set_action_def upd_node_same)

lemma check_copy_needed: "n_dump_needed (nd (delta_check_copy i d) i) = n_dump_needed (nd d i)"
proof (cases "i < length (de_nodes d)")
  case True
  then show ?thesis using delta_check_copy_node [of i d] by (auto simp: upd_node_same)
next
  case False
  then show ?thesis using delta_check_copy_node [of i d] by (auto simp: upd_node_def list_update_beyond)
qed

lemma delta_dump_node_out:
  assumes "delta_dump_node ev i d = Some (SVN_NO_ERROR, d')" "n_dump_needed (nd d i)" "\<not> dump_skipped i d" "act_ok (nd d i)"
  shows "\<exists>d1. delta_check_action ev i (delta_check_copy i d) = Some (SVN_NO_ERROR, d1) \<and>
    (if n_action (nd d1 i) = CHR ''R''
     then (let d2 = delta_check_copy i (delta_dump_replace i d1)
           in de_out d' = de_out d @ show_rec (delete_record (de_opts d) (nd d i)) @ show_rec (node_record ev d2 (nd d2 i)))
     else de_out d' = de_out d @ show_rec (node_record ev d1 (nd d1 i)))"
proof -
  have l: "i < length (de_nodes d)" using assms(1) by (simp add: delta_dump_node.simps [of ev i d] split: if_splits)
  obtain d1 where d1: "delta_check_action ev i (delta_check_copy i d) = Some (SVN_NO_ERROR, d1)"
    and rest: "(if n_action (nd d1 i) = CHR ''R'' then delta_dump_node ev i (delta_dump_replace i d1)
                else dump_record ev i d1) = Some (SVN_NO_ERROR, d')"
    using assms l by (auto simp: delta_dump_node.simps [of ev i d] elim: de_bind_okE)
  have lc: "i < length (de_nodes (delta_check_copy i d))" using l framed_length [OF framed_check_copy, of i d] by simp
  note act = delta_check_action_acted [OF d1 lc]
  have f: "framed i d d1" using framed_trans [OF framed_check_copy framed_acted [OF act]] .
  have o: "de_out d1 = de_out d" "de_opts d1 = de_opts d" "length (de_nodes d1) = length (de_nodes d)"
    "n_path (nd d1 i) = n_path (nd d i)" "n_dump_needed (nd d1 i)"
    using f acted_out [OF act] acted_needed [OF act lc] check_copy_out [of i d] check_copy_needed [of i d] assms(2)
      node_static_fields(1) [of "nd d1 i" "nd d i"] by (auto simp: framedp_def)
  show ?thesis
  proof (cases "n_action (nd d1 i) = CHR ''R''")
    case True
    let ?d2 = "delta_check_copy i (delta_dump_replace i d1)"
    have dry: "\<not> has_flag (de_opts d1) DF_INITIAL_DRY_RUN" using assms(3) o(2) by (simp add: dump_skipped_def Let_def)
    have rec: "dump_record ev i ?d2 = Some (SVN_NO_ERROR, d')"
      using rest True dump_node_after_replace [of i d1 ev] dry l o by simp
    have len: "i < length (de_nodes ?d2)"
      using l o(3) framed_length [OF framed_trans [OF framed_replace framed_check_copy], of i d1] by simp
    have a: "n_action (nd ?d2 i) = CHR ''A''"
      using l o(3) by (simp add: check_copy_action delta_dump_replace_def upd_node_same de_print_def)
    have "de_out ?d2 = de_out d @ show_rec (delete_record (de_opts d) (nd d i))"
      using o by (simp add: check_copy_out delta_dump_replace_def upd_node_def de_print_def delete_record_def)
    then show ?thesis using True d1 dump_record_out [OF rec len] a by (simp add: Let_def)
  next
    case False
    then have "n_action (nd d1 i) \<in> {CHR ''M'', CHR ''A'', CHR ''D''}"
      using acted_action [OF act lc] assms(4) by (auto simp: act_ok_def check_copy_action)
    then show ?thesis using False d1 rest o l dump_record_out [of ev i d1 d'] by simp
  qed
qed


section \<open>Printing a whole edit\<close>

text \<open>A step that prints a sequence of well-formed records.\<close>

definition printed :: "de \<Rightarrow> de \<Rightarrow> bool" where
  "printed d d' \<longleftrightarrow>
     (\<exists>rs. de_out d' = de_out d @ concat (map show_rec rs) \<and> (\<forall>r \<in> set rs. rec_ok r \<and> rec_clean r))"

lemma printed_same: "de_out d' = de_out d \<Longrightarrow> printed d d'"
  unfolding printed_def by (rule exI [of _ "[]"]) simp

lemma printed_trans: "printed d d1 \<Longrightarrow> printed d1 d2 \<Longrightarrow> printed d d2"
proof -
  assume "printed d d1" "printed d1 d2"
  then obtain rs rs' where "de_out d1 = de_out d @ concat (map show_rec rs)" "\<forall>r \<in> set rs. rec_ok r \<and> rec_clean r"
    "de_out d2 = de_out d1 @ concat (map show_rec rs')" "\<forall>r \<in> set rs'. rec_ok r \<and> rec_clean r"
    by (auto simp: printed_def)
  then show ?thesis unfolding printed_def by (intro exI [of _ "rs @ rs'"]) auto
qed

lemma printed_one: "rec_ok r \<Longrightarrow> rec_clean r \<Longrightarrow> de_out d' = de_out d @ show_rec r \<Longrightarrow> printed d d'"
  unfolding printed_def by (rule exI [of _ "[r]"]) simp

text \<open>States whose nodes have the actions of a log and names that fit on a line.\<close>

definition edit_ok :: "env \<Rightarrow> de \<Rightarrow> bool" where
  "edit_ok ev d \<longleftrightarrow> (\<forall>i < length (de_nodes d). act_ok (nd d i) \<and> node_clean ev d (nd d i))"

lemma edit_ok_cong:
  assumes "de_nodes d' = de_nodes d" "de_opts d' = de_opts d" "de_session d' = de_session d"
  shows "edit_ok ev d' = edit_ok ev d"
  using assms(1) node_clean_cong [OF assms(2,3)] by (simp add: edit_ok_def)

text \<open>Checking and printing may turn an action into an addition or a change only.\<close>

lemma dump_node_action_pred:
  assumes "delta_dump_node ev i d = Some (e, d')" "i < length (de_nodes d)" "P (n_action (nd d i))"
    "P CHR ''A''" "P CHR ''M''"
  shows "P (n_action (nd d' i))"
  using assms(1-3)
proof (induction ev i d rule: delta_dump_node.induct)
  case (1 ev i d)
  show ?case
  proof (cases "\<not> n_dump_needed (nd d i) \<or> dump_skipped i d")
    case True
    then show ?thesis
      using "1.prems" by (auto simp: delta_dump_node.simps [of ev i d] upd_node_same split: if_splits)
  next
    case False
    have lc: "i < length (de_nodes (delta_check_copy i d))"
      using "1.prems"(2) framed_length [OF framed_check_copy, of i d] by simp
    have bind: "de_bind (delta_check_action ev i (delta_check_copy i d)) (\<lambda>d1. if n_action (nd d1 i) = CHR ''R''
        then delta_dump_node ev i (delta_dump_replace i d1) else dump_record ev i d1) = Some (e, d')"
      using "1.prems" False by (simp add: delta_dump_node.simps [of ev i d])
    have act: "P (n_action (nd d1 i))" if "delta_check_action ev i (delta_check_copy i d) = Some (e1, d1)" for e1 d1
      using acted_action [OF delta_check_action_acted [OF that lc] lc] "1.prems"(3) assms(4,5)
      by (auto simp: check_copy_action)
    from bind show ?thesis
    proof (cases rule: de_bind_SomeE)
      case (2 d1)
      have l1: "i < length (de_nodes d1)" using acted_length [OF delta_check_action_acted [OF 2(1) lc]] lc by simp
      have "P (n_action (nd (delta_dump_replace i d1) i))" "i < length (de_nodes (delta_dump_replace i d1))"
        using l1 framed_length [OF framed_replace, of i d1] assms(4)
        by (auto simp: delta_dump_replace_def upd_node_same de_print_def)
      moreover have "P (n_action (nd d' i))" if "dump_record ev i d1 = Some (e, d')"
        using recorded_record [OF that] node_rest_fields(2) [of "nd d' i" "nd d1 i"] act [OF 2(1)]
        by (simp add: framedp_def)
      ultimately show ?thesis using "1.IH" [of d1] 2 False "1.prems"(2) by (auto split: if_splits)
    qed (use act in auto)
  qed
qed

lemma dump_node_action:
  "delta_dump_node ev i d = Some (e, d') \<Longrightarrow> i < length (de_nodes d) \<Longrightarrow> act_ok (nd d i) \<Longrightarrow> act_ok (nd d' i)"
  unfolding act_ok_def by (rule dump_node_action_pred [where P = "\<lambda>a. a \<in> {CHR ''A'', CHR ''M'', CHR ''D'', CHR ''R''}"]) auto

lemma edit_ok_framed:
  assumes "edit_ok ev d" "framed i d d'" "i < length (de_nodes d) \<Longrightarrow> act_ok (nd d' i)"
  shows "edit_ok ev d'"
  unfolding edit_ok_def
proof (intro allI impI conjI)
  fix j
  assume "j < length (de_nodes d')"
  then have j: "j < length (de_nodes d)" using assms(2) by (simp add: framedp_def)
  then show "act_ok (nd d' j)" using assms by (cases "j = i") (auto simp: framedp_def edit_ok_def)
  show "node_clean ev d' (nd d' j)" using node_clean_framed [OF assms(2)] assms(1) j by (simp add: edit_ok_def)
qed

lemma dump_node_printed:
  assumes "delta_dump_node ev i d = Some (SVN_NO_ERROR, d')" "edit_ok ev d"
  shows "printed d d' \<and> edit_ok ev d'"
proof -
  have l: "i < length (de_nodes d)" using assms(1) by (simp add: delta_dump_node.simps [of ev i d] split: if_splits)
  then have a: "act_ok (nd d i)" and c: "node_clean ev d (nd d i)" using assms(2) by (auto simp: edit_ok_def)
  have lc: "i < length (de_nodes (delta_check_copy i d))" using l framed_length [OF framed_check_copy, of i d] by simp
  have "printed d d'"
  proof (cases "\<not> n_dump_needed (nd d i) \<or> dump_skipped i d")
    case True
    then show ?thesis
      using assms(1) l by (auto simp: delta_dump_node.simps [of ev i d] upd_node_def intro!: printed_same split: if_splits)
  next
    case False
    obtain d1 where d1: "delta_check_action ev i (delta_check_copy i d) = Some (SVN_NO_ERROR, d1)"
      "if n_action (nd d1 i) = CHR ''R''
       then (let d2 = delta_check_copy i (delta_dump_replace i d1)
             in de_out d' = de_out d @ show_rec (delete_record (de_opts d) (nd d i)) @ show_rec (node_record ev d2 (nd d2 i)))
       else de_out d' = de_out d @ show_rec (node_record ev d1 (nd d1 i))"
      using delta_dump_node_out [OF assms(1)] False a by auto
    let ?d2 = "delta_check_copy i (delta_dump_replace i d1)"
    have f: "framed i d d1" by (rule framed_trans [OF framed_check_copy framed_check_action [OF d1(1) lc]])
    then have f2: "framed i d ?d2" by (meson framed_trans framed_replace framed_check_copy)
    have r: "rec_ok (node_record ev d' (nd d' i)) \<and> rec_clean (node_record ev d' (nd d' i))" if "framed i d d'" for d'
      using node_record_ok node_record_clean node_clean_framed [OF that c] by simp
    let ?del = "delete_record (de_opts d) (nd d i)"
    have "printed d d'" if "de_out d' = de_out d @ show_rec ?del @ show_rec (node_record ev ?d2 (nd ?d2 i))"
      unfolding printed_def by (rule exI [of _ "[?del, node_record ev ?d2 (nd ?d2 i)]"])
        (use that r [OF f2] delete_record_ok delete_record_clean [OF c] in auto)
    then show ?thesis using d1(2) r [OF f] printed_one by (auto simp: Let_def split: if_splits)
  qed
  then show ?thesis
    using edit_ok_framed [OF assms(2) framed_dump_node [OF assms(1)]] dump_node_action [OF assms(1) l a] by simp
qed


lemma upd_node_id: "upd_node i (\<lambda>n. n\<lparr>n_cp_info := n_cp_info (nd d i)\<rparr>) d = d"
  by (simp add: upd_node_def)

lemma propagate_shape:
  assumes "delta_propagate_copy ev parent child d = Some (e, d')"
  shows "\<exists>c r. d' = upd_node child (\<lambda>n. n\<lparr>n_cp_info := c\<rparr>) (d\<lparr>de_repo := r\<rparr>)"
proof -
  have same: "\<exists>c r. d\<lparr>de_repo := r'\<rparr> = upd_node child (\<lambda>n. n\<lparr>n_cp_info := c\<rparr>) (d\<lparr>de_repo := r\<rparr>)" for r'
    by (rule exI [of _ "n_cp_info (nd d child)"], rule exI [of _ r']) (simp add: upd_node_def)
  have upd: "\<exists>c r. upd_node child (\<lambda>n. n\<lparr>n_cp_info := c'\<rparr>) d = upd_node child (\<lambda>n. n\<lparr>n_cp_info := c\<rparr>) (d\<lparr>de_repo := r\<rparr>)" for c'
    by (rule exI [of _ c'], rule exI [of _ "de_repo d"]) simp
  have "\<exists>c r. d' = upd_node child (\<lambda>n. n\<lparr>n_cp_info := c\<rparr>) (d\<lparr>de_repo := r\<rparr>)"
    if "propagate_to ev copied child d = Some (e, d')" for copied
    using that same upd unfolding propagate_to_def Let_def
    by (auto split: option.splits prod.splits if_splits)
  then show ?thesis
    using assms same [of "de_repo d"] upd unfolding delta_propagate_copy_def Let_def
    by (auto split: if_splits option.splits)
qed

lemma propagate_framed: "delta_propagate_copy ev parent child d = Some (e, d') \<Longrightarrow> framed child d d'"
  by (drule propagate_shape) (auto intro!: framed_trans [OF framed_repo framed_upd] simp: node_static_def)

lemma propagate_printed:
  assumes "delta_propagate_copy ev parent child d = Some (e, d')" "edit_ok ev d"
  shows "printed d d' \<and> edit_ok ev d'"
proof -
  obtain c r where d': "d' = upd_node child (\<lambda>n. n\<lparr>n_cp_info := c\<rparr>) (d\<lparr>de_repo := r\<rparr>)"
    using propagate_shape [OF assms(1)] by blast
  have "edit_ok ev d'"
    by (rule edit_ok_framed [OF assms(2) propagate_framed [OF assms(1)]])
      (use assms(2) d' in \<open>simp add: upd_node_def edit_ok_def act_ok_def\<close>)
  then show ?thesis using d' by (auto intro: printed_same simp: upd_node_def)
qed

text \<open>An invariant and a transitive relation through a loop.\<close>

lemma de_fold_steps:
  assumes "de_fold f xs d = Some (SVN_NO_ERROR, d')" "I d" "\<And>a. R a a" "\<And>a b c. R a b \<Longrightarrow> R b c \<Longrightarrow> R a c"
    "\<And>x a b. x \<in> set xs \<Longrightarrow> I a \<Longrightarrow> f x a = Some (SVN_NO_ERROR, b) \<Longrightarrow> R a b \<and> I b"
  shows "R d d' \<and> I d'"
  using assms(1,2,5)
proof (induction xs arbitrary: d)
  case (Cons x xs)
  obtain d1 where d1: "f x d = Some (SVN_NO_ERROR, d1)" "de_fold f xs d1 = Some (SVN_NO_ERROR, d')"
    using Cons.prems(1) by (auto elim: de_bind_okE)
  have "R d d1 \<and> I d1" using Cons.prems(3) [OF _ Cons.prems(2) d1(1)] by simp
  then show ?case using Cons.IH [OF d1(2)] Cons.prems(3) assms(4) by (metis list.set_intros(2))
qed (simp add: assms(3))

lemma dump_recursive_printed:
  "delta_dump_node_recursive fuel ev i d = Some (SVN_NO_ERROR, d') \<Longrightarrow> edit_ok ev d \<Longrightarrow> printed d d' \<and> edit_ok ev d'"
proof (induction fuel arbitrary: i d d')
  case (Suc fuel)
  let ?f = "\<lambda>child d. de_bind (delta_propagate_copy ev i child d) (delta_dump_node_recursive fuel ev child)"
  obtain d1 d2 where
    d1: "(if n_action (nd d i) \<noteq> CHR ''D'' then delta_dump_node ev i d else Some (SVN_NO_ERROR, d)) = Some (SVN_NO_ERROR, d1)"
    and d2: "de_fold ?f (n_children (nd d1 i)) d1 = Some (SVN_NO_ERROR, d2)"
    and d': "(if n_action (nd d2 i) = CHR ''D'' then delta_dump_node ev i d2 else Some (SVN_NO_ERROR, d2)) = Some (SVN_NO_ERROR, d')"
    using Suc.prems(1) by (auto elim!: de_bind_okE)
  have 1: "printed d d1 \<and> edit_ok ev d1"
    using d1 Suc.prems(2) dump_node_printed printed_same by (auto split: if_splits)
  have 2: "printed d1 d2 \<and> edit_ok ev d2"
  proof (rule de_fold_steps [OF d2])
    fix x a b
    assume "edit_ok ev a" "?f x a = Some (SVN_NO_ERROR, b)"
    then show "printed a b \<and> edit_ok ev b"
      by (elim de_bind_okE) (meson Suc.IH propagate_printed printed_trans)
  qed (use 1 in \<open>auto intro: printed_same printed_trans\<close>)
  have "printed d2 d' \<and> edit_ok ev d'"
    using d' 2 dump_node_printed printed_same by (auto split: if_splits)
  then show ?case using 1 2 printed_trans by blast
qed simp


text \<open>What no node printed changes.\<close>

definition stat :: "de \<Rightarrow> de \<Rightarrow> bool" where
  "stat d d' \<longleftrightarrow>
     de_session d' = de_session d \<and> de_opts d' = de_opts d \<and> de_logs d' = de_logs d \<and> de_log d' = de_log d \<and>
     de_local_revnum d' = de_local_revnum d \<and> de_root d' = de_root d \<and>
     length (de_nodes d') = length (de_nodes d) \<and> (\<forall>j. node_static (nd d' j) = node_static (nd d j))"

lemma stat_refl [simp, intro]: "stat d d"
  by (simp add: stat_def)

lemma stat_trans: "stat d d1 \<Longrightarrow> stat d1 d2 \<Longrightarrow> stat d d2"
  by (simp add: stat_def)

lemma framed_stat: "framed i d d' \<Longrightarrow> stat d d'"
  unfolding framedp_def stat_def by metis

lemma dump_recursive_stat:
  "delta_dump_node_recursive fuel ev i d = Some (SVN_NO_ERROR, d') \<Longrightarrow> stat d d'"
proof (induction fuel arbitrary: i d d')
  case (Suc fuel)
  let ?f = "\<lambda>child d. de_bind (delta_propagate_copy ev i child d) (delta_dump_node_recursive fuel ev child)"
  obtain d1 d2 where
    d1: "(if n_action (nd d i) \<noteq> CHR ''D'' then delta_dump_node ev i d else Some (SVN_NO_ERROR, d)) = Some (SVN_NO_ERROR, d1)"
    and d2: "de_fold ?f (n_children (nd d1 i)) d1 = Some (SVN_NO_ERROR, d2)"
    and d': "(if n_action (nd d2 i) = CHR ''D'' then delta_dump_node ev i d2 else Some (SVN_NO_ERROR, d2)) = Some (SVN_NO_ERROR, d')"
    using Suc.prems(1) by (auto elim!: de_bind_okE)
  have "stat d1 d2 \<and> True"
  proof (rule de_fold_steps [OF d2, where I = "\<lambda>_. True"])
    fix x a b
    assume "?f x a = Some (SVN_NO_ERROR, b)"
    then show "stat a b \<and> True"
      by (elim de_bind_okE) (meson Suc.IH propagate_framed framed_stat stat_trans)
  qed (auto intro: stat_trans)
  then show ?case
    using d1 d' framed_stat framed_dump_node stat_trans by (metis option.inject prod.inject stat_refl)
qed simp

lemma post_dump_printed:
  assumes "post_dump ev path CHR ''D'' d = Some (SVN_NO_ERROR, d')" "edit_ok ev d"
    "line_ok (user_path (de_opts d) path)" "\<forall>m. line_ok (md5_to_cstring ev m)"
  shows "printed d d' \<and> edit_ok ev d' \<and> de_opts d' = de_opts d"
proof -
  obtain i d1 where d1: "delta_create_node_no_parent path node_none CHR ''D'' True d = (i, d1)"
    and dump: "delta_dump_node ev i d1 = Some (SVN_NO_ERROR, d')"
    using assms(1) by (auto simp: post_dump_def split: prod.splits)
  let ?n = "node_make path CPI_NONE None node_none CHR ''D'' True"
  have d1': "d1 = d\<lparr>de_nodes := de_nodes d @ [?n]\<rparr>" using d1 by (simp add: delta_create_node_no_parent_def)
  have "act_ok ?n \<and> node_clean ev d1 ?n" using assms(3,4) d1' by (simp add: node_make_def node_clean_def act_ok_def)
  moreover have "node_clean ev d1 n = node_clean ev d n" for n using d1' by (intro node_clean_cong) simp_all
  ultimately have "edit_ok ev d1"
    using assms(2) d1' by (auto simp: edit_ok_def less_Suc_eq nth_append)
  then have "printed d1 d' \<and> edit_ok ev d'" by (rule dump_node_printed [OF dump])
  moreover have "de_out d1 = de_out d" "de_opts d1 = de_opts d"
    using d1 by (auto simp: delta_create_node_no_parent_def)
  moreover have "de_opts d' = de_opts d1" using framed_dump_node [OF dump] by (simp add: framedp_def)
  ultimately show ?thesis using printed_same printed_trans by metis
qed

lemma close_deleted_printed:
  assumes "close_deleted ev path CHR ''D'' d = Some (SVN_NO_ERROR, d')" "edit_ok ev d"
    "line_ok (user_path (de_opts d) path)" "\<forall>m. line_ok (md5_to_cstring ev m)"
  shows "printed d d' \<and> edit_ok ev d' \<and> de_opts d' = de_opts d"
proof -
  let ?d = "case rhash_get (delta_hash d) path of
      None \<Rightarrow> d | Some f \<Rightarrow> (file_remove f d)\<lparr>delta_hash := rhash_set (delta_hash d) path None\<rparr>"
  have ok: "edit_ok ev (?d\<lparr>de_repo := r\<rparr>) \<and> de_out (?d\<lparr>de_repo := r\<rparr>) = de_out d \<and> de_opts (?d\<lparr>de_repo := r\<rparr>) = de_opts d" for r
  proof -
    have "de_nodes (?d\<lparr>de_repo := r\<rparr>) = de_nodes d" "de_opts (?d\<lparr>de_repo := r\<rparr>) = de_opts d"
      "de_session (?d\<lparr>de_repo := r\<rparr>) = de_session d" "de_out (?d\<lparr>de_repo := r\<rparr>) = de_out d"
      by (simp_all add: file_remove_def split: option.split)
    then show ?thesis using edit_ok_cong [of "?d\<lparr>de_repo := r\<rparr>" d ev] assms(2) by blast
  qed
  have same: "printed d e \<and> edit_ok ev e \<and> de_opts e = de_opts d" if "e = ?d\<lparr>de_repo := r\<rparr>" for e r
    using ok [of r] that printed_same by blast
  have post: "printed d d' \<and> edit_ok ev d' \<and> de_opts d' = de_opts d"
    if "post_dump ev path CHR ''D'' (?d\<lparr>de_repo := r\<rparr>) = Some (SVN_NO_ERROR, d')" for r
  proof -
    let ?e = "?d\<lparr>de_repo := r\<rparr>"
    have "printed ?e d' \<and> edit_ok ev d' \<and> de_opts d' = de_opts ?e"
      by (rule post_dump_printed [OF that]) (use ok [of r] assms(3,4) in auto)
    then show ?thesis using ok [of r] printed_trans [OF printed_same, of ?e d d'] by simp
  qed
  define e where "e = ?d"
  have e: "e\<lparr>de_repo := de_repo e\<rparr> = e" by simp
  note same' = same [folded e_def, OF refl] and post' = post [folded e_def]
  show ?thesis
    using assms(1) same' same' [of "de_repo e", unfolded e] post' post' [of "de_repo e", unfolded e]
    unfolding close_deleted_def Let_def e_def [symmetric]
    by (auto split: if_splits option.splits bool.splits prod.splits)
qed


section \<open>An example\<close>

text \<open>A revision that adds the file \<open>f\<close>.\<close>

definition demo_env :: env where
  "demo_env =
     \<lparr>svn_path_dirname = (\<lambda>p. fst (utils_path_split p)), svn_prop_regular = (\<lambda>_. True),
      svn_svndiff = (\<lambda>source target. target), apr_md5 = (\<lambda>s. take 16 (s @ replicate 16 CHR ''x'')),
      md5_to_cstring = (\<lambda>_. ''abcd''), mkstemp_ok = (\<lambda>_. True), env_codec = codec_none, env_mem = (\<lambda>_. True),
      env_fuel = 0, junk_kind = node_dir, junk_name = Some [],
      env_stale = (\<lambda>p. case p of Freed s \<Rightarrow> Some s), env_memalign = memory, env_snappy_init = (\<lambda>_. True)\<rparr>"

definition demo_de :: "changed_path apr_hash \<Rightarrow> de" where
  "demo_de changed =
     \<lparr>de_session = session_create (\<lambda>n. n), de_opts = dump_options_create\<lparr>temp_dir := Some ''/t''\<rparr>,
      de_logs = [], de_log = \<lparr>lr_revision = 1, lr_author = None, lr_date = None, lr_message = None, lr_changed_paths = Some changed\<rparr>,
      de_dumped = [], de_local_revnum = 1, de_root = None, de_nodes = [],
      de_repo = the (path_repo_create True memory (disk 500) ''/t''), de_store = the (property_storage_create True (disk 500) ''/t''),
      hashes_created = True, delta_hash = [], md5_hash = [], de_files = (\<lambda>_. None), de_tmp = 0, de_out = []\<rparr>"

definition demo_edit :: de where
  "demo_edit =
     snd (the (de_bind (de_open_root demo_env (demo_de [(''f'', \<lparr>cp_action = CHR ''A'', cp_copyfrom_path = None, cp_copyfrom_rev = -1\<rparr>)]))
       (\<lambda>d. de_bind (de_add_file demo_env ''f'' 0 d)
         (\<lambda>d. de_bind (de_change_file_prop demo_env 1 ''k'' (Some ''v'') d)
           (de_apply_textdelta demo_env 1 (\<lambda>_. ''hi''))))))"

lemma demo_closes: "map_option fst (de_close_edit demo_env demo_edit) = Some SVN_NO_ERROR"
  by code_simp

lemma demo_out: "de_out (snd (the (de_close_edit demo_env demo_edit))) =
  ''Node-path: f'' @ nl @ ''Node-kind: file'' @ nl @ ''Node-action: add'' @ nl @ ''Prop-content-length: 22'' @ nl @
  ''Text-content-length: 2'' @ nl @ ''Text-content-md5: abcd'' @ nl @ ''Content-length: 24'' @ nl @ nl @
  ''K 1'' @ nl @ ''k'' @ nl @ ''V 1'' @ nl @ ''v'' @ nl @ ''PROPS-END'' @ nl @ ''hi'' @ nl @ nl"
  by code_simp

lemma demo_edit_ok: "list_all (\<lambda>n. act_ok n \<and> node_clean demo_env demo_edit n) (de_nodes demo_edit)"
  by code_simp


lemma demo_edit_ok': "edit_ok demo_env demo_edit"
  using demo_edit_ok by (simp add: edit_ok_def list_all_length)

lemma fst_the_ok: "map_option fst r = Some e \<Longrightarrow> r = Some (e, snd (the r))"
  by (cases r) auto

section \<open>Properties\<close>

lemma de_close_edit_printed:
  assumes "de_close_edit ev d = Some (SVN_NO_ERROR, d')" "edit_ok ev d" "\<forall>m. line_ok (md5_to_cstring ev m)"
    "lr_changed_paths (de_log d) = Some h" "\<forall>(path, log) \<in> set h. line_ok (user_path (de_opts d) path)"
  shows "printed d d' \<and> edit_ok ev d'"
proof -
  obtain root' d1 where d1: "delta_dump_node_recursive (Suc (length (de_nodes d))) ev root' d = Some (SVN_NO_ERROR, d1)"
    and rest: "(case lr_changed_paths (de_log d1) of
                    None \<Rightarrow> None
                  | Some h \<Rightarrow>
                      de_fold (\<lambda>(path, log) d. if cp_action log = CHR ''D'' then close_deleted ev path (cp_action log) d
                                              else Some (SVN_NO_ERROR, d)) h d1) = Some (SVN_NO_ERROR, d')"
    using assms(1) unfolding de_close_edit_def by (cases "de_root d") (auto simp del: delta_dump_node_recursive.simps elim: de_bind_okE)
  have st: "stat d d1" by (rule dump_recursive_stat [OF d1])
  have p1: "printed d d1 \<and> edit_ok ev d1" by (rule dump_recursive_printed [OF d1 assms(2)])
  have fold: "de_fold (\<lambda>(path, log) d. if cp_action log = CHR ''D'' then close_deleted ev path (cp_action log) d
      else Some (SVN_NO_ERROR, d)) h d1 = Some (SVN_NO_ERROR, d')"
    using rest st assms(4) by (simp add: stat_def)
  have "printed d1 d' \<and> edit_ok ev d' \<and> de_opts d' = de_opts d"
  proof (rule de_fold_steps [OF fold, where I = "\<lambda>e. edit_ok ev e \<and> de_opts e = de_opts d"])
    fix x a b
    assume x: "x \<in> set h" "edit_ok ev a \<and> de_opts a = de_opts d"
      "(case x of (path, log) \<Rightarrow> \<lambda>d. if cp_action log = CHR ''D'' then close_deleted ev path (cp_action log) d
        else Some (SVN_NO_ERROR, d)) a = Some (SVN_NO_ERROR, b)"
    then show "printed a b \<and> edit_ok ev b \<and> de_opts b = de_opts d"
      using close_deleted_printed [of ev "fst x" a b] assms(3,5) printed_same by (cases x) (auto split: if_splits)
  qed (use p1 st in \<open>auto simp: stat_def intro: printed_same printed_trans\<close>)
  then show ?thesis using p1 printed_trans by blast
qed

lemma length_show_recs: "length rs \<le> length (concat (map show_rec rs))"
proof (induction rs)
  case (Cons r rs)
  then show ?case using show_rec_nonempty [of r] by (cases "show_rec r") auto
qed simp

text \<open>
  C7. Everything that closing an edit prints is a sequence of dump records a reader can take apart:
  each is a block of header lines, and where a Content-length is announced it is followed by exactly
  that many bytes, Prop-content-length of them properties and Text-content-length of them text. Paths
  must be free of newlines and the actions those of a log.
\<close>

theorem de_close_edit_readable:
  assumes "de_close_edit ev d = Some (SVN_NO_ERROR, d')" "edit_ok ev d" "\<forall>m. line_ok (md5_to_cstring ev m)"
    "lr_changed_paths (de_log d) = Some h" "\<forall>(path, log) \<in> set h. line_ok (user_path (de_opts d) path)"
  shows "\<exists>out rs. de_out d' = de_out d @ out \<and> read_recs (length out) out = Some rs \<and> list_all rec_ok rs"
proof -
  obtain rs where rs: "de_out d' = de_out d @ concat (map show_rec rs)" "\<forall>r \<in> set rs. rec_ok r \<and> rec_clean r"
    using de_close_edit_printed [OF assms] unfolding printed_def by blast
  then have "read_recs (length (concat (map show_rec rs))) (concat (map show_rec rs)) = Some rs"
    by (intro read_recs_show length_show_recs)
  then show ?thesis using rs by (auto simp: list_all_iff)
qed

theorem de_close_edit_readable_witness:
  "\<exists>out rs. de_out (snd (the (de_close_edit demo_env demo_edit))) = de_out demo_edit @ out \<and>
     read_recs (length out) out = Some rs \<and> list_all rec_ok rs"
proof (rule de_close_edit_readable [OF fst_the_ok [OF demo_closes] demo_edit_ok'])
  show "\<forall>m. line_ok (md5_to_cstring demo_env m)" by (simp add: demo_env_def line_ok_def)
  show "lr_changed_paths (de_log demo_edit) = Some [(''f'', \<lparr>cp_action = CHR ''A'', cp_copyfrom_path = None, cp_copyfrom_rev = -1\<rparr>)]"
    by code_simp
  show "\<forall>(path, log) \<in> set [(''f'', \<lparr>cp_action = CHR ''A'', cp_copyfrom_path = None, cp_copyfrom_rev = -1\<rparr>)].
      line_ok (user_path (de_opts demo_edit) path)"
    by code_simp
qed

text \<open>
  C10. Dumping a node succeeds only by printing exactly its record. A node that
  needs no dump, or one that is skipped (in a dry run, an unchanged directory, a node covered by the
  copy of its parent) prints nothing. A replaced node is printed as the record of its deletion
  followed by the record of its addition, with the copy source checked anew.
\<close>

theorem delta_dump_node_prints:
  assumes "delta_dump_node ev i d = Some (SVN_NO_ERROR, d')" "act_ok (nd d i)"
  shows "if \<not> n_dump_needed (nd d i) \<or> dump_skipped i d then de_out d' = de_out d
    else \<exists>d1. delta_check_action ev i (delta_check_copy i d) = Some (SVN_NO_ERROR, d1) \<and>
      (let d2 = delta_check_copy i (delta_dump_replace i d1)
       in de_out d' = de_out d @
            (if n_action (nd d1 i) = CHR ''R''
             then show_rec (delete_record (de_opts d) (nd d i)) @ show_rec (node_record ev d2 (nd d2 i))
             else show_rec (node_record ev d1 (nd d1 i))))"
proof (cases "\<not> n_dump_needed (nd d i) \<or> dump_skipped i d")
  case True
  then show ?thesis using assms(1) by (auto simp: delta_dump_node.simps [of ev i d] upd_node_def split: if_splits)
next
  case False
  then show ?thesis using delta_dump_node_out [OF assms(1) _ _ assms(2)] by (auto simp: Let_def split: if_splits)
qed

lemma demo_node_dumps: "map_option fst (delta_dump_node demo_env 1 demo_edit) = Some SVN_NO_ERROR"
  by code_simp

theorem delta_dump_node_prints_witness:
  "\<exists>d1. delta_check_action demo_env 1 (delta_check_copy 1 demo_edit) = Some (SVN_NO_ERROR, d1) \<and>
     de_out (snd (the (delta_dump_node demo_env 1 demo_edit))) = de_out demo_edit @ show_rec (node_record demo_env d1 (nd d1 1))"
proof -
  have a: "act_ok (nd demo_edit 1)" "n_dump_needed (nd demo_edit 1)" "\<not> dump_skipped 1 demo_edit"
    "n_action (nd (delta_check_copy 1 demo_edit) 1) = CHR ''A''" by code_simp+
  then show ?thesis
    using delta_dump_node_prints [OF fst_the_ok [OF demo_node_dumps] a(1)]
      check_action_add [of "delta_check_copy 1 demo_edit" 1 demo_env] by (auto simp: Let_def)
qed

end
