(* ===== verification/Delta_Safety.thy ===== *)
theory Delta_Safety
  imports Delta_Records
begin

text \<open>
  Closing an edit walks over the tree of nodes. This theory shows that the walk ends, never follows
  a null or dangling pointer and leaves no node undumped, in every state that the callbacks can
  build: nodes form a tree in the order of their creation, and a node with a copy source is still to
  be dumped.
\<close>

section \<open>The tree of nodes\<close>

definition up :: "de \<Rightarrow> (nat \<times> nat) set" where
  "up d = {(a, b). a < length (de_nodes d) \<and> n_parent (nd d a) = Some b}"

definition heap_ok :: "de \<Rightarrow> bool" where
  "heap_ok d \<longleftrightarrow>
     (\<forall>i < length (de_nodes d).
        (\<forall>p. n_parent (nd d i) = Some p \<longrightarrow>
           p < i \<and> length (n_path (nd d p)) \<le> length (n_path (nd d i)) \<and> i \<in> set (n_children (nd d p))) \<and>
        distinct (n_children (nd d i)) \<and>
        (\<forall>c \<in> set (n_children (nd d i)). c < length (de_nodes d) \<and> n_parent (nd d c) = Some i))"

text \<open>A node with a copy source has not been dumped; and what a dumped node promises.\<close>

definition fresh_node :: "node \<Rightarrow> bool" where
  "fresh_node n \<longleftrightarrow> (n_copyfrom_path n \<noteq> None \<longrightarrow> n_dump_needed n \<and> n_action n \<in> {CHR ''A'', CHR ''R''})"

definition good :: "de \<Rightarrow> node \<Rightarrow> bool" where
  "good d n \<longleftrightarrow>
     has_flag (de_opts d) DF_INITIAL_DRY_RUN \<or>
     (n_cp_info n = CPI_COPY \<longrightarrow> (\<forall>cf. n_copyfrom_path n = Some cf \<longrightarrow> starts_with cf (prefix (de_session d))))"

text \<open>What the library documents about \<open>svn_path_dirname\<close>: the parent of a relative path is a
  shorter relative path.\<close>

definition dirname_ok :: "env \<Rightarrow> bool" where
  "dirname_ok ev \<longleftrightarrow>
     (\<forall>p. length (svn_path_dirname ev p) \<le> length p \<and>
        (p \<noteq> [] \<and> hd p \<noteq> slash \<longrightarrow>
           length (svn_path_dirname ev p) < length p \<and>
           (svn_path_dirname ev p = [] \<or> hd (svn_path_dirname ev p) \<noteq> slash)))"

lemma heap_parent:
  assumes "heap_ok d" "(a, b) \<in> up d"
  shows "b < a" "b < length (de_nodes d)" "length (n_path (nd d b)) \<le> length (n_path (nd d a))" "a \<in> set (n_children (nd d b))"
proof -
  have "a < length (de_nodes d)" "n_parent (nd d a) = Some b" using assms(2) by (auto simp: up_def)
  then have "b < a \<and> length (n_path (nd d b)) \<le> length (n_path (nd d a)) \<and> a \<in> set (n_children (nd d b))"
    using assms(1) unfolding heap_ok_def by blast
  then show "b < a" "b < length (de_nodes d)" "length (n_path (nd d b)) \<le> length (n_path (nd d a))"
    "a \<in> set (n_children (nd d b))" using \<open>a < length (de_nodes d)\<close> by auto
qed

lemma heap_child:
  assumes "heap_ok d" "i < length (de_nodes d)" "c \<in> set (n_children (nd d i))"
  shows "(c, i) \<in> up d" "c < length (de_nodes d)" "i < c"
proof -
  have "c < length (de_nodes d) \<and> n_parent (nd d c) = Some i" using assms unfolding heap_ok_def by blast
  then show "(c, i) \<in> up d" "c < length (de_nodes d)" by (auto simp: up_def)
  then show "i < c" using heap_parent(1) [OF assms(1)] by blast
qed

lemma up_star:
  assumes "heap_ok d" "(a, b) \<in> (up d)\<^sup>*" "a < length (de_nodes d)"
  shows "b \<le> a \<and> b < length (de_nodes d) \<and> length (n_path (nd d b)) \<le> length (n_path (nd d a))"
  using assms(2)
proof (induction rule: rtrancl_induct)
  case (step b c)
  then show ?case using heap_parent [OF assms(1) step(2)] by linarith
qed (use assms(3) in simp)

text \<open>Siblings have disjoint subtrees.\<close>

lemma up_functional: "(a, b) \<in> up d \<Longrightarrow> (a, c) \<in> up d \<Longrightarrow> b = c"
  by (simp add: up_def)

lemma up_linear:
  assumes "(j, a) \<in> (up d)\<^sup>*" "(j, b) \<in> (up d)\<^sup>*"
  shows "(a, b) \<in> (up d)\<^sup>* \<or> (b, a) \<in> (up d)\<^sup>*"
  using assms(1)
proof (induction rule: rtrancl_induct)
  case (step a c)
  then show ?case
    by (metis (no_types, lifting) converse_rtranclE r_into_rtrancl rtrancl.rtrancl_into_rtrancl up_functional)
qed (use assms(2) in simp)

lemma siblings_disjoint:
  assumes "heap_ok d" "(x, i) \<in> up d" "(y, i) \<in> up d" "x \<noteq> y" "(j, x) \<in> (up d)\<^sup>*"
  shows "(j, y) \<notin> (up d)\<^sup>*"
proof
  assume "(j, y) \<in> (up d)\<^sup>*"
  then consider "(x, y) \<in> (up d)\<^sup>*" | "(y, x) \<in> (up d)\<^sup>*" using up_linear assms(5) by blast
  then show False
  proof cases
    case 1
    then have "(i, y) \<in> (up d)\<^sup>*" using assms(2,4) by (metis converse_rtranclE up_functional)
    then show False using up_star [OF assms(1), of i y] heap_parent(1,2) [OF assms(1,3)] by simp
  next
    case 2
    then have "(i, x) \<in> (up d)\<^sup>*" using assms(3,4) by (metis converse_rtranclE up_functional)
    then show False using up_star [OF assms(1), of i x] heap_parent(1,2) [OF assms(1,2)] by simp
  qed
qed

lemma child_not_above: "heap_ok d \<Longrightarrow> (c, i) \<in> up d \<Longrightarrow> (i, c) \<notin> (up d)\<^sup>*"
  using up_star [of d i c] heap_parent(1,2) [of d c i] by force

text \<open>Everything above depends on what no step changes.\<close>

lemma stat_fields:
  assumes "stat d d'"
  shows "n_path (nd d' j) = n_path (nd d j)" "n_parent (nd d' j) = n_parent (nd d j)"
    "n_children (nd d' j) = n_children (nd d j)" "n_copyfrom_path (nd d' j) = n_copyfrom_path (nd d j)"
    "length (de_nodes d') = length (de_nodes d)" "de_opts d' = de_opts d" "de_session d' = de_session d"
  using assms node_static_fields [of "nd d' j" "nd d j"] by (simp_all add: stat_def)

lemma stat_up: "stat d d' \<Longrightarrow> up d' = up d"
  by (simp add: up_def stat_fields)

lemma stat_heap: "stat d d' \<Longrightarrow> heap_ok d' = heap_ok d"
  by (simp add: heap_ok_def stat_fields)

lemma good_stat: "stat d d' \<Longrightarrow> good d' n = good d n"
  by (simp add: good_def stat_fields)

section \<open>One node\<close>

lemma action_parent_total:
  assumes "heap_ok d"
  shows "fuel > 0 \<Longrightarrow> (\<And>p. parent = Some p \<Longrightarrow> p < length (de_nodes d) \<and> Suc p < fuel) \<Longrightarrow>
    \<exists>r. action_parent fuel d parent = Some r \<and>
      (\<forall>q. r = Inr q \<longrightarrow> n_cp_info (nd d q) = CPI_COPY \<and> n_copyfrom_path (nd d q) \<noteq> None \<and>
         (\<exists>p. parent = Some p \<and> (p, q) \<in> (up d)\<^sup>*))"
proof (induction fuel arbitrary: parent)
  case (Suc fuel)
  show ?case
  proof (cases parent)
    case (Some p)
    have p: "p < length (de_nodes d)" "Suc p < Suc fuel" using Suc.prems(2) Some by auto
    show ?thesis
    proof (cases "n_cp_info (nd d p) \<noteq> CPI_FAILED_OUTSIDE \<and> (n_cp_info (nd d p) \<noteq> CPI_COPY \<or> n_copyfrom_path (nd d p) = None)")
      case True
      have "q < length (de_nodes d) \<and> Suc q < fuel" if "n_parent (nd d p) = Some q" for q
        using heap_parent(1,2) [OF assms, of p q] that p by (auto simp: up_def)
      moreover have "fuel > 0" using p by simp
      ultimately obtain r where r: "action_parent fuel d (n_parent (nd d p)) = Some r"
        "\<forall>q. r = Inr q \<longrightarrow> n_cp_info (nd d q) = CPI_COPY \<and> n_copyfrom_path (nd d q) \<noteq> None \<and>
          (\<exists>p'. n_parent (nd d p) = Some p' \<and> (p', q) \<in> (up d)\<^sup>*)"
        using Suc.IH [of "n_parent (nd d p)"] by blast
      then have "\<forall>q. r = Inr q \<longrightarrow> n_cp_info (nd d q) = CPI_COPY \<and> n_copyfrom_path (nd d q) \<noteq> None \<and> (p, q) \<in> (up d)\<^sup>*"
        using p by (auto simp: up_def intro: converse_rtrancl_into_rtrancl)
      then show ?thesis using True Some r(1) by (intro exI [of _ r]) (auto simp: action_parent.simps)
    qed (auto simp: action_parent.simps Some)
  qed (simp add: action_parent.simps)
qed simp

lemma copied_parent_total:
  assumes "heap_ok d"
  shows "fuel > 0 \<Longrightarrow> (\<And>p. parent = Some p \<Longrightarrow> p < length (de_nodes d) \<and> Suc p < fuel) \<Longrightarrow>
    \<exists>r. copied_parent fuel d parent = Some r \<and>
      (\<forall>q. r = Some q \<longrightarrow> n_copyfrom_path (nd d q) \<noteq> None \<and> (\<exists>p. parent = Some p \<and> (p, q) \<in> (up d)\<^sup>*))"
proof (induction fuel arbitrary: parent)
  case (Suc fuel)
  show ?case
  proof (cases parent)
    case (Some p)
    have p: "p < length (de_nodes d)" "Suc p < Suc fuel" using Suc.prems(2) Some by auto
    show ?thesis
    proof (cases "n_copyfrom_path (nd d p) = None")
      case True
      have "q < length (de_nodes d) \<and> Suc q < fuel" if "n_parent (nd d p) = Some q" for q
        using heap_parent(1,2) [OF assms, of p q] that p by (auto simp: up_def)
      moreover have "fuel > 0" using p by simp
      ultimately obtain r where r: "copied_parent fuel d (n_parent (nd d p)) = Some r"
        "\<forall>q. r = Some q \<longrightarrow> n_copyfrom_path (nd d q) \<noteq> None \<and> (\<exists>p'. n_parent (nd d p) = Some p' \<and> (p', q) \<in> (up d)\<^sup>*)"
        using Suc.IH [of "n_parent (nd d p)"] by blast
      then have "\<forall>q. r = Some q \<longrightarrow> n_copyfrom_path (nd d q) \<noteq> None \<and> (p, q) \<in> (up d)\<^sup>*"
        using p by (auto simp: up_def intro: converse_rtrancl_into_rtrancl)
      then show ?thesis using True Some r(1) by (intro exI [of _ r]) (auto simp: copied_parent.simps)
    qed (auto simp: copied_parent.simps Some)
  qed (simp add: copied_parent.simps)
qed simp

lemma rel_path_Some: "length base \<le> length path \<Longrightarrow> \<exists>r. rel_path base path = Some r"
  by (simp add: rel_path_def)

text \<open>The nodes above a node keep their promise.\<close>

definition above_good :: "de \<Rightarrow> nat \<Rightarrow> bool" where
  "above_good d i \<longleftrightarrow> (\<forall>p. (i, p) \<in> (up d)\<^sup>+ \<longrightarrow> good d (nd d p))"

lemma de_bind_total: "(\<exists>e d1. r = Some (e, d1) \<and> (e = SVN_NO_ERROR \<longrightarrow> (\<exists>x. f d1 = Some x))) \<Longrightarrow> \<exists>x. de_bind r f = Some x"
  by (auto simp: de_bind_def)

lemma de_bind_neq: "r \<noteq> None \<Longrightarrow> (\<And>d. f d \<noteq> None) \<Longrightarrow> de_bind r f \<noteq> None"
  by (auto simp: de_bind_def)

lemma check_add_total: "\<exists>x. check_add i d r = Some x"
  by (simp add: check_add_def Let_def)

lemma check_action_rest_total:
  assumes "dirname_ok ev"
  shows "\<exists>x. check_action_rest ev i d = Some x"
proof -
  have "\<exists>e d1. check_replaced ev i d = Some (e, d1)"
  proof -
    obtain rel where "rel_path (svn_path_dirname ev (n_path (nd d i))) (n_path (nd d i)) = Some rel"
      using rel_path_Some assms by (metis dirname_ok_def)
    then show ?thesis using check_add_total [of i d] by (simp add: check_replaced_def Let_def)
  qed
  moreover have "\<exists>e d2. check_modified ev i d1 = Some (e, d2)" for d1
    using check_add_total [of i d1] by (simp add: check_modified_def)
  ultimately show ?thesis unfolding check_action_rest_def by (metis de_bind_total)
qed

lemma check_action_total:
  assumes "heap_ok d" "i < length (de_nodes d)" "above_good d i" "\<not> has_flag (de_opts d) DF_INITIAL_DRY_RUN" "dirname_ok ev"
  shows "\<exists>x. delta_check_action ev i d = Some x"
proof -
  obtain r where r: "action_parent (Suc (length (de_nodes d))) d (n_parent (nd d i)) = Some r"
    "\<forall>q. r = Inr q \<longrightarrow> n_cp_info (nd d q) = CPI_COPY \<and> n_copyfrom_path (nd d q) \<noteq> None \<and>
       (\<exists>p. n_parent (nd d i) = Some p \<and> (p, q) \<in> (up d)\<^sup>*)"
    using action_parent_total [OF assms(1), of "Suc (length (de_nodes d))" "n_parent (nd d i)"]
      heap_parent(1,2) [OF assms(1), of i] assms(2) by (auto simp: up_def)
  have "\<exists>x. check_copied ev i q d = Some x" if "r = Inr q" for q
  proof -
    obtain cf where cf: "n_cp_info (nd d q) = CPI_COPY" "n_copyfrom_path (nd d q) = Some cf" "(i, q) \<in> (up d)\<^sup>+"
    proof -
      obtain p where p: "n_cp_info (nd d q) = CPI_COPY" "n_copyfrom_path (nd d q) \<noteq> None" "n_parent (nd d i) = Some p"
        "(p, q) \<in> (up d)\<^sup>*" using r(2) \<open>r = Inr q\<close> by blast
      then have "(i, p) \<in> up d" using assms(2) by (simp add: up_def)
      then show thesis using p that by (auto intro: rtrancl_into_trancl2)
    qed
    then have "starts_with cf (prefix (de_session d))"
      using assms(3,4) by (auto simp: above_good_def good_def)
    moreover obtain rel where "rel_path (n_path (nd d q)) (n_path (nd d i)) = Some rel"
      using rel_path_Some up_star [OF assms(1) trancl_into_rtrancl [OF cf(3)] assms(2)] by blast
    ultimately show ?thesis
      using check_add_total [of i d] cf by (simp add: check_copied_def delta_get_local_copyfrom_path_def)
  qed
  then show ?thesis
    using r(1) check_action_rest_total [OF assms(5)]
    by (simp add: delta_check_action_def Let_def split: sum.split)
qed


lemma cpi_and_failed: "cpi_and c CPI_FAILED \<longleftrightarrow> c = CPI_FAILED \<or> c = CPI_FAILED_OUTSIDE"
  by (cases c) (simp_all add: cpi_and_def)

lemma check_copy_good:
  assumes "i < length (de_nodes d)"
  shows "good (delta_check_copy i d) (nd (delta_check_copy i d) i)"
proof -
  have s: "good (delta_check_copy i d) = good d"
    using good_stat [OF framed_stat [OF framed_check_copy]] by blast
  have "good d (nd (delta_check_copy i d) i)"
  proof (cases "n_copyfrom_path (nd d i)")
    case None
    then show ?thesis
      using assms stat_fields(4) [OF framed_stat [OF framed_check_copy], of i d i] by (simp add: good_def)
  next
    case (Some cf)
    have w: "whole_repos d \<Longrightarrow> starts_with cf (prefix (de_session d))" by (simp add: whole_repos_def)
    show ?thesis
      using assms Some w
      by (auto simp: delta_check_copy_def Let_def upd_node_same good_def cpi_and_failed)
  qed
  then show ?thesis by (simp only: s)
qed

lemma above_stable:
  assumes "heap_ok d" "i < length (de_nodes d)" "framed i d d'" "above_good d i"
  shows "above_good d' i"
  unfolding above_good_def
proof (intro allI impI)
  fix p
  assume "(i, p) \<in> (up d')\<^sup>+"
  then have p: "(i, p) \<in> (up d)\<^sup>+" by (simp add: stat_up [OF framed_stat [OF assms(3)]])
  then obtain q where q: "(i, q) \<in> up d" "(q, p) \<in> (up d)\<^sup>*" by (metis tranclD)
  then have "p < i" using heap_parent(1,2) [OF assms(1) q(1)] up_star [OF assms(1) q(2)] by simp
  then have "nd d' p = nd d p" using assms(3) by (simp add: framedp_def)
  then show "good d' (nd d' p)" using assms(4) p good_stat [OF framed_stat [OF assms(3)]] by (simp add: above_good_def)
qed

lemma dump_finish_needed: "i < length (de_nodes d) \<Longrightarrow> \<not> n_dump_needed (nd (dump_finish i d) i)"
  by (simp add: dump_finish_def delta_mark_node_def upd_node_def file_remove_def de_print_def Let_def split: option.split)

definition done_at :: "nat \<Rightarrow> de_res \<Rightarrow> bool" where
  "done_at i r \<longleftrightarrow> (\<exists>e d'. r = Some (e, d') \<and> (e = SVN_NO_ERROR \<longrightarrow> \<not> n_dump_needed (nd d' i)))"

lemma dump_body_done:
  assumes "i < length (de_nodes d)"
  shows "done_at i (dump_body ev i c p d)"
proof -
  have 1: "(if c \<and> has_flag (de_opts d) DF_USE_DELTAS then delta_deltify_node ev i d else Some (SVN_NO_ERROR, d)) \<noteq> None"
    by (auto simp: delta_deltify_node_def split: option.split prod.split)
  have 2: "dump_lengths ev i c p d \<noteq> None" for p d
    by (simp add: dump_lengths_def Let_def split: option.split)
  have 3: "(if c then dump_content_file i d else Some (SVN_NO_ERROR, d)) \<noteq> None" for d
    by (auto simp: dump_content_file_def delta_cat_file_def de_bind_def split: option.split)
  have "dump_body ev i c p d \<noteq> None"
    unfolding dump_body_def Let_def by (intro de_bind_neq 1 2 3) simp
  then obtain e d' where r: "dump_body ev i c p d = Some (e, d')" by auto
  have "\<not> n_dump_needed (nd d' i)" if ok: "e = SVN_NO_ERROR"
  proof -
    obtain d3 where d3: "d' = dump_finish i d3"
      using r unfolding ok dump_body_def Let_def by (auto elim!: de_bind_okE)
    have "length (de_nodes d') = length (de_nodes d)" using recorded_body [OF r] by (simp add: framedp_def)
    moreover have "length (de_nodes (dump_finish i d3)) = length (de_nodes d3)"
      using recorded_finish [of i d3] by (simp add: framedp_def)
    ultimately show ?thesis using d3 assms dump_finish_needed by simp
  qed
  then show ?thesis using r by (auto simp: done_at_def)
qed

lemma dump_record_done:
  assumes "i < length (de_nodes d)" "good d (nd d i)" "\<not> has_flag (de_opts d) DF_INITIAL_DRY_RUN"
  shows "done_at i (dump_record ev i d)"
proof -
  let ?d1 = "dump_headers i d"
  have d1: "?d1 = de_print (drop (length (de_out d)) (de_out ?d1)) d"
    by (simp add: dump_headers_def de_print_def Let_def)
  have fin: "done_at i (Some (SVN_NO_ERROR, dump_finish i d2))" if "length (de_nodes d2) = length (de_nodes d)" for d2
    using that assms(1) dump_finish_needed by (simp add: done_at_def)
  have l1: "length (de_nodes ?d1) = length (de_nodes d)" using framed_headers [of node_static i d] by (simp add: framedp_def)
  have g: "good ?d1 (nd ?d1 i)" using assms(2) d1 by (metis good_stat framed_print framed_stat nd_print(1))
  have "\<exists>x. dump_copy i c ?d1 = Some x" for c
    using g assms(3) d1 nd_print(2) [of "drop (length (de_out d)) (de_out ?d1)" d]
    by (auto simp: dump_copy_def good_def delta_get_local_copyfrom_path_def Let_def split: option.split)
  then obtain f c d2 where c: "dump_copy i (n_kind (nd d i) = node_file \<and> n_applied_delta (nd d i)) ?d1 = Some (f, c, d2)"
    by (metis surj_pair)
  have l2: "length (de_nodes d2) = length (de_nodes d)" using framed_copy [OF c, of node_static] l1 by (simp add: framedp_def)
  then show ?thesis
    using c fin l1 dump_body_done [of i d2] assms(1)
    by (simp add: dump_record_def Let_def split: bool.split)
qed


lemma good_recorded:
  assumes "recorded i d d'" "good d (nd d i)"
  shows "good d' (nd d' i)"
proof -
  have r: "node_rest (nd d' i) = node_rest (nd d i)" using assms(1) by (simp add: framedp_def)
  have s: "good d' = good d" using good_stat [OF framed_stat [OF recorded_framed [OF assms(1)]]] by blast
  show ?thesis
    unfolding s
    using assms(2) node_rest_fields(3) [OF r] node_static_fields(3) [OF node_rest_fields(1) [OF r]] by (simp add: good_def)
qed

lemma good_acted:
  assumes "acted i A d d'" "good d (nd d i)" "i < length (de_nodes d)"
  shows "good d' (nd d' i)"
proof -
  have "good d' = good d" using good_stat [OF framed_stat [OF framed_acted [OF assms(1)]]] by blast
  moreover have "n_cp_info (nd d' i) = n_cp_info (nd d i)" "n_copyfrom_path (nd d' i) = n_copyfrom_path (nd d i)"
    using assms(1,3) by (auto simp: acted_def set_action_def upd_node_def)
  ultimately show ?thesis using assms(2) by (simp add: good_def)
qed

text \<open>The result of a step on node \<open>i\<close>: it returns, and on success the node is dumped.\<close>

definition settled :: "nat \<Rightarrow> de_res \<Rightarrow> bool" where
  "settled i r \<longleftrightarrow> (\<exists>e d'. r = Some (e, d') \<and> (e = SVN_NO_ERROR \<longrightarrow> \<not> n_dump_needed (nd d' i) \<and> good d' (nd d' i)))"

lemma dump_record_settled:
  assumes "i < length (de_nodes d)" "good d (nd d i)" "\<not> has_flag (de_opts d) DF_INITIAL_DRY_RUN"
  shows "settled i (dump_record ev i d)"
proof -
  obtain e d' where r: "dump_record ev i d = Some (e, d')" "e = SVN_NO_ERROR \<longrightarrow> \<not> n_dump_needed (nd d' i)"
    using dump_record_done [OF assms, of ev] by (auto simp: done_at_def)
  then show ?thesis using good_recorded [OF recorded_record [OF r(1)] assms(2)] by (simp add: settled_def)
qed

lemma good_no_copy: "n_copyfrom_path n = None \<Longrightarrow> good d n"
  by (simp add: good_def)

lemma dump_node_settled:
  assumes "heap_ok d" "i < length (de_nodes d)" "above_good d i" "fresh_node (nd d i)" "dirname_ok ev"
  shows "settled i (delta_dump_node ev i d)"
proof (cases "\<not> n_dump_needed (nd d i) \<or> dump_skipped i d")
  case True
  have g: "good d n" if "n_copyfrom_path n = n_copyfrom_path (nd d i)" for n
  proof (cases "has_flag (de_opts d) DF_INITIAL_DRY_RUN")
    case False
    then have "n_copyfrom_path (nd d i) = None"
      using True assms(4) by (auto simp: fresh_node_def dump_skipped_def Let_def)
    then show ?thesis using that good_no_copy by simp
  qed (simp add: good_def)
  have "good (upd_node i f d) = good d" for f by (simp add: fun_eq_iff good_def upd_node_def)
  then show ?thesis
    using True assms(2) g [OF refl] g [of "(nd d i)\<lparr>n_dump_needed := False\<rparr>"]
    by (auto simp: settled_def delta_dump_node.simps [of ev i d] upd_node_same)
next
  case False
  let ?d0 = "delta_check_copy i d"
  have dry: "\<not> has_flag (de_opts d) DF_INITIAL_DRY_RUN" using False by (simp add: dump_skipped_def Let_def)
  have f0: "framed i d ?d0" by (rule framed_check_copy)
  note s0 = framed_stat [OF f0]
  have l0: "i < length (de_nodes ?d0)" and o0: "de_opts ?d0 = de_opts d" using assms(2) stat_fields [OF s0] by auto
  have h0: "heap_ok ?d0" using assms(1) stat_heap [OF s0] by simp
  obtain e1 d1 where d1: "delta_check_action ev i ?d0 = Some (e1, d1)"
    using check_action_total [OF h0 l0 above_stable [OF assms(1,2) f0 assms(3)] _ assms(5)] dry o0 by auto
  note act = delta_check_action_acted [OF d1 l0]
  have g1: "good d1 (nd d1 i)" by (rule good_acted [OF act check_copy_good [OF assms(2)] l0])
  have n1: "i < length (de_nodes d1)" "de_opts d1 = de_opts d" "n_dump_needed (nd d1 i)"
    using acted_length [OF act] l0 framed_acted [OF act] o0 acted_needed [OF act l0] check_copy_needed [of i d] False
    by (auto simp: framedp_def)
  have r1: "settled i (dump_record ev i d1)" by (rule dump_record_settled) (use n1 g1 dry in auto)
  let ?d2 = "delta_check_copy i (delta_dump_replace i d1)"
  have n2: "i < length (de_nodes (delta_dump_replace i d1))" "de_opts (delta_dump_replace i d1) = de_opts d"
    using n1 framed_replace [of i d1] by (auto simp: framedp_def)
  have "settled i (dump_record ev i ?d2)"
  proof (rule dump_record_settled)
    show "i < length (de_nodes ?d2)" "\<not> has_flag (de_opts ?d2) DF_INITIAL_DRY_RUN"
      using n2 dry framed_check_copy [of i "delta_dump_replace i d1"] by (auto simp: framedp_def)
    show "good ?d2 (nd ?d2 i)" by (rule check_copy_good [OF n2(1)])
  qed
  then have r2: "settled i (delta_dump_node ev i (delta_dump_replace i d1))"
    using dump_node_after_replace [of i d1 ev] n1 dry by simp
  have "delta_dump_node ev i d = de_bind (Some (e1, d1)) (\<lambda>d1. if n_action (nd d1 i) = CHR ''R''
      then delta_dump_node ev i (delta_dump_replace i d1) else dump_record ev i d1)"
    using False assms(2) d1 by (simp add: delta_dump_node.simps [of ev i d])
  then show ?thesis using r1 r2 by (cases e1) (auto simp: de_bind_def settled_def)
qed

lemma propagate_total:
  assumes "heap_ok d" "(child, parent) \<in> up d"
  shows "\<exists>x. delta_propagate_copy ev parent child d = Some x"
proof -
  have p: "parent < length (de_nodes d)" using heap_parent(2) [OF assms] .
  obtain r where r: "copied_parent (Suc (length (de_nodes d))) d (Some parent) = Some r"
    "\<And>q. r = Some q \<Longrightarrow> (parent, q) \<in> (up d)\<^sup>*"
    using copied_parent_total [OF assms(1), of "Suc (length (de_nodes d))" "Some parent"] p by auto
  have "\<exists>x. propagate_to ev q child d = Some x" if "r = Some q" for q
  proof -
    have "(child, q) \<in> (up d)\<^sup>*" using r(2) [OF that] assms(2) by (rule converse_rtrancl_into_rtrancl [rotated])
    then obtain rel where "rel_path (n_path (nd d q)) (n_path (nd d child)) = Some rel"
    proof -
      have "child < length (de_nodes d)" using assms(2) by (simp add: up_def)
      then show thesis using that rel_path_Some up_star [OF assms(1) \<open>(child, q) \<in> (up d)\<^sup>*\<close>] by blast
    qed
    then show ?thesis by (auto simp: propagate_to_def Let_def split: option.split prod.split)
  qed
  then show ?thesis using r(1) by (cases r) (auto simp: delta_propagate_copy_def Let_def)
qed


section \<open>The walk over the tree\<close>

text \<open>The subtree of a node; a walk over it touches no other node.\<close>

definition sub :: "de \<Rightarrow> nat \<Rightarrow> nat set" where
  "sub d i = {j. (j, i) \<in> (up d)\<^sup>*}"

definition outside_same :: "nat set \<Rightarrow> de \<Rightarrow> de \<Rightarrow> bool" where
  "outside_same S d d' \<longleftrightarrow> stat d d' \<and> (\<forall>j. j \<notin> S \<longrightarrow> nd d' j = nd d j)"

lemma outside_refl [simp]: "outside_same S d d"
  by (simp add: outside_same_def)

lemma outside_trans: "outside_same S d d1 \<Longrightarrow> outside_same T d1 d2 \<Longrightarrow> outside_same (S \<union> T) d d2"
  by (auto simp: outside_same_def intro: stat_trans)

lemma outside_mono: "outside_same S d d' \<Longrightarrow> S \<subseteq> T \<Longrightarrow> outside_same T d d'"
  by (auto simp: outside_same_def)

lemma framed_outside: "framed i d d' \<Longrightarrow> outside_same {i} d d'"
  using framed_stat by (auto simp: outside_same_def framedp_def)

lemma sub_self [simp]: "i \<in> sub d i"
  by (simp add: sub_def)

lemma sub_child: "(c, i) \<in> up d \<Longrightarrow> sub d c \<subseteq> sub d i"
  by (auto simp: sub_def intro: rtrancl_into_rtrancl)

lemma sub_stat: "stat d d' \<Longrightarrow> sub d' i = sub d i"
  by (simp add: sub_def stat_up)

text \<open>What the walk over the subtree of \<open>i\<close> needs, and what it gives.\<close>

definition ready :: "de \<Rightarrow> nat \<Rightarrow> bool" where
  "ready d i \<longleftrightarrow> heap_ok d \<and> i < length (de_nodes d) \<and> above_good d i \<and> (\<forall>j \<in> sub d i. fresh_node (nd d j))"

definition walked :: "de \<Rightarrow> nat \<Rightarrow> de_res \<Rightarrow> bool" where
  "walked d i r \<longleftrightarrow>
     (\<exists>e d'. r = Some (e, d') \<and> outside_same (sub d i) d d' \<and>
        (e = SVN_NO_ERROR \<longrightarrow> (\<forall>j \<in> sub d i. j < length (de_nodes d) \<longrightarrow> \<not> n_dump_needed (nd d' j))))"

lemma sub_disjoint:
  assumes "heap_ok d" "(x, i) \<in> up d" "(y, i) \<in> up d" "x \<noteq> y"
  shows "sub d x \<inter> sub d y = {}"
  using siblings_disjoint [OF assms] by (auto simp: sub_def)

lemma sub_below:
  assumes "heap_ok d" "(c, i) \<in> up d" "(i, p) \<in> (up d)\<^sup>*"
  shows "p \<notin> sub d c"
proof
  assume "p \<in> sub d c"
  then have "(i, c) \<in> (up d)\<^sup>*" using assms(3) by (auto simp: sub_def)
  then show False using child_not_above [OF assms(1,2)] by blast
qed

text \<open>A child is ready when nothing but its siblings' subtrees has changed since its parent was.\<close>

lemma child_ready:
  assumes "ready d i" "(c, i) \<in> up d" "outside_same S d a" "S \<inter> sub d c = {}" "good a (nd a i)"
    "\<And>p. (i, p) \<in> (up d)\<^sup>+ \<Longrightarrow> p \<notin> S"
  shows "ready a c"
proof -
  have st: "stat d a" using assms(3) by (simp add: outside_same_def)
  have h: "heap_ok d" using assms(1) by (simp add: ready_def)
  have "good a (nd a p)" if "(c, p) \<in> (up a)\<^sup>+" for p
  proof -
    have cp: "(c, p) \<in> (up d)\<^sup>+" using that stat_up [OF st] by simp
    then have "p = i \<or> (i, p) \<in> (up d)\<^sup>+"
      using assms(2) up_functional by (metis rtranclD tranclD)
    then show ?thesis
    proof
      assume ip: "(i, p) \<in> (up d)\<^sup>+"
      then have "nd a p = nd d p" using assms(3,6) by (simp add: outside_same_def)
      then show ?thesis using assms(1) ip good_stat [OF st] by (simp add: ready_def above_good_def)
    qed (use assms(5) in simp)
  qed
  moreover have "fresh_node (nd a j)" if "j \<in> sub a c" for j
  proof -
    have j: "j \<in> sub d c" using that sub_stat [OF st] by simp
    then have "nd a j = nd d j" using assms(3,4) by (auto simp: outside_same_def)
    then show ?thesis using assms(1) sub_child [OF assms(2)] j by (auto simp: ready_def)
  qed
  moreover have "c < length (de_nodes a)" using assms(2) stat_fields(5) [OF st] by (simp add: up_def)
  ultimately show ?thesis using h stat_heap [OF st] by (simp add: ready_def above_good_def)
qed


lemma ready_propagate:
  assumes "ready a x" "delta_propagate_copy ev p x a = Some (e, b)"
  shows "ready b x \<and> outside_same (sub a x) a b"
proof -
  have f: "framed x a b" by (rule propagate_framed [OF assms(2)])
  note st = framed_stat [OF f]
  obtain c r where b: "b = upd_node x (\<lambda>n. n\<lparr>n_cp_info := c\<rparr>) (a\<lparr>de_repo := r\<rparr>)" using propagate_shape [OF assms(2)] by blast
  have x: "heap_ok a" "x < length (de_nodes a)" "above_good a x" using assms(1) by (auto simp: ready_def)
  have "fresh_node (nd b j)" if "j \<in> sub b x" for j
  proof (cases "j = x")
    case True
    then show ?thesis using assms(1) b x(2) by (simp add: ready_def fresh_node_def upd_node_def)
  next
    case False
    then show ?thesis using f that assms(1) sub_stat [OF st] by (auto simp: framedp_def ready_def)
  qed
  then have "ready b x"
    using above_stable [OF x(1,2) f x(3)] stat_heap [OF st] stat_fields(5) [OF st] x by (simp add: ready_def)
  then show ?thesis using outside_mono [OF framed_outside [OF f]] by simp
qed

lemma children_walk:
  assumes rd: "ready d i"
    and rec: "\<And>c a. ready a c \<Longrightarrow> (c, i) \<in> up d \<Longrightarrow> stat d a \<Longrightarrow> walked a c (walk c a)"
  shows "distinct xs \<Longrightarrow> set xs \<subseteq> {c. (c, i) \<in> up d} \<Longrightarrow> outside_same S d a \<Longrightarrow> (\<And>x. x \<in> set xs \<Longrightarrow> S \<inter> sub d x = {}) \<Longrightarrow>
    (\<And>p. (i, p) \<in> (up d)\<^sup>+ \<Longrightarrow> p \<notin> S) \<Longrightarrow> good a (nd a i) \<Longrightarrow>
    \<exists>e d'. de_fold (\<lambda>child d. de_bind (delta_propagate_copy ev i child d) (walk child)) xs a = Some (e, d') \<and>
      outside_same (\<Union>x \<in> set xs. sub d x) a d' \<and>
      (e = SVN_NO_ERROR \<longrightarrow> (\<forall>x \<in> set xs. \<forall>j \<in> sub d x. j < length (de_nodes d) \<longrightarrow> \<not> n_dump_needed (nd d' j)))"
proof (induction xs arbitrary: S a)
  case (Cons x xs)
  have h: "heap_ok d" using rd by (simp add: ready_def)
  have x: "(x, i) \<in> up d" using Cons.prems(2) by auto
  have st: "stat d a" using Cons.prems(3) by (simp add: outside_same_def)
  have "ready a x" by (rule child_ready [OF rd x Cons.prems(3) _ Cons.prems(6) Cons.prems(5)]) (use Cons.prems(4) in auto)
  moreover obtain e1 a1 where a1: "delta_propagate_copy ev i x a = Some (e1, a1)"
    using propagate_total [of a x i ev] h x stat_heap [OF st] stat_up [OF st] by auto
  ultimately have r1: "ready a1 x" "outside_same (sub d x) a a1" using ready_propagate sub_stat [OF st] by metis+
  then have st1: "stat d a1" using st stat_trans by (auto simp: outside_same_def)
  obtain e2 a2 where a2: "walk x a1 = Some (e2, a2)" "outside_same (sub d x) a1 a2"
    "e2 = SVN_NO_ERROR \<longrightarrow> (\<forall>j \<in> sub d x. j < length (de_nodes d) \<longrightarrow> \<not> n_dump_needed (nd a2 j))"
    using rec [OF r1(1) x st1] sub_stat [OF st1] stat_fields(5) [OF st1] by (auto simp: walked_def)
  have o2: "outside_same (sub d x) a a2" using outside_trans [OF r1(2) a2(2)] by simp
  show ?case
  proof (cases "e1 = SVN_NO_ERROR \<and> e2 = SVN_NO_ERROR")
    case False
    then show ?thesis
      using a1 a2(1) outside_mono [OF r1(2), of "\<Union>x \<in> set (x # xs). sub d x"] outside_mono [OF o2, of "\<Union>x \<in> set (x # xs). sub d x"]
      by (cases e1; cases e2) (auto simp: de_bind_def)
  next
    case True
    have i: "i \<notin> sub d x" using sub_below [OF h x, of i] by simp
    have ga: "good a2 (nd a2 i)"
      using Cons.prems(6) o2 i good_stat by (auto simp: outside_same_def)
    obtain e d' where d': "de_fold (\<lambda>child d. de_bind (delta_propagate_copy ev i child d) (walk child)) xs a2 = Some (e, d')"
      "outside_same (\<Union>x \<in> set xs. sub d x) a2 d'"
      "e = SVN_NO_ERROR \<longrightarrow> (\<forall>x \<in> set xs. \<forall>j \<in> sub d x. j < length (de_nodes d) \<longrightarrow> \<not> n_dump_needed (nd d' j))"
    proof (rule exE [OF Cons.IH [of "S \<union> sub d x" a2]], goal_cases)
      case (4 y)
      then have "sub d x \<inter> sub d y = {}" by (intro sub_disjoint [OF h x]) (use Cons.prems(1,2) in auto)
      then show ?case using Cons.prems(4) [of y] 4 by auto
    next
      case (5 p)
      then show ?case using Cons.prems(5) sub_below [OF h x, of p] by (auto dest: trancl_into_rtrancl)
    qed (use Cons.prems outside_trans [OF Cons.prems(3) o2] ga in auto)
    have dis: "sub d x \<inter> (\<Union>y \<in> set xs. sub d y) = {}"
      using sub_disjoint [OF h x] Cons.prems(1,2) by fastforce
    have "\<not> n_dump_needed (nd d' j)" if "j \<in> sub d x" "j < length (de_nodes d)" for j
    proof -
      have "j \<notin> (\<Union>y \<in> set xs. sub d y)" using that(1) dis by blast
      then have "nd d' j = nd a2 j" using d'(2) unfolding outside_same_def by blast
      then show ?thesis using that a2(3) True by simp
    qed
    then show ?thesis
      using a1 a2(1) d' True outside_trans [OF o2 d'(2)] by (auto simp: de_bind_def)
  qed
qed simp


lemma sub_cases:
  assumes "heap_ok d" "j \<in> sub d i" "j < length (de_nodes d)"
  obtains "j = i" | c where "c \<in> set (n_children (nd d i))" "j \<in> sub d c"
proof -
  have "(j, i) \<in> (up d)\<^sup>*" using assms(2) by (simp add: sub_def)
  then show thesis
  proof (cases rule: rtranclE)
    case (step c)
    then show thesis using that(2) [of c] heap_parent(4) [OF assms(1) step(2)] by (simp add: sub_def)
  qed (use that(1) in simp)
qed

lemma above_less:
  assumes "heap_ok d" "(i, p) \<in> (up d)\<^sup>+"
  shows "p < i"
proof -
  obtain q where "(i, q) \<in> up d" "(q, p) \<in> (up d)\<^sup>*" using tranclD [OF assms(2)] by blast
  then show ?thesis using heap_parent(1,2) [OF assms(1), of i q] up_star [OF assms(1), of q p] by simp
qed

lemma above_outside:
  assumes "heap_ok d" "outside_same (sub d i) d d'" "above_good d i"
  shows "above_good d' i"
  unfolding above_good_def
proof (intro allI impI)
  fix p
  have st: "stat d d'" using assms(2) by (simp add: outside_same_def)
  assume "(i, p) \<in> (up d')\<^sup>+"
  then have p: "(i, p) \<in> (up d)\<^sup>+" using stat_up [OF st] by simp
  have "(p, i) \<notin> (up d)\<^sup>*"
  proof
    assume "(p, i) \<in> (up d)\<^sup>*"
    then have "(i, i) \<in> (up d)\<^sup>+" using p by (rule trancl_rtrancl_trancl [rotated])
    then show False using above_less [OF assms(1)] by blast
  qed
  then have "nd d' p = nd d p" using assms(2) by (simp add: outside_same_def sub_def)
  then show "good d' (nd d' p)" using assms(3) p good_stat [OF st] by (simp add: above_good_def)
qed

lemma dump_recursive_walk:
  assumes "dirname_ok ev"
  shows "ready d i \<Longrightarrow> length (de_nodes d) < fuel + i \<Longrightarrow> walked d i (delta_dump_node_recursive fuel ev i d)"
proof (induction fuel arbitrary: d i)
  case 0
  then show ?case by (simp add: ready_def)
next
  case (Suc fuel)
  let ?walk = "delta_dump_node_recursive fuel ev"
  let ?step1 = "if n_action (nd d i) \<noteq> CHR ''D'' then delta_dump_node ev i d else Some (SVN_NO_ERROR, d)"
  have r: "heap_ok d" "i < length (de_nodes d)" "above_good d i" "fresh_node (nd d i)"
    using Suc.prems(1) by (auto simp: ready_def)
  note set = dump_node_settled [OF r assms]
  obtain e1 d1 where d1: "?step1 = Some (e1, d1)" "framed i d d1"
    "e1 = SVN_NO_ERROR \<longrightarrow> good d1 (nd d1 i) \<and> (n_action (nd d i) \<noteq> CHR ''D'' \<longrightarrow> \<not> n_dump_needed (nd d1 i))"
  proof (cases "n_action (nd d i) = CHR ''D''")
    case True
    then have "good d (nd d i)" using r(4) by (intro good_no_copy) (auto simp: fresh_node_def)
    then show thesis using that [of SVN_NO_ERROR d] True by simp
  next
    case False
    then show thesis using set that framed_dump_node by (auto simp: settled_def)
  qed
  show ?case
  proof (cases "e1 = SVN_NO_ERROR")
    case False
    then show ?thesis
      using d1 outside_mono [OF framed_outside [OF d1(2)], of "sub d i"] by (auto simp: walked_def de_bind_def)
  next
    case True
    note st1 = framed_stat [OF d1(2)]
    have ch: "n_children (nd d1 i) = n_children (nd d i)" using stat_fields(3) [OF st1] .
    have up: "(c, i) \<in> up d" if "c \<in> set (n_children (nd d i))" for c using heap_child(1) [OF r(1,2) that] .
    have "\<exists>e d2. de_fold (\<lambda>child d. de_bind (delta_propagate_copy ev i child d) (?walk child)) (n_children (nd d i)) d1 = Some (e, d2) \<and>
      outside_same (\<Union>x \<in> set (n_children (nd d i)). sub d x) d1 d2 \<and>
      (e = SVN_NO_ERROR \<longrightarrow> (\<forall>x \<in> set (n_children (nd d i)). \<forall>j \<in> sub d x. j < length (de_nodes d) \<longrightarrow> \<not> n_dump_needed (nd d2 j)))"
    proof (rule children_walk [OF Suc.prems(1), where S = "{i}"])
      fix c a
      assume "ready a c" "(c, i) \<in> up d" "stat d a"
      then show "walked a c (?walk c a)"
        using Suc.IH [of a c] Suc.prems(2) heap_parent(1) [OF r(1)] stat_fields(5) [of d a] by fastforce
    next
      show "distinct (n_children (nd d i))" using r(1,2) by (simp add: heap_ok_def)
      show "{i} \<inter> sub d x = {}" if "x \<in> set (n_children (nd d i))" for x using sub_below [OF r(1) up [OF that], of i] by simp
      show "p \<notin> {i}" if "(i, p) \<in> (up d)\<^sup>+" for p using above_less [OF r(1) that] by simp
    qed (use up framed_outside [OF d1(2)] d1(3) True in auto)
    then obtain e2 d2 where d2:
      "de_fold (\<lambda>child d. de_bind (delta_propagate_copy ev i child d) (?walk child)) (n_children (nd d i)) d1 = Some (e2, d2)"
      "outside_same (\<Union>x \<in> set (n_children (nd d i)). sub d x) d1 d2"
      "e2 = SVN_NO_ERROR \<longrightarrow> (\<forall>x \<in> set (n_children (nd d i)). \<forall>j \<in> sub d x. j < length (de_nodes d) \<longrightarrow> \<not> n_dump_needed (nd d2 j))"
      by blast
    have chs: "(\<Union>x \<in> set (n_children (nd d i)). sub d x) \<subseteq> sub d i" using sub_child up by blast
    have o2: "outside_same (sub d i) d d2"
      using outside_mono [OF outside_trans [OF framed_outside [OF d1(2)] d2(2)]] chs by simp
    have i2: "nd d2 i = nd d1 i"
    proof -
      have "i \<notin> (\<Union>x \<in> set (n_children (nd d i)). sub d x)" using sub_below [OF r(1) up, of _ i] by blast
      then show ?thesis using d2(2) unfolding outside_same_def by blast
    qed
    have sub: "\<forall>j \<in> sub d i. j < length (de_nodes d) \<longrightarrow> \<not> n_dump_needed (nd d' j)"
      if "\<forall>j. j \<noteq> i \<longrightarrow> nd d' j = nd d2 j" "\<not> n_dump_needed (nd d' i)" "e2 = SVN_NO_ERROR" for d'
      using that d2(3) sub_cases [OF r(1)] by metis
    have last: "\<exists>e d'. (if n_action (nd d2 i) = CHR ''D'' then delta_dump_node ev i d2 else Some (SVN_NO_ERROR, d2)) = Some (e, d') \<and>
        framed i d2 d' \<and> (e = SVN_NO_ERROR \<longrightarrow> \<not> n_dump_needed (nd d' i))"
    proof (cases "n_action (nd d i) = CHR ''D''")
      case False
      then have "n_action (nd d1 i) \<noteq> CHR ''D''"
        using d1(1) dump_node_action_pred [of ev i d e1 d1 "\<lambda>a. a \<noteq> CHR ''D''"] r(2) by simp
      then show ?thesis using d1(3) True False i2 by simp
    next
      case D: True
      then have "d1 = d" using d1(1) by simp
      have "settled i (delta_dump_node ev i d2)"
      proof (rule dump_node_settled [OF _ _ _ _ assms])
        have st2: "stat d d2" using o2 by (simp add: outside_same_def)
        show "heap_ok d2" "i < length (de_nodes d2)" using r stat_heap [OF st2] stat_fields(5) [OF st2] by auto
        show "above_good d2 i" by (rule above_outside [OF r(1) o2 r(3)])
        show "fresh_node (nd d2 i)" using i2 \<open>d1 = d\<close> r(4) by simp
      qed
      then show ?thesis using D i2 \<open>d1 = d\<close> framed_dump_node by (auto simp: settled_def)
    qed
    then obtain e d' where d': "(if n_action (nd d2 i) = CHR ''D'' then delta_dump_node ev i d2 else Some (SVN_NO_ERROR, d2)) = Some (e, d')"
      "framed i d2 d'" "e = SVN_NO_ERROR \<longrightarrow> \<not> n_dump_needed (nd d' i)" by blast
    have "outside_same (sub d i) d d'" using outside_mono [OF outside_trans [OF o2 framed_outside [OF d'(2)]]] by simp
    moreover have "\<forall>j \<in> sub d i. j < length (de_nodes d) \<longrightarrow> \<not> n_dump_needed (nd d' j)" if "e = SVN_NO_ERROR" "e2 = SVN_NO_ERROR"
    proof -
      have "\<forall>j. j \<noteq> i \<longrightarrow> nd d' j = nd d2 j" using d'(2) unfolding framedp_def by blast
      then show ?thesis using sub d'(3) that by blast
    qed
    moreover have "delta_dump_node_recursive (Suc fuel) ev i d = (if e2 = SVN_NO_ERROR then Some (e, d') else Some (e2, d2))"
      unfolding delta_dump_node_recursive.simps d1(1) True using d2(1) d'(1) by (simp add: de_bind_def ch)
    ultimately show ?thesis using o2 by (cases "e2 = SVN_NO_ERROR") (simp_all add: walked_def)
  qed
qed


section \<open>Closing an edit\<close>

text \<open>The state an edit is in: a tree below the root node 0 with undumped copies.\<close>

definition edit_inv :: "de \<Rightarrow> bool" where
  "edit_inv d \<longleftrightarrow>
     heap_ok d \<and> (\<forall>i < length (de_nodes d). fresh_node (nd d i)) \<and> de_root d = Some 0 \<and> 0 < length (de_nodes d) \<and>
     (\<forall>i < length (de_nodes d). n_parent (nd d i) = None \<longleftrightarrow> i = 0)"

lemma edit_inv_sub:
  assumes "edit_inv d" "i < length (de_nodes d)"
  shows "i \<in> sub d 0"
  using assms(2)
proof (induction i rule: less_induct)
  case (less i)
  show ?case
  proof (cases "i = 0")
    case False
    then obtain p where p: "n_parent (nd d i) = Some p" using assms(1) less.prems by (auto simp: edit_inv_def)
    then have ip: "(i, p) \<in> up d" using less.prems by (simp add: up_def)
    then have "p \<in> sub d 0"
      using less heap_parent(1,2) [of d i p] assms(1) by (simp add: edit_inv_def)
    then show ?thesis using ip by (auto simp: sub_def intro: converse_rtrancl_into_rtrancl)
  qed simp
qed

lemma edit_inv_ready:
  assumes "edit_inv d"
  shows "ready d 0"
proof -
  have h: "heap_ok d" and l: "0 < length (de_nodes d)" using assms by (auto simp: edit_inv_def)
  have "fresh_node (nd d j)" if "j \<in> sub d 0" for j
  proof -
    have "(j, 0) \<in> (up d)\<^sup>*" using that by (simp add: sub_def)
    then have "j < length (de_nodes d)" using l by (cases rule: converse_rtranclE) (auto simp: up_def)
    then show ?thesis using assms by (simp add: edit_inv_def)
  qed
  then show ?thesis using h l above_less [OF h] by (auto simp: ready_def above_good_def)
qed

lemma parent_dumped_total:
  assumes "dirname_ok ev"
  shows "p = [] \<or> hd p \<noteq> slash \<Longrightarrow> length p < fuel \<Longrightarrow> \<exists>b. parent_dumped fuel ev p d = Some b"
proof (induction fuel arbitrary: p)
  case (Suc fuel)
  show ?case
  proof (cases "p = []")
    case False
    then have "length (svn_path_dirname ev p) < length p" "svn_path_dirname ev p = [] \<or> hd (svn_path_dirname ev p) \<noteq> slash"
      using assms Suc.prems(1) unfolding dirname_ok_def by blast+
    then show ?thesis using Suc.IH [of "svn_path_dirname ev p"] Suc.prems(2) by (auto split: option.split)
  qed auto
qed simp

text \<open>Printing a deletion always returns.\<close>

lemma dump_node_delete:
  assumes "i < length (de_nodes d)" "n_action (nd d i) = CHR ''D''"
  shows "\<exists>e d'. delta_dump_node ev i d = Some (e, d') \<and> framed i d d'"
proof -
  let ?d = "delta_check_copy i d"
  have a: "n_action (nd ?d i) = CHR ''D''" using assms(2) by (simp add: check_copy_action)
  have "delta_dump_node ev i d \<noteq> None"
    using assms(1) a check_action_add [of ?d i ev]
    by (simp add: delta_dump_node.simps [of ev i d] de_bind_def dump_record_def Let_def)
  then show ?thesis using framed_dump_node by force
qed

text \<open>The steps after the walk leave the nodes of the edit alone.\<close>

definition keeps :: "de \<Rightarrow> de_res \<Rightarrow> bool" where
  "keeps d r \<longleftrightarrow>
     (\<exists>e d'. r = Some (e, d') \<and> length (de_nodes d) \<le> length (de_nodes d') \<and> (\<forall>j < length (de_nodes d). nd d' j = nd d j))"

lemma post_dump_keeps: "keeps d (post_dump ev path CHR ''D'' d)"
proof -
  let ?i = "length (de_nodes d)" and ?n = "node_make path CPI_NONE None node_none CHR ''D'' True"
  let ?d1 = "d\<lparr>de_nodes := de_nodes d @ [?n]\<rparr>"
  obtain e d' where d': "delta_dump_node ev ?i ?d1 = Some (e, d')" "framed ?i ?d1 d'"
    using dump_node_delete [of ?i ?d1 ev] by (auto simp: node_make_def)
  then have "length (de_nodes d') = Suc ?i" "\<forall>j < ?i. nd d' j = nd d j" by (auto simp: framedp_def nth_append)
  then show ?thesis using d'(1) by (simp add: keeps_def post_dump_def delta_create_node_no_parent_def)
qed

lemma close_deleted_keeps:
  assumes "dirname_ok ev" "path = [] \<or> hd path \<noteq> slash"
  shows "keeps d (close_deleted ev path CHR ''D'' d)"
proof -
  let ?d = "case rhash_get (delta_hash d) path of
      None \<Rightarrow> d | Some f \<Rightarrow> (file_remove f d)\<lparr>delta_hash := rhash_set (delta_hash d) path None\<rparr>"
  define e where "e = ?d"
  have n: "de_nodes e = de_nodes d" by (simp add: e_def file_remove_def split: option.split)
  have k: "keeps d r" if "keeps f r" "de_nodes f = de_nodes d" for f r using that by (simp add: keeps_def)
  have "svn_path_dirname ev path = [] \<or> hd (svn_path_dirname ev path) \<noteq> slash"
    "length (svn_path_dirname ev path) < Suc (length path)"
    using assms unfolding dirname_ok_def by (metis le_zero_eq length_0_conv) (metis assms(1) dirname_ok_def le_imp_less_Suc)
  then obtain b where b: "parent_dumped (Suc (length path)) ev (svn_path_dirname ev path) e = Some b"
    using parent_dumped_total [OF assms(1)] by blast
  have p: "keeps d (post_dump ev path CHR ''D'' e)" "keeps d (post_dump ev path CHR ''D'' (e\<lparr>de_repo := r\<rparr>))" for r
    by (rule k [OF post_dump_keeps]; simp add: n)+
  have q: "keeps d (Some (x, e))" "keeps d (Some (x, e\<lparr>de_repo := r\<rparr>))" for x r by (simp_all add: keeps_def n)
  show ?thesis
    unfolding close_deleted_def Let_def e_def [symmetric] b using p q by (simp split: bool.split prod.split)
qed

lemma de_fold_keeps:
  assumes "\<And>x d. x \<in> set xs \<Longrightarrow> keeps d (f x d)"
  shows "keeps d (de_fold f xs d)"
  using assms
proof (induction xs arbitrary: d)
  case (Cons x xs)
  obtain e d1 where 1: "f x d = Some (e, d1)" "length (de_nodes d) \<le> length (de_nodes d1)" "\<forall>j < length (de_nodes d). nd d1 j = nd d j"
    using Cons.prems [of x d] by (auto simp: keeps_def)
  moreover have "keeps d1 (de_fold f xs d1)" using Cons by simp
  ultimately show ?case by (auto simp: de_bind_def keeps_def)
qed (simp add: keeps_def)

text \<open>Closing returns, and on success no node of the edit is left to dump.\<close>

lemma close_edit_returns:
  assumes "edit_inv d" "dirname_ok ev" "lr_changed_paths (de_log d) = Some h" "\<forall>p \<in> fst ` set h. p = [] \<or> hd p \<noteq> slash"
  shows "\<exists>e d'. de_close_edit ev d = Some (e, d') \<and>
    (e = SVN_NO_ERROR \<longrightarrow> (\<forall>i < length (de_nodes d). \<not> n_dump_needed (nd d' i)))"
proof -
  have "walked d 0 (delta_dump_node_recursive (Suc (length (de_nodes d))) ev 0 d)"
    by (rule dump_recursive_walk [OF assms(2) edit_inv_ready [OF assms(1)]]) simp
  then obtain e1 d1 where d1: "delta_dump_node_recursive (Suc (length (de_nodes d))) ev 0 d = Some (e1, d1)" "stat d d1"
    "e1 = SVN_NO_ERROR \<longrightarrow> (\<forall>j < length (de_nodes d). \<not> n_dump_needed (nd d1 j))"
    using edit_inv_sub [OF assms(1)] by (auto simp: walked_def outside_same_def simp del: delta_dump_node_recursive.simps)
  have h: "lr_changed_paths (de_log d1) = Some h" using d1(2) assms(3) by (simp add: stat_def)
  let ?f = "\<lambda>(path, log) d. if cp_action log = CHR ''D'' then close_deleted ev path (cp_action log) d else Some (SVN_NO_ERROR, d)"
  have "keeps d1 (de_fold ?f h d1)"
  proof (rule de_fold_keeps)
    fix x a
    assume "x \<in> set h"
    then have "keeps a (close_deleted ev (fst x) CHR ''D'' a)"
      using close_deleted_keeps [OF assms(2), of "fst x" a] assms(4) by auto
    then show "keeps a (?f x a)" by (cases x) (auto simp: keeps_def)
  qed
  then obtain e2 d2 where d2: "de_fold ?f h d1 = Some (e2, d2)" "\<forall>j < length (de_nodes d1). nd d2 j = nd d1 j"
    by (auto simp: keeps_def)
  have "de_root d = Some 0" using assms(1) by (simp add: edit_inv_def)
  then have eq: "de_close_edit ev d = (if e1 = SVN_NO_ERROR then Some (e2, d2) else Some (e1, d1))"
    using d1(1) d2(1) h by (simp add: de_close_edit_def de_bind_def del: delta_dump_node_recursive.simps)
  then show ?thesis using d1 d2(2) stat_fields(5) [OF d1(2)] by (cases "e1 = SVN_NO_ERROR") auto
qed

end
