(* ===== verification/Drive.thy ===== *)
theory Drive
  imports Dump Delta_Safety
begin

text \<open>
  The editor as a state machine: the states a driver can bring it to with the calls of an edit, an
  invariant of them, and what closing the edit does in each. The driver must name children by paths
  that are not shorter than those of their parents, as relative paths below a directory are.
\<close>

section \<open>The states of an edit\<close>

definition log_ok :: "de \<Rightarrow> bool" where
  "log_ok d \<longleftrightarrow>
     (\<exists>h. lr_changed_paths (de_log d) = Some h \<and>
        (\<forall>(p, l) \<in> set h. (p = [] \<or> hd p \<noteq> slash) \<and>
           (cp_copyfrom_path l \<noteq> None \<longrightarrow> cp_action l \<in> {CHR ''A'', CHR ''R''})))"

definition path_fits :: "env \<Rightarrow> string \<Rightarrow> batons \<Rightarrow> de \<Rightarrow> bool" where
  "path_fits ev path0 bs d \<longleftrightarrow>
     (case de_obfuscate ev path0 d of
        None \<Rightarrow> True
      | Some (path, d1) \<Rightarrow> bs \<noteq> [] \<and> length (n_path (nd d (hd bs))) \<le> length path)"

fun op_ok :: "env \<Rightarrow> edit_op \<Rightarrow> batons \<Rightarrow> de \<Rightarrow> bool" where
  "op_ok ev Open_root bs d = False"
| "op_ok ev Close_edit bs d = False"
| "op_ok ev (Delete_entry p) bs d = path_fits ev p bs d"
| "op_ok ev (Add_directory p) bs d = path_fits ev p bs d"
| "op_ok ev (Open_directory p) bs d = path_fits ev p bs d"
| "op_ok ev (Add_file p) bs d = path_fits ev p bs d"
| "op_ok ev (Open_file p) bs d = path_fits ev p bs d"
| "op_ok ev op bs d = True"

inductive driven :: "env \<Rightarrow> batons \<Rightarrow> de \<Rightarrow> bool" for ev where
  start: "log_ok (delta_setup_editor l r logs d0) \<Longrightarrow>
    run_op ev Open_root ([], delta_setup_editor l r logs d0) = Some (SVN_NO_ERROR, bs, d) \<Longrightarrow> driven ev bs d"
| step: "driven ev bs d \<Longrightarrow> op_ok ev op bs d \<Longrightarrow> run_op ev op (bs, d) = Some (SVN_NO_ERROR, bs', d') \<Longrightarrow> driven ev bs' d'"

inductive_simps driven_iff: "driven ev bs d"

definition drive_inv :: "batons \<Rightarrow> de \<Rightarrow> bool" where
  "drive_inv bs d \<longleftrightarrow> edit_inv d \<and> log_ok d \<and> (\<forall>b \<in> set bs. b < length (de_nodes d))"

section \<open>Making and changing nodes\<close>

lemma edit_inv_cong: "de_nodes d' = de_nodes d \<Longrightarrow> de_root d' = de_root d \<Longrightarrow> edit_inv d' = edit_inv d"
  by (simp add: edit_inv_def heap_ok_def)

lemma heap_distinct: "heap_ok d \<Longrightarrow> i < length (de_nodes d) \<Longrightarrow> distinct (n_children (nd d i))"
  unfolding heap_ok_def by blast

text \<open>A step that keeps the shape of the tree and the log.\<close>

definition same_tree :: "de \<Rightarrow> de \<Rightarrow> bool" where
  "same_tree d d' \<longleftrightarrow>
     length (de_nodes d') = length (de_nodes d) \<and> de_root d' = de_root d \<and> de_log d' = de_log d \<and>
     (\<forall>j < length (de_nodes d). n_path (nd d' j) = n_path (nd d j) \<and> n_parent (nd d' j) = n_parent (nd d j) \<and>
        n_children (nd d' j) = n_children (nd d j) \<and> (fresh_node (nd d j) \<longrightarrow> fresh_node (nd d' j)))"

lemma same_tree_inv:
  assumes "same_tree d d'" "drive_inv bs d"
  shows "drive_inv bs d'"
proof -
  have h: "heap_ok d" using assms(2) by (simp add: drive_inv_def edit_inv_def)
  have t: "length (de_nodes d') = length (de_nodes d)"
    "\<And>j. j < length (de_nodes d) \<Longrightarrow> n_path (nd d' j) = n_path (nd d j) \<and> n_parent (nd d' j) = n_parent (nd d j) \<and>
       n_children (nd d' j) = n_children (nd d j)"
    using assms(1) by (simp_all add: same_tree_def)
  have "heap_ok d'"
    unfolding heap_ok_def
  proof (intro allI impI conjI ballI)
    fix i p assume i: "i < length (de_nodes d')" "n_parent (nd d' i) = Some p"
    then have "(i, p) \<in> up d" using t by (simp add: up_def)
    from heap_parent [OF h this] show "p < i" "length (n_path (nd d' p)) \<le> length (n_path (nd d' i))"
      "i \<in> set (n_children (nd d' p))" using t i by auto
  next
    fix i assume i: "i < length (de_nodes d')"
    then show "distinct (n_children (nd d' i))" using heap_distinct [OF h, of i] t by simp
    fix c assume "c \<in> set (n_children (nd d' i))"
    then have c: "c \<in> set (n_children (nd d i))" using t i by simp
    have "i < length (de_nodes d)" using t(1) i by simp
    then have "(c, i) \<in> up d" "c < length (de_nodes d)" using heap_child(1,2) [OF h _ c] by blast+
    then show "c < length (de_nodes d')" "n_parent (nd d' c) = Some i" using t by (auto simp: up_def)
  qed
  then show ?thesis using assms by (auto simp: drive_inv_def edit_inv_def same_tree_def log_ok_def)
qed

lemma same_tree_refl [simp]: "same_tree d d"
  by (simp add: same_tree_def)

lemma same_tree_trans: "same_tree d d1 \<Longrightarrow> same_tree d1 d2 \<Longrightarrow> same_tree d d2"
  by (auto simp: same_tree_def)

lemma same_tree_fields: "de_nodes d' = de_nodes d \<Longrightarrow> de_root d' = de_root d \<Longrightarrow> de_log d' = de_log d \<Longrightarrow> same_tree d d'"
  by (simp add: same_tree_def)

lemma same_tree_upd:
  assumes "\<And>n. n_path (f n) = n_path n" "\<And>n. n_parent (f n) = n_parent n" "\<And>n. n_children (f n) = n_children n"
    "fresh_node (nd d i) \<Longrightarrow> fresh_node (f (nd d i))"
  shows "same_tree d (upd_node i f d)"
  using assms by (cases "i < length (de_nodes d)") (auto simp: same_tree_def upd_node_def nth_list_update list_update_beyond)

lemma create_node_inv:
  assumes "drive_inv bs d" "p < length (de_nodes d)" "length (n_path (nd d p)) \<le> length path"
    "delta_create_node path p kind action needed d = (i, d')"
  shows "i = length (de_nodes d)" "drive_inv (i # bs) d'" "n_copyfrom_path (nd d' i) = None" "de_log d' = de_log d"
    "n_dump_needed (nd d' i) = needed"
proof -
  let ?n = "node_make path (n_cp_info (nd d p)) (Some p) kind action needed"
  let ?l = "length (de_nodes d)"
  show i: "i = ?l" and l: "de_log d' = de_log d" using assms(4) by (auto simp: delta_create_node_def upd_node_def Let_def)
  have h: "heap_ok d" and inv: "edit_inv d" using assms(1) by (auto simp: drive_inv_def edit_inv_def)
  have d': "length (de_nodes d') = Suc ?l" "nd d' ?l = ?n" "de_root d' = de_root d"
    "nd d' p = (nd d p)\<lparr>n_children := n_children (nd d p) @ [?l]\<rparr>" "\<And>j. j < ?l \<Longrightarrow> j \<noteq> p \<Longrightarrow> nd d' j = nd d j"
    using assms(2,4) by (auto simp: delta_create_node_def upd_node_def Let_def nth_append nth_list_update)
  have old: "n_path (nd d' j) = n_path (nd d j)" "n_parent (nd d' j) = n_parent (nd d j)" "fresh_node (nd d' j) = fresh_node (nd d j)"
    "n_children (nd d' j) = (if j = p then n_children (nd d p) @ [?l] else n_children (nd d j))" if "j < ?l" for j
    using d'(4) d'(5) [OF that] by (cases "j = p"; simp add: fresh_node_def)+
  have new: "n_path ?n = path" "n_parent ?n = Some p" "n_children ?n = []" "fresh_node ?n" "n_copyfrom_path ?n = None"
    "n_dump_needed ?n = needed" by (simp_all add: node_make_def fresh_node_def)
  then show "n_copyfrom_path (nd d' i) = None" "n_dump_needed (nd d' i) = needed" using d'(2) i by simp_all
  have "heap_ok d'"
    unfolding heap_ok_def
  proof (intro allI impI conjI ballI)
    fix j q assume j: "j < length (de_nodes d')" "n_parent (nd d' j) = Some q"
    have "q < j \<and> length (n_path (nd d' q)) \<le> length (n_path (nd d' j)) \<and> j \<in> set (n_children (nd d' q))"
    proof (cases "j = ?l")
      case True
      then show ?thesis using j assms(2,3) d' new old [OF assms(2)] by simp
    next
      case False
      then have jl: "j < ?l" using j d'(1) by simp
      then have "(j, q) \<in> up d" using j(2) old by (simp add: up_def)
      from heap_parent [OF h this] show ?thesis using old jl by (auto split: if_splits)
    qed
    then show "q < j" "length (n_path (nd d' q)) \<le> length (n_path (nd d' j))" "j \<in> set (n_children (nd d' q))" by auto
  next
    fix j assume j: "j < length (de_nodes d')"
    have jn: "?l \<notin> set (n_children (nd d k))" if "k < ?l" for k using heap_child(2) [OF h that] by blast
    show "distinct (n_children (nd d' j))"
      using j d'(1,2) old(4) [of j] new(3) jn [OF assms(2)] heap_distinct [OF h, of j] by (cases "j = ?l") auto
    fix c assume c: "c \<in> set (n_children (nd d' j))"
    then have jl: "j < ?l" using j d'(1,2) new by (cases "j = ?l") auto
    then consider "c = ?l" "j = p" | "c \<in> set (n_children (nd d j))" using c old(4) [OF jl] by (auto split: if_splits)
    then have "c < Suc ?l \<and> n_parent (nd d' c) = Some j"
    proof cases
      case 2
      then have "c < ?l" "n_parent (nd d c) = Some j" using heap_child [OF h jl] by (auto simp: up_def)
      then show ?thesis using old(2) by simp
    qed (use d'(2) new in simp)
    then show "c < length (de_nodes d')" "n_parent (nd d' c) = Some j" using d'(1) by auto
  qed
  moreover have "\<forall>j < length (de_nodes d'). fresh_node (nd d' j) \<and> (n_parent (nd d' j) = None \<longleftrightarrow> j = 0)"
  proof (intro allI impI)
    fix j assume "j < length (de_nodes d')"
    then show "fresh_node (nd d' j) \<and> (n_parent (nd d' j) = None \<longleftrightarrow> j = 0)"
      using d'(1,2) new old [of j] inv by (cases "j = ?l") (auto simp: edit_inv_def)
  qed
  ultimately have "edit_inv d'" using d' inv by (simp add: edit_inv_def)
  then show "drive_inv (i # bs) d'" using assms(1) d'(1) i l by (auto simp: drive_inv_def log_ok_def)
qed

section \<open>The calls keep the invariant\<close>

lemma obfuscate_same: "de_obfuscate ev path d = Some (p, d1) \<Longrightarrow> same_tree d d1 \<and> de_nodes d1 = de_nodes d"
  by (auto simp: de_obfuscate_def same_tree_def split: option.splits prod.splits)

lemma forget_files_same: "forget_files ev path his d = Some d' \<Longrightarrow> same_tree d d'"
proof (induction his arbitrary: d)
  case (Cons hi his)
  have s: "same_tree d ((file_remove f d)\<lparr>de_store := store, delta_hash := h\<rparr>)" for f store h
    by (rule same_tree_fields) (simp_all add: file_remove_def)
  show ?case
    using Cons.prems same_tree_trans [OF s Cons.IH] Cons.IH [of d] by (auto simp: rhash_this_def split: if_splits option.splits)
qed simp

lemma forget_md5_same: "same_tree d (forget_md5 ev path his d)"
proof (induction his arbitrary: d)
  case (Cons hi his)
  have s: "same_tree d (d\<lparr>md5_hash := h\<rparr>)" for h by (rule same_tree_fields) simp_all
  show ?case using same_tree_trans [OF s Cons.IH] Cons.IH [of d] by (simp add: rhash_this_def)
qed simp

lemma delete_entry_inv:
  assumes "drive_inv bs d" "p \<in> set bs" "path_fits ev path0 (p # bs') d" "de_delete_entry ev path0 p d = Some (e, d')"
  shows "drive_inv bs d'"
proof -
  obtain path d1 d3 where d1: "de_obfuscate ev path0 d = Some (path, d1)"
    and d3: "forget_files ev path (delta_hash (snd (delta_create_node path p node_none CHR ''D'' True d1)))
      (snd (delta_create_node path p node_none CHR ''D'' True d1)) = Some d3"
    and rest: "\<exists>store repo. d' = (forget_md5 ev path (md5_hash d3) d3)\<lparr>de_store := store\<rparr> \<or>
      d' = (forget_md5 ev path (md5_hash d3) d3)\<lparr>de_store := store, de_repo := repo\<rparr>"
    using assms(4) unfolding de_delete_entry_def Let_def
    by (auto split: option.splits prod.splits if_splits)
  have 1: "drive_inv bs d1" "de_nodes d1 = de_nodes d" using obfuscate_same [OF d1] same_tree_inv assms(1) by auto
  obtain i d2 where d2: "delta_create_node path p node_none CHR ''D'' True d1 = (i, d2)" by fastforce
  have "drive_inv (i # bs) d2"
    by (rule create_node_inv(2) [OF 1(1) _ _ d2]) (use assms 1 d1 in \<open>auto simp: drive_inv_def path_fits_def\<close>)
  then have "drive_inv bs d2" by (simp add: drive_inv_def)
  moreover have "same_tree d2 d3" using forget_files_same d3 d2 by auto
  moreover have "same_tree (forget_md5 ev path (md5_hash d3) d3) d'" using rest by (auto intro: same_tree_fields)
  ultimately show ?thesis using same_tree_inv forget_md5_same same_tree_trans by metis
qed

lemma add_path_same: "add_path path d = Some (e, d') \<Longrightarrow> same_tree d d'"
  by (auto simp: add_path_def intro: same_tree_fields split: if_splits prod.splits)

lemma log_entry_ok:
  assumes "log_ok d" "de_log_entry d path = Some (Some l)" "cp_copyfrom_path l \<noteq> None"
  shows "cp_action l \<in> {CHR ''A'', CHR ''R''}"
  using assms by (fastforce simp: log_ok_def de_log_entry_def apr_hash_get_def dest!: map_of_SomeD)

lemma node_from_log_fields:
  "n_path (node_from_log log keep n) = n_path n" "n_parent (node_from_log log keep n) = n_parent n"
  "n_children (node_from_log log keep n) = n_children n" "n_dump_needed (node_from_log log keep n) = n_dump_needed n"
  by (simp_all add: node_from_log_def Let_def split: option.split)

lemma node_from_log_fresh:
  assumes "n_copyfrom_path n = None" "n_dump_needed n" "\<And>l. log = Some l \<Longrightarrow> cp_copyfrom_path l \<noteq> None \<Longrightarrow> cp_action l \<in> {CHR ''A'', CHR ''R''}"
  shows "fresh_node (node_from_log log keep n)"
  using assms by (auto simp: fresh_node_def node_from_log_def Let_def split: option.splits)

lemma add_node_inv:
  assumes "drive_inv bs d" "p \<in> set bs" "path_fits ev path0 (p # bs') d" "de_obfuscate ev path0 d = Some (path, d1)"
    "delta_create_node path p kind a True d1 = (i, d2)" "de_log_entry d2 path = Some log"
  shows "i = length (de_nodes d) \<and> drive_inv (i # bs) (upd_node i (node_from_log log keep) d2) \<and>
    n_dump_needed (nd d2 i) \<and> i < length (de_nodes d2)"
proof -
  have 1: "drive_inv bs d1" "de_nodes d1 = de_nodes d" using obfuscate_same [OF assms(4)] same_tree_inv assms(1) by auto
  have p: "p < length (de_nodes d1)" "length (n_path (nd d1 p)) \<le> length path"
    using assms 1 by (auto simp: drive_inv_def path_fits_def)
  note c = create_node_inv [OF 1(1) p assms(5)]
  have "same_tree d2 (upd_node i (node_from_log log keep) d2)"
  proof (rule same_tree_upd)
    have "log_ok d2" using c(2) by (simp add: drive_inv_def)
    then show "fresh_node (node_from_log log keep (nd d2 i))"
      by (intro node_from_log_fresh) (use c(3,5) log_entry_ok [of d2 path] assms(6) in simp_all)
  qed (simp_all add: node_from_log_fields)
  from same_tree_inv [OF this c(2)] have "drive_inv (i # bs) (upd_node i (node_from_log log keep) d2)" .
  then show ?thesis using c 1(2) by (simp add: drive_inv_def)
qed

lemma open_node_inv:
  assumes "drive_inv bs d" "p \<in> set bs" "path_fits ev path0 (p # bs') d" "de_obfuscate ev path0 d = Some (path, d1)"
    "delta_create_node path p kind a needed d1 = (i, d2)"
  shows "i = length (de_nodes d)" "drive_inv (i # bs) d2"
proof -
  have 1: "drive_inv bs d1" "de_nodes d1 = de_nodes d" using obfuscate_same [OF assms(4)] same_tree_inv assms(1) by auto
  have p: "p < length (de_nodes d1)" "length (n_path (nd d1 p)) \<le> length path"
    using assms 1 by (auto simp: drive_inv_def path_fits_def)
  show "i = length (de_nodes d)" "drive_inv (i # bs) d2" using create_node_inv(1,2) [OF 1(1) p assms(5)] 1(2) by simp_all
qed

lemma load_props_same: "load_props ev i d = Some (e, d') \<Longrightarrow> same_tree d d'"
  unfolding load_props_def
  by (auto intro!: same_tree_trans [OF same_tree_fields same_tree_upd] simp: fresh_node_def split: option.splits)

lemma save_props_same: "save_props ev i d = Some (e, d') \<Longrightarrow> same_tree d d'"
  by (auto simp: save_props_def intro: same_tree_fields split: option.splits)

lemma absent_same: "de_absent ev p d = Some (e, d') \<Longrightarrow> same_tree d d'"
  using obfuscate_same by (auto simp: de_absent_def)

lemma change_prop_same: "change_prop ev i name val d = Some (e, d') \<Longrightarrow> same_tree d d'"
  unfolding change_prop_def
  by (auto intro!: same_tree_upd simp: fresh_node_def split: if_splits option.splits)

lemma set_action_A_same: "same_tree d (set_action i CHR ''A'' d)"
  unfolding set_action_def by (rule same_tree_upd) (auto simp: fresh_node_def)

lemma mk_temp_same: "mk_temp ev s d = (r, d1) \<Longrightarrow> same_tree d d1"
  by (auto simp: mk_temp_def Let_def intro: same_tree_fields split: if_splits)

lemma textdelta_same:
  assumes "de_apply_textdelta ev i w d = Some (e, d')"
  shows "same_tree d d'"
proof -
  have u: "same_tree d0 (upd_node i (\<lambda>n. n\<lparr>n_filename := f\<rparr>) d0)" for f d0 by (rule same_tree_upd) (auto simp: fresh_node_def)
  have v: "same_tree d0 (upd_node i (\<lambda>n. n\<lparr>n_md5sum := m, n_old_filename := f, n_applied_delta := True, n_dump_needed := True\<rparr>)
    (d0\<lparr>de_files := x, delta_hash := y\<rparr>))" for m f x y d0
    by (rule same_tree_trans [OF same_tree_fields same_tree_upd]) (auto simp: fresh_node_def)
  obtain r d1 where m: "mk_temp ev ''/td/'' d = (r, d1)" by fastforce
  note s1 = same_tree_trans [OF mk_temp_same [OF m] u]
  note s2 = same_tree_trans [OF s1 v]
  show ?thesis using assms m
    by (auto simp: de_apply_textdelta_def Let_def split: option.splits if_splits intro!: s2 intro: s1)
qed

lemma add_path_inv:
  assumes "drive_inv bs d" "add_path path d = Some (e, d')"
  shows "drive_inv bs d'"
  using same_tree_inv [OF add_path_same [OF assms(2)] assms(1)] .

lemma add_directory_inv:
  assumes "drive_inv bs d" "p \<in> set bs" "path_fits ev path0 (p # bs') d" "de_add_directory ev path0 p d = Some (e, d')"
  shows "drive_inv (length (de_nodes d) # bs) d'"
proof -
  obtain path d1 i d2 log where s: "de_obfuscate ev path0 d = Some (path, d1)"
    "delta_create_node path p node_dir nul True d1 = (i, d2)" "de_log_entry d2 path = Some log"
    "add_path path (upd_node i (node_from_log log CPI_FAILED_OUTSIDE) d2) = Some (e, d')"
    using assms(4) by (auto simp: de_add_directory_def split: option.splits prod.splits)
  show ?thesis using add_path_inv [OF _ s(4)] add_node_inv [OF assms(1-3) s(1-3), of CPI_FAILED_OUTSIDE] by auto
qed

lemma add_file_inv:
  assumes "drive_inv bs d" "p \<in> set bs" "path_fits ev path0 (p # bs') d" "de_add_file ev path0 p d = Some (e, d')"
  shows "drive_inv (length (de_nodes d) # bs) d'"
proof -
  obtain path d1 i d2 log where s: "de_obfuscate ev path0 d = Some (path, d1)"
    "delta_create_node path p node_file nul True d1 = (i, d2)" "de_log_entry d2 path = Some log"
    "(let d3 = upd_node i (node_from_log log CPI_FAILED) d2;
          d4 = (if cpi_and (n_cp_info (nd d3 i)) CPI_FAILED then set_action i CHR ''A'' d3 else d3)
      in add_path path d4) = Some (e, d')"
    using assms(4) by (auto simp: de_add_file_def split: option.splits prod.splits)
  have "drive_inv (i # bs) (upd_node i (node_from_log log CPI_FAILED) d2)" "i = length (de_nodes d)"
    using add_node_inv [OF assms(1-3) s(1-3), of CPI_FAILED] by blast+
  then have "drive_inv (length (de_nodes d) # bs)
    (if c then set_action i CHR ''A'' (upd_node i (node_from_log log CPI_FAILED) d2) else upd_node i (node_from_log log CPI_FAILED) d2)" for c
    using same_tree_inv [OF set_action_A_same] by (cases c) simp_all
  then show ?thesis using add_path_inv s(4) unfolding Let_def by blast
qed

lemma open_directory_inv:
  assumes "drive_inv bs d" "p \<in> set bs" "path_fits ev path0 (p # bs') d" "de_open_directory ev path0 p d = Some (e, d')"
  shows "drive_inv (length (de_nodes d) # bs) d'"
proof -
  obtain path d1 i d2 where s: "de_obfuscate ev path0 d = Some (path, d1)"
    "delta_create_node path p node_dir CHR ''M'' False d1 = (i, d2)" "load_props ev i d2 = Some (e, d')"
    using assms(4) by (auto simp: de_open_directory_def split: option.splits prod.splits)
  show ?thesis using same_tree_inv [OF load_props_same [OF s(3)]] open_node_inv [OF assms(1-3) s(1,2)] by simp
qed

lemma open_file_inv:
  assumes "drive_inv bs d" "p \<in> set bs" "path_fits ev path0 (p # bs') d" "de_open_file ev path0 p d = Some (e, d')"
  shows "drive_inv (length (de_nodes d) # bs) d'"
proof -
  obtain path d1 i d2 where s: "de_obfuscate ev path0 d = Some (path, d1)"
    "delta_create_node path p node_file CHR ''M'' False d1 = (i, d2)" "load_props ev i d2 = Some (e, d')"
    using assms(4) by (auto simp: de_open_file_def split: option.splits prod.splits)
  show ?thesis using same_tree_inv [OF load_props_same [OF s(3)]] open_node_inv [OF assms(1-3) s(1,2)] by simp
qed

lemma open_root_inv:
  assumes "log_ok (delta_setup_editor l r logs d0)" "de_open_root ev (delta_setup_editor l r logs d0) = Some (e, d)"
  shows "drive_inv [0] d" "length (de_nodes (delta_setup_editor l r logs d0)) = 0"
  using assms
  by (auto simp: de_open_root_def delta_create_node_no_parent_def delta_setup_editor_def drive_inv_def edit_inv_def
      node_make_def fresh_node_def log_ok_def heap_ok_def Let_def split: if_splits)

lemma drive_inv_tl: "drive_inv (b # bs) d \<Longrightarrow> drive_inv bs d"
  by (simp add: drive_inv_def)

lemmas call_inv = delete_entry_inv add_directory_inv add_file_inv open_directory_inv open_file_inv

lemmas call_same = change_prop_same save_props_same textdelta_same absent_same

lemma run_op_inv:
  assumes "drive_inv bs d" "op_ok ev op bs d" "run_op ev op (bs, d) = Some (e, bs', d')"
  shows "drive_inv bs' d'"
proof -
  show ?thesis
  proof (cases op)
    case (Delete_entry p)
    then show ?thesis using assms by (auto simp: with_parent_def split: list.splits dest: delete_entry_inv)
  next
    case (Add_directory p)
    then show ?thesis using assms by (auto simp: push_node_def with_parent_def split: list.splits dest: add_directory_inv)
  next
    case (Open_directory p)
    then show ?thesis using assms by (auto simp: push_node_def with_parent_def split: list.splits dest: open_directory_inv)
  next
    case (Add_file p)
    then show ?thesis using assms by (auto simp: push_node_def with_parent_def split: list.splits dest: add_file_inv)
  next
    case (Open_file p)
    then show ?thesis using assms by (auto simp: push_node_def with_parent_def split: list.splits dest: open_file_inv)
  qed (use assms in \<open>auto simp: with_parent_def pop_node_def de_change_dir_prop_def de_change_file_prop_def
      de_close_directory_def de_close_file_def split: list.splits dest: call_same [THEN same_tree_inv] drive_inv_tl\<close>)
qed

section \<open>Every edit can be closed\<close>

lemma driven_inv: "driven ev bs d \<Longrightarrow> drive_inv bs d"
proof (induction rule: driven.induct)
  case (start l r logs d0 bs d)
  then show ?case using open_root_inv [OF start(1)] by (auto split: option.splits)
next
  case (step bs d op bs' d')
  then show ?case using run_op_inv by blast
qed

text \<open>An edit that adds the file \<open>f\<close> with a property and a text.\<close>

definition demo_setup :: de where
  "demo_setup = (let d = demo_de [(''f'', \<lparr>cp_action = CHR ''A'', cp_copyfrom_path = None, cp_copyfrom_rev = -1\<rparr>)]
     in delta_setup_editor (de_log d) 1 [] d)"

fun drive :: "env \<Rightarrow> edit_op list \<Rightarrow> batons \<times> de \<Rightarrow> batons \<times> de" where
  "drive ev [] s = s"
| "drive ev (op # ops) s = drive ev ops (snd (the (run_op ev op s)))"

fun drive_ok :: "env \<Rightarrow> edit_op list \<Rightarrow> batons \<times> de \<Rightarrow> bool" where
  "drive_ok ev [] s = True"
| "drive_ok ev (op # ops) s =
     (op_ok ev op (fst s) (snd s) \<and> map_option fst (run_op ev op s) = Some SVN_NO_ERROR \<and> drive_ok ev ops (snd (the (run_op ev op s))))"

lemma drive_driven: "driven ev (fst s) (snd s) \<Longrightarrow> drive_ok ev ops s \<Longrightarrow> driven ev (fst (drive ev ops s)) (snd (drive ev ops s))"
proof (induction ops arbitrary: s)
  case (Cons op ops)
  have "run_op ev op (fst s, snd s) = Some (SVN_NO_ERROR, fst (snd (the (run_op ev op s))), snd (snd (the (run_op ev op s))))"
    using Cons.prems(2) by (auto dest!: fst_the_ok)
  from driven.step [OF Cons.prems(1) _ this] show ?case using Cons.IH Cons.prems(2) by simp
qed simp

definition demo_driven :: "batons \<times> de" where
  "demo_driven = drive demo_env [Add_file ''f'', Change_file_prop ''k'' (Some ''v''), Apply_textdelta (\<lambda>_. ''hi''), Close_file]
     (drive demo_env [Open_root] ([], demo_setup))"

lemma demo_driven: "driven demo_env (fst demo_driven) (snd demo_driven)"
  unfolding demo_driven_def
proof (rule drive_driven)
  have "log_ok demo_setup" by (simp add: log_ok_def demo_setup_def demo_de_def delta_setup_editor_def)
  then show "driven demo_env (fst (drive demo_env [Open_root] ([], demo_setup))) (snd (drive demo_env [Open_root] ([], demo_setup)))"
    by (intro driven.start) (auto simp: demo_setup_def Let_def de_open_root_def split: prod.splits)
qed code_simp

lemma split_shorter:
  assumes "p \<noteq> []" "hd p \<noteq> slash"
  shows "length (fst (utils_path_split p)) < length p" "fst (utils_path_split p) = [] \<or> hd (fst (utils_path_split p)) \<noteq> slash"
proof -
  have "1 < length p" if "slash \<in> set p" using assms that by (cases p) (auto simp: in_set_conv_nth)
  then show "length (fst (utils_path_split p)) < length p"
    using assms by (auto simp: utils_path_split_def Let_def)
  show "fst (utils_path_split p) = [] \<or> hd (fst (utils_path_split p)) \<noteq> slash"
    using assms by (auto simp: utils_path_split_def Let_def)
qed

lemma demo_dirname: "dirname_ok demo_env"
proof -
  have "length (fst (utils_path_split p)) \<le> length p" for p by (auto simp: utils_path_split_def Let_def)
  then show ?thesis using split_shorter by (simp add: dirname_ok_def demo_env_def)
qed

text \<open>
  C9. Invariant of the editor's state machine: however a driver gets there, the nodes of an edit form
  a tree with the root as its only parentless node, children lists and parent pointers agree, paths
  do not get shorter downwards, a node with a copy source still waits to be dumped as an addition or
  a replacement, and every open baton is a node.
\<close>

theorem driven_invariant:
  assumes "driven ev bs d"
  shows "drive_inv bs d"
  using assms by (rule driven_inv)

theorem driven_invariant_witness: "drive_inv (fst demo_driven) (snd demo_driven)"
  by (rule driven_invariant [OF demo_driven])

text \<open>
  C8. Closing the edit always comes to an end: in every state that the calls of an edit lead to, with
  relative paths in the log, the walk over the tree and the loop over the deleted paths return
  within the fuel and the recursion of the model (no step is undefined), and when they succeed no node of the edit is
  left undumped.
\<close>

theorem driven_edit_closes:
  assumes "driven ev bs d" "dirname_ok ev"
  shows "\<exists>e d'. de_close_edit ev d = Some (e, d') \<and>
    (e = SVN_NO_ERROR \<longrightarrow> (\<forall>i < length (de_nodes d). \<not> n_dump_needed (nd d' i)))"
proof -
  have "edit_inv d" "log_ok d" using driven_inv [OF assms(1)] by (simp_all add: drive_inv_def)
  then show ?thesis using close_edit_returns [OF _ assms(2)] by (fastforce simp: log_ok_def)
qed

theorem driven_edit_closes_witness:
  "\<exists>e d'. de_close_edit demo_env (snd demo_driven) = Some (e, d') \<and>
    (e = SVN_NO_ERROR \<longrightarrow> (\<forall>i < length (de_nodes (snd demo_driven)). \<not> n_dump_needed (nd d' i)))"
  by (rule driven_edit_closes [OF demo_driven demo_dirname])

end
