(* ===== verification/Dump_Stream.thy ===== *)
theory Dump_Stream
  imports Drive
begin

text \<open>
  The dump as a stream. A loader of dump files skips empty lines, reads header lines up to an empty
  line and then the announced number of bytes. This theory gives such a loader, says which records
  the dump prints outside of an edit, and follows the calls of a whole edit: an edit prints nothing
  but records of nodes, and keeps the options, the logs and the state of the session.
\<close>

section \<open>A loader\<close>

text \<open>A record and the number of empty lines behind it.\<close>

type_synonym item = "drec \<times> nat"

fun show_item :: "item \<Rightarrow> string" where
  "show_item (Rec hs b, k) =
     hdrs hs @ nl @ (case b of None \<Rightarrow> [] | Some (p, t) \<Rightarrow> p @ t) @ replicate k CHR 0x0A"

definition show_items :: "item list \<Rightarrow> string" where
  "show_items its = concat (map show_item its)"

definition hdr_ok :: "string \<times> string \<Rightarrow> bool" where
  "hdr_ok h \<longleftrightarrow> fst h \<noteq> [] \<and> CHR '':'' \<notin> set (fst h) \<and> line_ok (fst h) \<and> line_ok (snd h)"

fun item_ok :: "drec \<Rightarrow> bool" where
  "item_ok (Rec hs b) \<longleftrightarrow> hs \<noteq> [] \<and> list_all hdr_ok hs \<and>
     (case b of
        None \<Rightarrow> map_of hs ''Content-length'' = None
      | Some (p, t) \<Rightarrow>
          map_of hs ''Content-length'' = Some (dec_nat (length p + length t)) \<and>
          header_len hs ''Prop-content-length'' = length p)"

definition load_rec :: "string \<Rightarrow> (drec \<times> string) option" where
  "load_rec s =
     (case read_headers (length s) s of
        None \<Rightarrow> None
      | Some (hs, s') \<Rightarrow>
          if map_of hs ''Content-length'' = None then Some (Rec hs None, s')
          else (let n = header_len hs ''Content-length''; m = header_len hs ''Prop-content-length''
                in if n \<le> length s' \<and> m \<le> n
                   then Some (Rec hs (Some (take m s', take (n - m) (drop m s'))), drop n s') else None))"

fun load_recs :: "nat \<Rightarrow> string \<Rightarrow> drec list option" where
  "load_recs n s =
     (let s' = dropWhile (\<lambda>c. c = CHR 0x0A) s
      in if s' = [] then Some []
         else (case n of
                 0 \<Rightarrow> None
               | Suc m \<Rightarrow> (case load_rec s' of None \<Rightarrow> None | Some (r, s'') \<Rightarrow> map_option (Cons r) (load_recs m s''))))"

declare load_recs.simps [simp del]

lemma load_rec_show:
  assumes "item_ok r"
  shows "load_rec (show_item (r, k) @ s) = Some (r, replicate k CHR 0x0A @ s)"
proof -
  obtain hs b where r: "r = Rec hs b" by (cases r)
  have h: "read_headers n (hdrs hs @ nl @ s') = Some (hs, s')" if "length (hdrs hs) < n" for n s'
    by (rule read_headers_show) (use assms r that hdrs_long [of hs] in \<open>auto simp: list_all_iff hdr_ok_def\<close>)
  show ?thesis
  proof (cases b)
    case None
    then show ?thesis
      using assms r h [of _ "replicate k CHR 0x0A @ s"] by (simp add: load_rec_def del: read_headers.simps)
  next
    case (Some x)
    obtain p t where x: "x = (p, t)" by (cases x)
    have "header_len hs ''Content-length'' = length p + length t"
      using assms r Some x by (simp add: header_len_def)
    then show ?thesis
      using assms r Some x h [of _ "p @ t @ replicate k CHR 0x0A @ s"]
      by (simp add: load_rec_def del: read_headers.simps)
  qed
qed

lemma show_item_start:
  assumes "item_ok r"
  shows "show_item (r, k) \<noteq> []" "hd (show_item (r, k)) \<noteq> CHR 0x0A"
proof -
  obtain h hs b where r: "r = Rec (h # hs) b" using assms by (cases r; case_tac x1) auto
  have "fst h \<noteq> []" "CHR 0x0A \<notin> set (fst h)" using assms r by (auto simp: hdr_ok_def line_ok_def)
  then have "hd (fst h) \<noteq> CHR 0x0A" by (metis list.set_sel(1))
  then show "show_item (r, k) \<noteq> []" "hd (show_item (r, k)) \<noteq> CHR 0x0A"
    using r \<open>fst h \<noteq> []\<close> by (cases h; simp add: header_def)+
qed

lemma load_recs_show:
  assumes "list_all (item_ok \<circ> fst) its" "length its \<le> n"
  shows "load_recs n (replicate k CHR 0x0A @ show_items its) = Some (map fst its)"
  using assms
proof (induction its arbitrary: n k)
  case Nil
  have "dropWhile (\<lambda>c. c = CHR 0x0A) (replicate k CHR 0x0A) = []" by (induction k) auto
  then show ?case by (simp add: show_items_def load_recs.simps [of n])
next
  case (Cons it its)
  obtain r j where it: "it = (r, j)" by (cases it)
  obtain m where n: "n = Suc m" using Cons.prems(2) by (cases n) auto
  have ok: "item_ok r" using Cons.prems(1) it by simp
  let ?s = "show_item (r, j) @ show_items its"
  have "dropWhile (\<lambda>c. c = CHR 0x0A) (replicate k CHR 0x0A @ ?s) = ?s"
    using show_item_start [OF ok, of j] by (cases "show_item (r, j)") (auto simp: dropWhile_append3)
  moreover have "load_recs m (replicate j CHR 0x0A @ show_items its) = Some (map fst its)"
    using Cons.IH Cons.prems n by simp
  ultimately show ?case
    using load_rec_show [OF ok] show_item_start(1) [OF ok] n it
    by (simp add: show_items_def load_recs.simps [of "Suc m"] del: show_item.simps)
qed

section \<open>Records outside of an edit\<close>

text \<open>The number of the revision a record begins, if it begins one.\<close>

definition rev_number :: "drec \<Rightarrow> string option" where
  "rev_number r = (case rec_headers r of (k, v) # hs \<Rightarrow> if k = ''Revision-number'' then Some v else None | [] \<Rightarrow> None)"

definition revision_record :: "revnum \<Rightarrow> (string \<times> string) list \<Rightarrow> drec" where
  "revision_record r props =
     (let p = (if props = [] then [] else concat (map (\<lambda>(k, v). property_dump (Some k) (Some v)) props) @ PROPS_END);
          n = dec_nat (length p)
      in Rec [(''Revision-number'', dec_int r), (''Prop-content-length'', n), (''Content-length'', n)] (Some (p, [])))"

lemma revision_record_ok [simp]: "item_ok (revision_record r props)"
  using line_ok_dec by (simp add: revision_record_def Let_def hdr_ok_def line_ok_def header_len_def)

lemma rev_number_revision [simp]: "rev_number (revision_record r props) = Some (dec_int r)"
  by (simp add: rev_number_def revision_record_def Let_def)

lemma props_length: "(\<Sum>(k, v) \<leftarrow> ps. property_strlen (Some k) (Some v)) =
  length (concat (map (\<lambda>(k, v). property_dump (Some k) (Some v)) ps))"
  by (induction ps) (auto simp: property_strlen_dump)

lemma props_length_0: "(\<Sum>(k, v) \<leftarrow> ps. property_strlen (Some k) (Some v)) = 0 \<longleftrightarrow> ps = []"
proof (cases ps)
  case (Cons x xs)
  then show ?thesis by (cases x) (simp add: property_strlen_dump property_dump_def)
qed simp

text \<open>Revision properties whose printed length fits into an \<open>int\<close>.\<close>

definition rev_small :: "log_revision \<Rightarrow> bool" where
  "rev_small l \<longleftrightarrow>
     int (length (concat (map (\<lambda>(k, v). property_dump (Some k) (Some v)) (rev_props l)) @ PROPS_END)) < 2 ^ 31"

lemma rev_props_fold:
  "fold (\<lambda>(k, v) n. c_int (n + int (property_strlen (Some k) (Some v)))) ps (c_int n) =
   c_int (n + int (length (concat (map (\<lambda>(k, v). property_dump (Some k) (Some v)) ps))))"
proof (induction ps arbitrary: n)
  case (Cons p ps)
  obtain k v where p: "p = (k, v)" by (cases p)
  show ?case
    using Cons.IH [of "n + int (length (property_dump (Some k) (Some v)))"] p
    by (simp add: property_strlen_dump c_int_add_left add.assoc)
qed simp

lemma rev_props_len_eq:
  assumes "rev_small l"
  shows "rev_props_len l = int (if rev_props l = [] then 0
     else length (concat (map (\<lambda>(k, v). property_dump (Some k) (Some v)) (rev_props l)) @ PROPS_END))"
proof -
  let ?n = "length (concat (map (\<lambda>(k, v). property_dump (Some k) (Some v)) (rev_props l)))"
  have small: "int ?n + int (length PROPS_END) < 2 ^ 31" using assms by (simp add: rev_small_def)
  have "fold (\<lambda>(k, v) n. c_int (n + int (property_strlen (Some k) (Some v)))) (rev_props l) 0 = int ?n"
    using rev_props_fold [of "rev_props l" 0] c_int_id [of "int ?n"] small by simp
  moreover have "?n = 0 \<longleftrightarrow> rev_props l = []" using props_length_0 [of "rev_props l"] by (simp only: props_length)
  moreover have "c_int (int ?n + int (length PROPS_END)) = int ?n + int (length PROPS_END)" using small by (intro c_int_id) simp_all
  ultimately show ?thesis unfolding rev_props_len_def Let_def by auto
qed

lemma dec_int_nat: "dec_int (int n) = dec_nat n"
  by (simp add: dec_int_def)

lemma revision_header_item:
  assumes "rev_small l"
  shows "dump_revision_header l r = show_item (revision_record r (rev_props l), if rev_props l = [] then 0 else 1)"
  by (simp add: dump_revision_header_def rev_headers_def rev_props_len_eq [OF assms] dec_int_nat revision_record_def Let_def PROPS_END_def)

lemma padding_item:
  "dump_padding_revision r = show_item (revision_record r [(''svn:log'', padding_message)], 1)"
proof -
  let ?n = "length (property_dump (Some ''svn:log'') (Some padding_message)) + length PROPS_END"
  have "int ?n < 2 ^ 31" by code_simp
  then have "c_int (c_int (int (length (property_dump (Some ''svn:log'') (Some padding_message)))) + int (length PROPS_END)) = int ?n"
    using c_int_id [of "int ?n"] by (simp add: c_int_add_left)
  then show ?thesis
    by (simp add: dump_padding_revision_def rev_headers_def revision_record_def Let_def property_strlen_dump dec_int_nat
        del: of_nat_add)
qed

text \<open>Records without a body: the directories of the user prefix, the header of the file.\<close>

definition prefix_record :: "string \<Rightarrow> drec" where
  "prefix_record path = Rec [(''Node-path'', path), (''Node-kind'', ''dir''), (''Node-action'', ''add'')] None"

lemma prefix_item: "prefix_node path = show_item (prefix_record path, 0)"
  by (simp add: prefix_node_def prefix_record_def)

lemma prefix_record_ok: "line_ok path \<Longrightarrow> item_ok (prefix_record path) \<and> rev_number (prefix_record path) = None"
  by (simp add: prefix_record_def rev_number_def hdr_ok_def line_ok_def)

lemma rec_clean_item:
  assumes "rec_ok r" "rec_clean r"
  shows "item_ok r" "rev_number r = None" "\<exists>k. show_rec r = show_item (r, k)"
proof -
  obtain hs b where r: "r = Rec hs b" by (cases r)
  have "\<exists>k. show_rec (Rec hs None) = show_item (Rec hs None, k)" by (rule exI [of _ 1]) simp
  moreover have "\<exists>k. show_rec (Rec hs (Some x)) = show_item (Rec hs (Some x), k)" for x
    by (rule exI [of _ 2]) (cases x, simp add: numeral_2_eq_2)
  ultimately show "\<exists>k. show_rec r = show_item (r, k)" using r by (cases b) auto
  show "rev_number r = None" using assms(2) by (auto simp: rec_clean_def rev_number_def)
  have "hs \<noteq> []" "list_all hdr_ok hs" using assms(2) r by (auto simp: rec_clean_def hdr_ok_def list_all_iff)
  then show "item_ok r" using assms(1) r by (cases b) (auto simp: header_len_def split: if_splits)
qed

section \<open>Steps that print records\<close>

text \<open>A step that prints records of which those of revisions have the given numbers.\<close>

definition streams :: "string list \<Rightarrow> de \<Rightarrow> de \<Rightarrow> bool" where
  "streams revs d d' \<longleftrightarrow>
     (\<exists>its. de_out d' = de_out d @ show_items its \<and> list_all (item_ok \<circ> fst) its \<and>
        List.map_filter (rev_number \<circ> fst) its = revs)"

lemma map_filter_append: "List.map_filter f (xs @ ys) = List.map_filter f xs @ List.map_filter f ys"
  by (simp add: List.map_filter_def)

lemma streams_trans: "streams a d d1 \<Longrightarrow> streams b d1 d2 \<Longrightarrow> streams (a @ b) d d2"
proof -
  assume "streams a d d1" "streams b d1 d2"
  then obtain xs ys where "de_out d1 = de_out d @ show_items xs" "list_all (item_ok \<circ> fst) xs"
    "List.map_filter (rev_number \<circ> fst) xs = a" "de_out d2 = de_out d1 @ show_items ys" "list_all (item_ok \<circ> fst) ys"
    "List.map_filter (rev_number \<circ> fst) ys = b" by (auto simp: streams_def)
  then show ?thesis unfolding streams_def by (intro exI [of _ "xs @ ys"]) (auto simp: show_items_def map_filter_append)
qed

lemma streams_same: "de_out d' = de_out d \<Longrightarrow> streams [] d d'"
  unfolding streams_def by (rule exI [of _ "[]"]) (simp add: show_items_def)

lemma streams_one:
  "item_ok r \<Longrightarrow> de_out d' = de_out d @ show_item (r, k) \<Longrightarrow>
   streams (case rev_number r of None \<Rightarrow> [] | Some v \<Rightarrow> [v]) d d'"
  unfolding streams_def by (rule exI [of _ "[(r, k)]"]) (auto simp: show_items_def split: option.split)

lemma streams_out: "de_out d' = de_out d1 \<Longrightarrow> streams revs d d1 \<Longrightarrow> streams revs d d'"
  by (simp add: streams_def)

lemma streams_from: "de_out d1 = de_out d \<Longrightarrow> streams revs d1 d' \<Longrightarrow> streams revs d d'"
  by (simp add: streams_def)

lemma printed_streams: "printed d d' \<Longrightarrow> streams [] d d'"
proof -
  assume "printed d d'"
  then obtain rs where rs: "de_out d' = de_out d @ concat (map show_rec rs)" "\<forall>r \<in> set rs. rec_ok r \<and> rec_clean r"
    by (auto simp: printed_def)
  from rs(2) have "\<exists>its. concat (map show_rec rs) = show_items its \<and> list_all (item_ok \<circ> fst) its \<and>
      List.map_filter (rev_number \<circ> fst) its = []"
  proof (induction rs)
    case (Cons r rs)
    then obtain its where its: "concat (map show_rec rs) = show_items its" "list_all (item_ok \<circ> fst) its"
      "List.map_filter (rev_number \<circ> fst) its = []" by (meson list.set_intros(2))
    obtain k where k: "show_rec r = show_item (r, k)" "item_ok r" "rev_number r = None"
      using rec_clean_item [of r] Cons.prems by auto
    show ?case by (rule exI [of _ "(r, k) # its"]) (use its k in \<open>auto simp: show_items_def comp_def\<close>)
  qed (rule exI [of _ "[]"], simp add: show_items_def)
  then show ?thesis using rs(1) by (auto simp: streams_def)
qed

lemma items_length: "list_all (item_ok \<circ> fst) its \<Longrightarrow> length its \<le> length (show_items its)"
proof (induction its)
  case (Cons it its)
  then show ?case using show_item_start(1) [of "fst it" "snd it"]
    by (cases "show_item it") (auto simp: show_items_def)
qed simp

section \<open>The user prefix\<close>

text \<open>The parts of a path between its slashes; the directories among them that the prefix names.\<close>

fun split_slash :: "string \<Rightarrow> string list" where
  "split_slash [] = [[]]"
| "split_slash (c # s) = (let ws = split_slash s in if c = slash then [] # ws else (c # hd ws) # tl ws)"

definition prefix_dirs :: "string \<Rightarrow> string list" where
  "prefix_dirs p = filter (\<lambda>w. w \<noteq> []) (butlast (split_slash p))"

definition as_dirs :: "string list \<Rightarrow> string" where
  "as_dirs ds = concat (map (\<lambda>w. w @ [slash]) ds)"

lemma split_slash_nonempty [simp]: "split_slash s \<noteq> []"
  by (cases s) (simp_all add: Let_def)

lemma split_slash_none: "slash \<notin> set s \<Longrightarrow> split_slash s = [s]"
  by (induction s) (auto simp: Let_def)

lemma split_slash_some: "slash \<notin> set w \<Longrightarrow> split_slash (w @ slash # r) = w # split_slash r"
  by (induction w) (auto simp: Let_def)

lemma join_path_dirs: "join_path (ds @ [w]) = as_dirs ds @ w"
proof (induction ds)
  case (Cons c ds)
  then show ?case by (cases "ds @ [w]") (auto simp: as_dirs_def)
qed (simp add: as_dirs_def)

lemma user_prefix_loop_spec:
  "user_prefix_loop (as_dirs ds) s out =
     (as_dirs (ds @ prefix_dirs s) @ last (split_slash s),
      out @ concat (map (\<lambda>i. prefix_node (join_path (take (Suc i) (ds @ prefix_dirs s)))) [length ds ..< length (ds @ prefix_dirs s)]))"
proof (induction "length s" arbitrary: ds s out rule: less_induct)
  case less
  show ?case
  proof (cases "slash \<in> set s")
    case False
    then show ?thesis by (simp add: user_prefix_loop.simps [of _ s] split_slash_none prefix_dirs_def)
  next
    case True
    then obtain w r where s: "s = w @ slash # r" "slash \<notin> set w" by (meson split_list_first)
    have parts: "takeWhile (\<lambda>c. c \<noteq> slash) s = w" "drop 1 (dropWhile (\<lambda>c. c \<noteq> slash) s) = r"
      using s by (auto simp: takeWhile_append dropWhile_append)
    have sp: "split_slash s = w # split_slash r" using s split_slash_some by simp
    show ?thesis
    proof (cases "w = []")
      case True
      then have "user_prefix_loop (as_dirs ds) s out = user_prefix_loop (as_dirs ds) r out"
        using s by (simp add: user_prefix_loop.simps [of _ "slash # r"])
      moreover have "prefix_dirs s = prefix_dirs r" using True sp by (simp add: prefix_dirs_def)
      ultimately show ?thesis using less [of r] s sp by simp
    next
      case False
      then have "hd s \<noteq> slash" using s by (cases w) auto
      then have "user_prefix_loop (as_dirs ds) s out =
          user_prefix_loop (as_dirs (ds @ [w])) r (out @ prefix_node (join_path (ds @ [w])))"
        using \<open>slash \<in> set s\<close> parts by (simp add: user_prefix_loop.simps [of _ s] Let_def join_path_dirs) (simp add: as_dirs_def)
      moreover have "prefix_dirs s = w # prefix_dirs r" using False sp by (simp add: prefix_dirs_def)
      ultimately show ?thesis using less [of r "ds @ [w]"] s sp by (simp add: upt_conv_Cons del: upt_Suc)
    qed
  qed
qed

text \<open>
  C24. Creating the user prefix is the same as splitting it at its slashes, dropping the empty parts,
  printing one directory node for every parent, outermost first, and joining what is
  left: afterwards the prefix has no leading and no doubled slash. The part behind the last slash
  stays as it is and gets no node.
\<close>

theorem dump_create_user_prefix_correct:
  "dump_create_user_prefix d =
     (case opt_prefix (de_opts d) of
        None \<Rightarrow> d
      | Some p \<Rightarrow>
          (let ds = prefix_dirs p
           in (de_print (concat (map (\<lambda>i. prefix_node (join_path (take (Suc i) ds))) [0 ..< length ds])) d)
                \<lparr>de_opts := (de_opts d)\<lparr>opt_prefix := Some (as_dirs ds @ last (split_slash p))\<rparr>\<rparr>))"
  using user_prefix_loop_spec [of "[]"] by (simp add: dump_create_user_prefix_def as_dirs_def Let_def split: option.split)

section \<open>What an edit keeps\<close>

text \<open>A session that does not obfuscate, and what the calls of an edit leave alone.\<close>

definition plain :: "de \<Rightarrow> bool" where
  "plain d \<longleftrightarrow> sflags (de_session d) AND SF_OBFUSCATE = 0"

definition kept :: "de \<Rightarrow> de \<Rightarrow> bool" where
  "kept d d' \<longleftrightarrow> de_opts d' = de_opts d \<and> de_logs d' = de_logs d \<and> de_log d' = de_log d \<and>
     (plain d \<longrightarrow> de_session d' = de_session d)"

definition quiet :: "de \<Rightarrow> de \<Rightarrow> bool" where
  "quiet d d' \<longleftrightarrow> kept d d' \<and> de_out d' = de_out d"

lemma kept_refl [simp]: "kept d d"
  by (simp add: kept_def)

lemma kept_trans: "kept d d1 \<Longrightarrow> kept d1 d2 \<Longrightarrow> kept d d2"
  by (auto simp: kept_def plain_def)

lemma quiet_trans: "quiet d d1 \<Longrightarrow> quiet d1 d2 \<Longrightarrow> quiet d d2"
  using kept_trans by (auto simp: quiet_def)

lemma quiet_refl [simp]: "quiet d d"
  by (simp add: quiet_def)

lemma quiet_fields:
  "de_opts d' = de_opts d \<Longrightarrow> de_logs d' = de_logs d \<Longrightarrow> de_log d' = de_log d \<Longrightarrow> de_session d' = de_session d \<Longrightarrow>
   de_out d' = de_out d \<Longrightarrow> quiet d d'"
  by (simp add: quiet_def kept_def)

lemma quiet_upd [simp]: "quiet d (upd_node i f d)"
  by (rule quiet_fields) (simp_all add: upd_node_def)

lemma quiet_obfuscate: "de_obfuscate ev path d = Some (p, d1) \<Longrightarrow> quiet d d1 \<and> (plain d \<longrightarrow> p = path)"
  by (auto simp: de_obfuscate_def quiet_def kept_def plain_def session_obfuscate_def split: option.splits prod.splits)

lemma quiet_create: "delta_create_node path p kind a n d = (i, d1) \<Longrightarrow> quiet d d1"
  by (auto simp: delta_create_node_def Let_def upd_node_def intro!: quiet_fields)

lemma quiet_forget_files: "forget_files ev path his d = Some d' \<Longrightarrow> quiet d d' \<and> de_nodes d' = de_nodes d"
proof (induction his arbitrary: d)
  case (Cons hi his)
  have s: "quiet d ((file_remove f d)\<lparr>de_store := store, delta_hash := h\<rparr>)" for f store h
    by (rule quiet_fields) (simp_all add: file_remove_def)
  show ?case
    using Cons.prems quiet_trans [OF s] Cons.IH
    by (fastforce simp: rhash_this_def file_remove_def split: if_splits option.splits)
qed simp

lemma quiet_forget_md5: "quiet d (forget_md5 ev path his d) \<and> de_nodes (forget_md5 ev path his d) = de_nodes d"
proof (induction his arbitrary: d)
  case (Cons hi his)
  have s: "quiet d (d\<lparr>md5_hash := h\<rparr>)" for h by (rule quiet_fields) simp_all
  show ?case using quiet_trans [OF s] Cons.IH by (auto simp: rhash_this_def)
qed simp

lemma quiet_add_path: "add_path path d = Some (e, d') \<Longrightarrow> quiet d d' \<and> de_nodes d' = de_nodes d"
  by (auto simp: add_path_def Let_def intro: quiet_fields split: if_splits prod.splits)

lemma quiet_mk_temp: "mk_temp ev s d = (r, d1) \<Longrightarrow> quiet d d1 \<and> de_nodes d1 = de_nodes d"
  by (auto simp: mk_temp_def Let_def intro: quiet_fields split: if_splits)

lemma quiet_load_props: "load_props ev i d = Some (e, d') \<Longrightarrow> quiet d d'"
  by (auto simp: load_props_def upd_node_def intro!: quiet_fields split: option.splits)

lemma quiet_save_props: "save_props ev i d = Some (e, d') \<Longrightarrow> quiet d d' \<and> de_nodes d' = de_nodes d"
  by (auto simp: save_props_def intro: quiet_fields split: option.splits)

lemma quiet_change_prop: "change_prop ev i n v d = Some (e, d') \<Longrightarrow> quiet d d'"
  by (auto simp: change_prop_def split: if_splits)

lemma quiet_textdelta:
  assumes "de_apply_textdelta ev i w d = Some (e, d')"
  shows "quiet d d'"
proof -
  obtain r d1 where m: "mk_temp ev ''/td/'' d = (r, d1)" by fastforce
  have q: "quiet d1 (upd_node i f d1)" "quiet d1 (upd_node i g ((upd_node i f d1)\<lparr>de_files := x, delta_hash := y\<rparr>))" for f g x y
    by (rule quiet_fields; simp add: upd_node_def)+
  show ?thesis using assms m quiet_trans [OF conjunct1 [OF quiet_mk_temp [OF m]] q(1)]
      quiet_trans [OF conjunct1 [OF quiet_mk_temp [OF m]] q(2)]
    by (auto simp: de_apply_textdelta_def Let_def split: option.splits if_splits)
qed

lemma quiet_delete_entry:
  assumes "de_delete_entry ev path0 p d = Some (e, d')"
  shows "quiet d d' \<and> (\<exists>path d1. de_obfuscate ev path0 d = Some (path, d1) \<and>
    de_nodes d' = de_nodes (snd (delta_create_node path p node_none CHR ''D'' True d1)))"
proof -
  obtain path d1 d3 where d1: "de_obfuscate ev path0 d = Some (path, d1)"
    and d3: "forget_files ev path (delta_hash (snd (delta_create_node path p node_none CHR ''D'' True d1)))
      (snd (delta_create_node path p node_none CHR ''D'' True d1)) = Some d3"
    and rest: "\<exists>store repo. d' = (forget_md5 ev path (md5_hash d3) d3)\<lparr>de_store := store\<rparr> \<or>
      d' = (forget_md5 ev path (md5_hash d3) d3)\<lparr>de_store := store, de_repo := repo\<rparr>"
    using assms unfolding de_delete_entry_def Let_def by (auto split: option.splits prod.splits if_splits)
  have n: "de_nodes d' = de_nodes (forget_md5 ev path (md5_hash d3) d3)" and q: "quiet (forget_md5 ev path (md5_hash d3) d3) d'"
    using rest by (auto intro!: quiet_fields)
  have "quiet d1 (snd (delta_create_node path p node_none CHR ''D'' True d1))"
    using quiet_create by (metis prod.collapse)
  then show ?thesis
    using n q d1 quiet_obfuscate [OF d1] quiet_forget_files [OF d3] quiet_forget_md5 quiet_trans by metis
qed

lemma quiet_absent: "de_absent ev p d = Some (e, d') \<Longrightarrow> quiet d d' \<and> de_nodes d' = de_nodes d"
  using quiet_obfuscate obfuscate_same by (auto simp: de_absent_def)

lemma quiet_add_node:
  assumes "de_obfuscate ev path0 d = Some (path, d1)" "delta_create_node path p kind a True d1 = (i, d2)"
  shows "quiet d d2"
  using quiet_trans [OF conjunct1 [OF quiet_obfuscate [OF assms(1)]] quiet_create [OF assms(2)]] .

lemma quiet_add_directory: "de_add_directory ev path0 p d = Some (e, d') \<Longrightarrow> quiet d d'"
  unfolding de_add_directory_def
  by (auto split: option.splits prod.splits
      intro: quiet_trans [OF quiet_add_node] quiet_trans [OF quiet_upd conjunct1 [OF quiet_add_path]])

lemma quiet_add_file: "de_add_file ev path0 p d = Some (e, d') \<Longrightarrow> quiet d d'"
  unfolding de_add_file_def set_action_def Let_def
  by (auto split: option.splits prod.splits if_splits
      intro: quiet_trans [OF quiet_add_node] quiet_trans [OF quiet_upd conjunct1 [OF quiet_add_path]]
        quiet_trans [OF quiet_upd] quiet_trans [OF quiet_upd quiet_trans [OF quiet_upd conjunct1 [OF quiet_add_path]]])

lemma quiet_open_directory: "de_open_directory ev path0 p d = Some (e, d') \<Longrightarrow> quiet d d'"
  unfolding de_open_directory_def
  by (auto split: option.splits prod.splits
      intro: quiet_trans [OF conjunct1 [OF quiet_obfuscate] quiet_trans [OF quiet_create quiet_load_props]])

lemma quiet_open_file: "de_open_file ev path0 p d = Some (e, d') \<Longrightarrow> quiet d d'"
  unfolding de_open_file_def
  by (auto split: option.splits prod.splits
      intro: quiet_trans [OF conjunct1 [OF quiet_obfuscate] quiet_trans [OF quiet_create quiet_load_props]])

lemma quiet_open_root: "de_open_root ev d = Some (e, d') \<Longrightarrow> quiet d d'"
  by (auto simp: de_open_root_def delta_create_node_no_parent_def Let_def intro!: quiet_fields)

lemmas quiet_calls = quiet_open_root quiet_open_file quiet_open_directory quiet_add_file quiet_add_directory quiet_change_prop
  quiet_textdelta quiet_absent [THEN conjunct1] quiet_save_props [THEN conjunct1] quiet_delete_entry [THEN conjunct1]

lemma run_op_quiet:
  assumes "run_op ev op (bs, d) = Some (e, bs', d')" "op \<noteq> Close_edit"
  shows "quiet d d'"
  using assms
  by (cases op) (auto simp: with_parent_def push_node_def pop_node_def de_change_dir_prop_def de_change_file_prop_def
      de_close_directory_def de_close_file_def split: list.splits dest: quiet_calls)

lemma kept_fields:
  "de_opts d' = de_opts d \<Longrightarrow> de_logs d' = de_logs d \<Longrightarrow> de_log d' = de_log d \<Longrightarrow> de_session d' = de_session d \<Longrightarrow> kept d d'"
  by (simp add: kept_def)

lemma post_dump_kept: "post_dump ev path a d = Some (e, d') \<Longrightarrow> kept d d'"
  by (auto simp: post_dump_def delta_create_node_no_parent_def framedp_def intro!: kept_fields dest!: framed_dump_node)

lemma close_deleted_kept:
  assumes "close_deleted ev path a d = Some (e, d')"
  shows "kept d d'"
proof -
  define f where "f = (case rhash_get (delta_hash d) path of
      None \<Rightarrow> d | Some n \<Rightarrow> (file_remove n d)\<lparr>delta_hash := rhash_set (delta_hash d) path None\<rparr>)"
  have f: "kept d f" "kept d (f\<lparr>de_repo := r\<rparr>)" for r
    by (rule kept_fields; simp add: f_def file_remove_def split: option.split)+
  show ?thesis
    using assms f kept_trans [OF f(1) post_dump_kept] kept_trans [OF f(2) post_dump_kept]
    unfolding close_deleted_def Let_def f_def [symmetric]
    by (auto split: if_splits option.splits bool.splits prod.splits)
qed

lemma close_edit_kept:
  assumes "de_close_edit ev d = Some (SVN_NO_ERROR, d')"
  shows "kept d d'"
proof -
  obtain root' d1 and h :: "changed_path apr_hash" where d1: "delta_dump_node_recursive (Suc (length (de_nodes d))) ev root' d = Some (SVN_NO_ERROR, d1)"
    and fold: "de_fold (\<lambda>(path, log) d. if cp_action log = CHR ''D'' then close_deleted ev path (cp_action log) d
      else Some (SVN_NO_ERROR, d)) h d1 = Some (SVN_NO_ERROR, d')"
    using assms unfolding de_close_edit_def
    by (auto simp del: delta_dump_node_recursive.simps elim!: de_bind_okE split: option.splits)
  have "kept d d1" using dump_recursive_stat [OF d1] by (simp add: stat_def kept_def)
  moreover have "kept d1 d' \<and> True"
    by (rule de_fold_steps [OF fold, where I = "\<lambda>_. True"])
      (auto intro: kept_trans close_deleted_kept split: if_splits)
  ultimately show ?thesis using kept_trans by blast
qed

lemma run_op_kept:
  assumes "run_op ev op (bs, d) = Some (SVN_NO_ERROR, bs', d')"
  shows "kept d d'"
  using assms run_op_quiet [OF assms] close_edit_kept by (cases "op = Close_edit") (auto simp: quiet_def)

lemma run_ops_kept:
  "run_ops ev ops s = Some (SVN_NO_ERROR, d') \<Longrightarrow> kept (snd s) d'"
proof (induction ops arbitrary: s)
  case (Cons op ops)
  then obtain bs1 d1 where s: "run_op ev op (fst s, snd s) = Some (SVN_NO_ERROR, bs1, d1)"
    "run_ops ev ops (bs1, d1) = Some (SVN_NO_ERROR, d')" by (auto split: option.splits if_splits)
  show ?case using kept_trans [OF run_op_kept [OF s(1)]] Cons.IH [OF s(2)] by simp
qed simp

section \<open>What an edit prints\<close>

definition log_clean :: "log_revision \<Rightarrow> bool" where
  "log_clean l \<longleftrightarrow> rev_small l \<and>
     (\<forall>h. lr_changed_paths l = Some h \<longrightarrow>
        (\<forall>(p, c) \<in> set h. line_ok p \<and> cp_action c \<in> {CHR ''A'', CHR ''M'', CHR ''D'', CHR ''R''} \<and>
           (\<forall>cf. cp_copyfrom_path c = Some cf \<longrightarrow> line_ok cf)))"

definition prefix_line :: "dump_options \<Rightarrow> bool" where
  "prefix_line opts \<longleftrightarrow> (\<forall>p. opt_prefix opts = Some p \<longrightarrow> line_ok p)"

text \<open>The paths of the calls, which like all paths of Subversion hold no newline.\<close>

fun op_clean :: "edit_op \<Rightarrow> bool" where
  "op_clean (Delete_entry p) = line_ok p"
| "op_clean (Add_directory p) = line_ok p"
| "op_clean (Open_directory p) = line_ok p"
| "op_clean (Add_file p) = line_ok p"
| "op_clean (Open_file p) = line_ok p"
| "op_clean _ = True"

definition clean :: "env \<Rightarrow> de \<Rightarrow> bool" where
  "clean ev d \<longleftrightarrow> plain d \<and> prefix_line (de_opts d) \<and> log_clean (de_log d) \<and> edit_ok ev d \<and>
     (\<forall>m. line_ok (md5_to_cstring ev m))"

lemma user_path_line: "prefix_line opts \<Longrightarrow> line_ok p \<Longrightarrow> line_ok (user_path opts p)"
  by (auto simp: prefix_line_def user_path_def line_ok_def split: option.split)

lemma local_source_line: "line_ok cf \<Longrightarrow> line_ok (local_source pre cf)"
  by (auto simp: local_source_def delta_get_local_copyfrom_path_def line_ok_def dest!: set_dropWhileD in_set_dropD)

text \<open>Whether a node is in order depends on its path, action and copy source.\<close>

definition node_line :: "node \<Rightarrow> bool" where
  "node_line n \<longleftrightarrow> act_ok n \<and> line_ok (n_path n) \<and> (\<forall>cf. n_copyfrom_path n = Some cf \<longrightarrow> line_ok cf)"

lemma node_line_clean:
  assumes "node_line n" "prefix_line (de_opts d)" "\<forall>m. line_ok (md5_to_cstring ev m)"
  shows "act_ok n \<and> node_clean ev d n"
  using assms user_path_line local_source_line by (auto simp: node_line_def node_clean_def split: option.split)

lemma edit_ok_kept: "kept d d' \<Longrightarrow> plain d \<Longrightarrow> de_nodes d' = de_nodes d \<Longrightarrow> edit_ok ev d' = edit_ok ev d"
  by (intro edit_ok_cong) (simp_all add: kept_def)

lemma clean_kept: "clean ev d \<Longrightarrow> kept d d' \<Longrightarrow> edit_ok ev d' \<Longrightarrow> clean ev d'"
  unfolding clean_def kept_def plain_def by simp

lemma clean_same: "clean ev d \<Longrightarrow> quiet d d' \<Longrightarrow> de_nodes d' = de_nodes d \<Longrightarrow> clean ev d'"
  using clean_kept [of ev d d'] edit_ok_kept [of d d' ev] unfolding clean_def quiet_def by blast

lemma clean_upd:
  assumes "clean ev d" "\<And>n. n_action (f n) = n_action n" "\<And>n. n_path (f n) = n_path n" "\<And>n. n_copyfrom_path (f n) = n_copyfrom_path n"
  shows "clean ev (upd_node i f d)"
proof (rule clean_kept [OF assms(1)])
  have "node_clean ev (upd_node i f d) (f n)" if "node_clean ev d n" for n
    using that assms by (simp add: node_clean_def clean_def upd_node_def split: option.splits)
  moreover have "node_clean ev (upd_node i f d) n" if "node_clean ev d n" for n
    using that node_clean_cong [of "upd_node i f d" d ev n] by (simp add: upd_node_def)
  moreover have "nd (upd_node i f d) j = (if j = i then f (nd d j) else nd d j)" if "j < length (de_nodes d)" for j
    using that by (simp add: upd_node_def)
  moreover have "length (de_nodes (upd_node i f d)) = length (de_nodes d)" by (simp add: upd_node_def)
  ultimately show "edit_ok ev (upd_node i f d)" using assms(1,2) by (simp add: clean_def edit_ok_def act_ok_def)
qed (use quiet_upd in \<open>simp add: quiet_def\<close>)

lemma create_node_fields:
  assumes "delta_create_node path p kind a needed d = (i, d2)"
  shows "length (de_nodes d2) = Suc (length (de_nodes d))" "i = length (de_nodes d)"
    "n_path (nd d2 i) = path" "n_action (nd d2 i) = a" "n_copyfrom_path (nd d2 i) = None"
    "\<And>j. j < length (de_nodes d) \<Longrightarrow> n_path (nd d2 j) = n_path (nd d j) \<and> n_action (nd d2 j) = n_action (nd d j) \<and>
       n_copyfrom_path (nd d2 j) = n_copyfrom_path (nd d j) \<and> n_md5sum (nd d2 j) = n_md5sum (nd d j)"
proof -
  let ?e = "d\<lparr>de_nodes := de_nodes d @ [node_make path (n_cp_info (nd d p)) (Some p) kind a needed]\<rparr>"
  have d2: "d2 = upd_node p (\<lambda>m. m\<lparr>n_children := n_children m @ [i]\<rparr>) ?e" and i: "i = length (de_nodes d)"
    using assms by (auto simp: delta_create_node_def Let_def upd_node_def)
  have e: "n_path (nd d2 j) = n_path (nd ?e j)" "n_action (nd d2 j) = n_action (nd ?e j)"
    "n_copyfrom_path (nd d2 j) = n_copyfrom_path (nd ?e j)" "n_md5sum (nd d2 j) = n_md5sum (nd ?e j)"
    if "j < length (de_nodes ?e)" for j
    unfolding d2 using that by (cases "j = p"; simp add: upd_node_def)+
  show "i = length (de_nodes d)" by (rule i)
  show "length (de_nodes d2) = Suc (length (de_nodes d))" unfolding d2 by (simp add: upd_node_def)
  show "n_path (nd d2 i) = path" "n_action (nd d2 i) = a" "n_copyfrom_path (nd d2 i) = None"
    using e [of i] i by (simp_all add: node_make_def)
  show "n_path (nd d2 j) = n_path (nd d j) \<and> n_action (nd d2 j) = n_action (nd d j) \<and>
      n_copyfrom_path (nd d2 j) = n_copyfrom_path (nd d j) \<and> n_md5sum (nd d2 j) = n_md5sum (nd d j)"
    if "j < length (de_nodes d)" for j using e [of j] that by (simp add: nth_append)
qed

lemma clean_create:
  assumes "clean ev d" "delta_create_node path p kind a needed d = (i, d2)" "node_line (g (nd d2 i))"
  shows "clean ev (upd_node i g d2)"
proof (rule clean_kept [OF assms(1)])
  let ?d = "upd_node i g d2"
  note c = create_node_fields [OF assms(2)]
  show k: "kept d ?d" using quiet_trans [OF quiet_create [OF assms(2)] quiet_upd] by (simp add: quiet_def)
  have cong: "node_clean ev ?d n = node_clean ev d n" for n
    using k assms(1) by (intro node_clean_cong) (simp_all add: kept_def clean_def)
  have new: "nd ?d i = g (nd d2 i)" using c by (simp add: upd_node_def)
  show "edit_ok ev ?d"
    unfolding edit_ok_def
  proof (intro allI impI)
    fix j assume "j < length (de_nodes ?d)"
    then consider "j = i" | "j < length (de_nodes d)" using c by (auto simp: upd_node_def less_Suc_eq)
    then show "act_ok (nd ?d j) \<and> node_clean ev ?d (nd ?d j)"
    proof cases
      case 1
      then show ?thesis using node_line_clean [OF assms(3), of d ev] assms(1) new cong by (simp add: clean_def)
    next
      case 2
      then have "nd ?d j = nd d2 j" using c(2) by (simp add: upd_node_def)
      then show ?thesis using 2 c(6) [OF 2] assms(1) cong
        by (auto simp: clean_def edit_ok_def act_ok_def node_clean_def)
    qed
  qed
qed

lemma upd_node_none: "upd_node i (\<lambda>n. n) d = d"
  by (simp add: upd_node_def)

lemma clean_open:
  assumes "clean ev d" "delta_create_node path p kind a needed d = (i, d2)" "line_ok path"
    "a \<in> {CHR ''A'', CHR ''M'', CHR ''D'', CHR ''R''}"
  shows "clean ev d2"
  using clean_create [OF assms(1,2), of "\<lambda>n. n"] create_node_fields(3-5) [OF assms(2)] assms(3,4)
  by (auto simp: upd_node_none node_line_def act_ok_def)

lemma log_entry_clean:
  assumes "log_clean (de_log d)" "de_log_entry d path = Some (Some l)"
  shows "cp_action l \<in> {CHR ''A'', CHR ''M'', CHR ''D'', CHR ''R''}" "\<And>cf. cp_copyfrom_path l = Some cf \<Longrightarrow> line_ok cf"
  using assms by (fastforce simp: log_clean_def de_log_entry_def apr_hash_get_def dest!: map_of_SomeD)+

lemma clean_add:
  assumes "clean ev d" "delta_create_node path p kind a needed d = (i, d2)" "line_ok path" "de_log_entry d2 path = Some log"
  shows "clean ev (upd_node i (node_from_log log keep) d2)"
proof (rule clean_create [OF assms(1,2)])
  have "log_clean (de_log d2)" using assms(1) quiet_create [OF assms(2)] by (simp add: clean_def quiet_def kept_def)
  note l = log_entry_clean [OF this, of path]
  show "node_line (node_from_log log keep (nd d2 i))"
    using create_node_fields(3-5) [OF assms(2)] assms(3,4) l
    by (auto simp: node_line_def act_ok_def node_from_log_def Let_def split: option.splits)
qed

lemma clean_obfuscate: "clean ev d \<Longrightarrow> de_obfuscate ev p d = Some (path, d1) \<Longrightarrow> clean ev d1 \<and> path = p"
  using clean_same quiet_obfuscate obfuscate_same by (metis clean_def)

lemma clean_add_path: "clean ev d \<Longrightarrow> add_path path d = Some (e, d') \<Longrightarrow> clean ev d'"
  using clean_same quiet_add_path by blast

lemma clean_delete_entry:
  assumes "clean ev d" "line_ok path" "de_delete_entry ev path p d = Some (e, d')"
  shows "clean ev d'"
proof -
  obtain d1 where d1: "de_obfuscate ev path d = Some (path, d1)" "clean ev d1"
    "de_nodes d' = de_nodes (snd (delta_create_node path p node_none CHR ''D'' True d1))" and q: "quiet d d'"
    using quiet_delete_entry [OF assms(3)] clean_obfuscate [OF assms(1)] by metis
  obtain i d2 where d2: "delta_create_node path p node_none CHR ''D'' True d1 = (i, d2)" by fastforce
  have c: "clean ev d2" by (rule clean_open [OF d1(2) d2 assms(2)]) simp
  have "quiet d d2" using quiet_trans [OF conjunct1 [OF quiet_obfuscate [OF d1(1)]] quiet_create [OF d2]] .
  then have "de_opts d' = de_opts d2" "de_session d' = de_session d2"
    using q assms(1) by (auto simp: quiet_def kept_def clean_def)
  then have "edit_ok ev d' = edit_ok ev d2" using d1(3) d2 by (intro edit_ok_cong) simp_all
  then show ?thesis using clean_kept [OF assms(1)] q c by (simp add: quiet_def clean_def)
qed

lemma clean_add_directory:
  assumes "clean ev d" "line_ok path" "de_add_directory ev path p d = Some (e, d')"
  shows "clean ev d'"
proof -
  obtain d1 i d2 log where s: "clean ev d1" "delta_create_node path p node_dir nul True d1 = (i, d2)"
    "de_log_entry d2 path = Some log" "add_path path (upd_node i (node_from_log log CPI_FAILED_OUTSIDE) d2) = Some (e, d')"
    using assms clean_obfuscate by (fastforce simp: de_add_directory_def split: option.splits prod.splits)
  show ?thesis by (rule clean_add_path [OF clean_add [OF s(1,2) assms(2) s(3)] s(4)])
qed

lemma clean_add_file:
  assumes "clean ev d" "line_ok path" "de_add_file ev path p d = Some (e, d')"
  shows "clean ev d'"
proof -
  obtain d1 i d2 log where s: "clean ev d1" "delta_create_node path p node_file nul True d1 = (i, d2)"
    "de_log_entry d2 path = Some log"
    "(let d3 = upd_node i (node_from_log log CPI_FAILED) d2;
          d4 = (if cpi_and (n_cp_info (nd d3 i)) CPI_FAILED then set_action i CHR ''A'' d3 else d3)
      in add_path path d4) = Some (e, d')"
    using assms clean_obfuscate unfolding de_add_file_def by (fastforce split: option.splits prod.splits)
  let ?d3 = "upd_node i (node_from_log log CPI_FAILED) d2"
  have c: "clean ev ?d3" by (rule clean_add [OF s(1,2) assms(2) s(3)])
  have "set_action i CHR ''A'' ?d3 = upd_node i (\<lambda>n. (node_from_log log CPI_FAILED n)\<lparr>n_action := CHR ''A''\<rparr>) d2"
    by (cases "i < length (de_nodes d2)") (simp_all add: set_action_def upd_node_def list_update_beyond)
  moreover have "node_line (node_from_log log CPI_FAILED (nd d2 i)\<lparr>n_action := CHR ''A''\<rparr>)"
    using log_entry_clean [of d2 path] s(1,3) quiet_create [OF s(2)] create_node_fields(3-5) [OF s(2)] assms(2)
    by (auto simp: node_line_def act_ok_def node_from_log_def Let_def clean_def quiet_def kept_def split: option.splits)
  ultimately have "clean ev (set_action i CHR ''A'' ?d3)" using clean_create [OF s(1,2)] by simp
  then show ?thesis using s(4) c clean_add_path unfolding Let_def by (auto split: if_splits)
qed

lemma clean_load_props:
  assumes "clean ev d" "load_props ev i d = Some (e, d')"
  shows "clean ev d'"
proof -
  obtain props store where d': "d' = upd_node i (\<lambda>n. n\<lparr>n_properties := props\<rparr>) (d\<lparr>de_store := store\<rparr>)"
    using assms(2) by (auto simp: load_props_def split: option.splits)
  have "clean ev (d\<lparr>de_store := store\<rparr>)" by (rule clean_same [OF assms(1) quiet_fields]) simp_all
  then show ?thesis unfolding d' by (rule clean_upd) simp_all
qed

lemma clean_open_directory:
  assumes "clean ev d" "line_ok path" "de_open_directory ev path p d = Some (e, d')"
  shows "clean ev d'"
proof -
  obtain d1 i d2 where s: "clean ev d1" "delta_create_node path p node_dir CHR ''M'' False d1 = (i, d2)"
    "load_props ev i d2 = Some (e, d')"
    using assms clean_obfuscate by (fastforce simp: de_open_directory_def split: option.splits prod.splits)
  have "clean ev d2" by (rule clean_open [OF s(1,2) assms(2)]) simp
  then show ?thesis by (rule clean_load_props [OF _ s(3)])
qed

lemma clean_open_file:
  assumes "clean ev d" "line_ok path" "de_open_file ev path p d = Some (e, d')"
  shows "clean ev d'"
proof -
  obtain d1 i d2 where s: "clean ev d1" "delta_create_node path p node_file CHR ''M'' False d1 = (i, d2)"
    "load_props ev i d2 = Some (e, d')"
    using assms clean_obfuscate by (fastforce simp: de_open_file_def split: option.splits prod.splits)
  have "clean ev d2" by (rule clean_open [OF s(1,2) assms(2)]) simp
  then show ?thesis by (rule clean_load_props [OF _ s(3)])
qed

lemma clean_change_prop:
  assumes "clean ev d" "change_prop ev i name val d = Some (e, d')"
  shows "clean ev d'"
  using assms clean_upd [OF assms(1), of _ i]
  by (cases val) (auto simp: change_prop_def split: if_splits)

lemma clean_textdelta:
  assumes "clean ev d" "de_apply_textdelta ev i w d = Some (e, d')"
  shows "clean ev d'"
proof -
  obtain r d1 where m: "mk_temp ev ''/td/'' d = (r, d1)" by fastforce
  have 1: "clean ev d1" using clean_same [OF assms(1)] quiet_mk_temp [OF m] by blast
  have 2: "clean ev (upd_node i (\<lambda>n. n\<lparr>n_filename := f\<rparr>) d1)" for f by (rule clean_upd [OF 1]) simp_all
  have 3: "clean ev ((upd_node i (\<lambda>n. n\<lparr>n_filename := f\<rparr>) d1)\<lparr>de_files := x, delta_hash := y\<rparr>)" for f x y
    by (rule clean_same [OF 2 [of f] quiet_fields]) simp_all
  have 4: "clean ev (upd_node i (\<lambda>n. n\<lparr>n_md5sum := m, n_old_filename := g, n_applied_delta := True, n_dump_needed := True\<rparr>)
      ((upd_node i (\<lambda>n. n\<lparr>n_filename := f\<rparr>) d1)\<lparr>de_files := x, delta_hash := y\<rparr>))" for f g m x y
    by (rule clean_upd [OF 3]) simp_all
  show ?thesis using assms(2) m 2 4
    by (auto simp: de_apply_textdelta_def Let_def split: option.splits if_splits)
qed

lemma clean_open_root: "clean ev d \<Longrightarrow> de_open_root ev d = Some (e, d') \<Longrightarrow> clean ev d'"
proof -
  assume c: "clean ev d" "de_open_root ev d = Some (e, d')"
  let ?n = "node_make [slash] CPI_NONE None (junk_kind ev) CHR ''M'' False"
  have n: "de_nodes d' = de_nodes d @ [?n]" and q: "quiet d d'"
    using c(2) quiet_open_root by (auto simp: de_open_root_def delta_create_node_no_parent_def Let_def)
  have "node_line ?n" by (simp add: node_make_def node_line_def act_ok_def line_ok_def)
  then have "act_ok ?n \<and> node_clean ev d ?n" using c(1) by (intro node_line_clean) (simp_all add: clean_def)
  moreover have "node_clean ev d' x = node_clean ev d x" for x
    using q c(1) by (intro node_clean_cong) (auto simp: quiet_def kept_def clean_def)
  ultimately have "edit_ok ev d'" using c(1) n by (auto simp: clean_def edit_ok_def nth_append less_Suc_eq)
  then show ?thesis using clean_kept [OF c(1)] q by (simp add: quiet_def)
qed

lemma clean_quiet_call:
  "clean ev d \<Longrightarrow> quiet d d' \<and> de_nodes d' = de_nodes d \<Longrightarrow> clean ev d'"
  using clean_same by blast

lemmas clean_calls = clean_delete_entry clean_add_directory clean_add_file clean_open_directory clean_open_file

lemma clean_close_edit:
  assumes "clean ev d" "de_close_edit ev d = Some (SVN_NO_ERROR, d')"
  shows "clean ev d' \<and> streams [] d d'"
proof -
  obtain h where h: "lr_changed_paths (de_log d) = Some h"
    using close_edit_kept [OF assms(2)] assms(2) dump_recursive_stat
    by (fastforce simp: de_close_edit_def stat_def simp del: delta_dump_node_recursive.simps split: option.splits elim!: de_bind_okE)
  have "\<forall>(path, log) \<in> set h. line_ok (user_path (de_opts d) path)"
    using assms(1) h user_path_line by (fastforce simp: clean_def log_clean_def)
  then have "printed d d' \<and> edit_ok ev d'"
    using de_close_edit_printed [OF assms(2) _ _ h] assms(1) by (simp add: clean_def)
  then show ?thesis using clean_kept [OF assms(1) close_edit_kept [OF assms(2)]] printed_streams by blast
qed

lemma run_op_clean:
  assumes "clean ev d" "op_clean op" "run_op ev op (bs, d) = Some (SVN_NO_ERROR, bs', d')"
  shows "clean ev d' \<and> streams [] d d'"
proof (cases "op = Close_edit")
  case True
  then show ?thesis using clean_close_edit [OF assms(1)] assms(3) by auto
next
  case False
  have q: "quiet d d'" by (rule run_op_quiet [OF assms(3) False])
  have "clean ev d'"
  proof (cases op)
    case Open_root
    then show ?thesis using assms clean_open_root by auto
  next
    case (Change_dir_prop n v)
    then show ?thesis using assms clean_change_prop by (auto simp: de_change_dir_prop_def with_parent_def split: list.splits)
  next
    case (Change_file_prop n v)
    then show ?thesis using assms clean_change_prop by (auto simp: de_change_file_prop_def with_parent_def split: list.splits)
  next
    case (Apply_textdelta w)
    then show ?thesis using assms clean_textdelta by (auto simp: with_parent_def split: list.splits)
  qed (use False assms in \<open>auto simp: with_parent_def push_node_def pop_node_def de_close_directory_def de_close_file_def
      split: list.splits dest: clean_calls quiet_save_props quiet_absent intro: clean_quiet_call\<close>)
  then show ?thesis using q streams_same by (simp add: quiet_def)
qed

lemma run_ops_clean:
  "run_ops ev ops s = Some (SVN_NO_ERROR, d') \<Longrightarrow> clean ev (snd s) \<Longrightarrow> list_all op_clean ops \<Longrightarrow>
   clean ev d' \<and> streams [] (snd s) d'"
proof (induction ops arbitrary: s)
  case (Cons op ops)
  then obtain bs1 d1 where s: "run_op ev op (fst s, snd s) = Some (SVN_NO_ERROR, bs1, d1)"
    "run_ops ev ops (bs1, d1) = Some (SVN_NO_ERROR, d')" by (auto split: option.splits if_splits)
  have "clean ev d1 \<and> streams [] (snd s) d1" by (rule run_op_clean [OF Cons.prems(2) _ s(1)]) (use Cons.prems(3) in simp)
  then show ?case using Cons.IH [OF s(2)] Cons.prems(3) streams_trans [of "[]" "snd s" d1 "[]" d'] by simp
qed (simp add: streams_same)

end
