(* ===== verification/Dump_Loop.thy ===== *)
theory Dump_Loop
  imports Dump_Stream
begin

text \<open>
  The whole dump. What the server answers is bounded by a contract; under it the main loop ends, and
  the output of a successful dump is a stream of records whose revision numbers follow each other
  without a gap.
\<close>

unbundle bit_operations_syntax

section \<open>The contract of the server\<close>

definition raw_revision :: "raw_log \<Rightarrow> log_revision" where
  "raw_revision rl =
     \<lparr>lr_revision = rl_revision rl, lr_author = rl_author rl, lr_date = rl_date rl, lr_message = rl_message rl, lr_changed_paths = None\<rparr>"

definition raw_clean :: "raw_log \<Rightarrow> bool" where
  "raw_clean rl \<longleftrightarrow> rev_small (raw_revision rl) \<and>
     (\<forall>es. rl_changed_paths rl = Some es \<longrightarrow>
        (\<forall>(key, c) \<in> set es. line_ok key \<and> cp_action c \<in> {CHR ''A'', CHR ''M'', CHR ''D'', CHR ''R''} \<and>
           (\<forall>cf. cp_copyfrom_path c = Some cf \<longrightarrow> line_ok cf)))"

text \<open>
  Paths without newlines, the documented actions and revision properties below 2 GiB; log entries from the
  asked range on; and a log from revision 0 on that begins with it, or has at least an entry where a part of
  the repository is asked for, whose directory is not there in revision 0.
\<close>

definition server_clean :: "server \<Rightarrow> bool" where
  "server_clean sv \<longleftrightarrow>
     (\<forall>r e n rls. sv_get_log sv r e n = Some rls \<longrightarrow> list_all raw_clean rls) \<and>
     (\<forall>src dest empty text. list_all op_clean (diff_ops (sv_do_diff sv src dest empty text)))"

definition server_forward :: "server \<Rightarrow> bool" where
  "server_forward sv \<longleftrightarrow> (\<forall>r e rls. sv_get_log sv r e 1 = Some rls \<longrightarrow> (\<forall>rl \<in> set rls. r \<le> rl_revision rl))"

definition server_logs :: "server \<Rightarrow> session \<Rightarrow> bool" where
  "server_logs sv s \<longleftrightarrow>
     (\<forall>e rls. sv_get_log sv 0 e 0 = Some rls \<longrightarrow> rls \<noteq> [] \<and> (prefix s = [] \<longrightarrow> rl_revision (hd rls) = 0))"

text \<open>The text that the UUID is printed as, which is read from freed memory, is a line.\<close>

definition uuid_line :: "env \<Rightarrow> server \<Rightarrow> bool" where
  "uuid_line ev sv \<longleftrightarrow> (\<forall>u t. sv_uuid sv = Some u \<longrightarrow> env_stale ev (Freed u) = Some t \<longrightarrow> line_ok t)"

subsection \<open>Logs\<close>

definition paths_clean :: "changed_path apr_hash \<Rightarrow> bool" where
  "paths_clean h \<longleftrightarrow>
     (\<forall>(key, c) \<in> set h. line_ok key \<and> cp_action c \<in> {CHR ''A'', CHR ''M'', CHR ''D'', CHR ''R''} \<and>
        (\<forall>cf. cp_copyfrom_path c = Some cf \<longrightarrow> line_ok cf))"

lemma raw_clean_paths: "raw_clean rl \<longleftrightarrow> rev_small (raw_revision rl) \<and> (\<forall>es. rl_changed_paths rl = Some es \<longrightarrow> paths_clean es)"
  by (simp add: raw_clean_def paths_clean_def)

lemma log_clean_paths: "log_clean l \<longleftrightarrow> rev_small l \<and> (\<forall>h. lr_changed_paths l = Some h \<longrightarrow> paths_clean h)"
  by (simp add: log_clean_def paths_clean_def)

lemma apr_hash_put_subset: "set (apr_hash_set h k (Some v)) \<subseteq> insert (k, v) (set h)"
  by (induction h) (auto simp: apr_hash_set_def split: if_splits)

lemma line_ok_drop: "line_ok p \<Longrightarrow> line_ok (drop n p)"
  by (auto simp: line_ok_def dest: in_set_dropD)

lemma log_local_key_line: "line_ok key \<Longrightarrow> line_ok (log_local_key pre key)"
  using line_ok_drop by (auto simp: log_local_key_def Let_def line_ok_def [of "[]"])

lemma log_receive_paths_clean:
  assumes "log_receive_paths fuel es (h, s) = Some (h', s')" "sflags s AND SF_OBFUSCATE = 0" "paths_clean es" "paths_clean h"
  shows "paths_clean h' \<and> s' = s"
  using assms
proof (induction es arbitrary: h)
  case (Cons e es)
  obtain key c where e: "e = (key, c)" by (cases e)
  have ec: "line_ok key" "cp_action c \<in> {CHR ''A'', CHR ''M'', CHR ''D'', CHR ''R''}"
    "\<And>cf. log_copyfrom (cp_copyfrom_path c) = Some cf \<Longrightarrow> line_ok cf"
    using Cons.prems(3) e line_ok_drop by (auto simp: paths_clean_def log_copyfrom_def)
  let ?h = "apr_hash_set h (log_local_key (prefix s) key) (Some (c\<lparr>cp_copyfrom_path := log_copyfrom (cp_copyfrom_path c)\<rparr>))"
  have "paths_clean ?h"
    using apr_hash_put_subset [of h] Cons.prems(4) ec log_local_key_line [OF ec(1)]
    unfolding paths_clean_def by fastforce
  moreover have "paths_clean es" using Cons.prems(3) by (simp add: paths_clean_def)
  moreover have "log_receive_path fuel e (h, s) = Some (if log_skip (prefix s) key then h else ?h, s)"
    using Cons.prems(2) e by (simp add: log_receive_path_def session_obfuscate_def split: option.split)
  ultimately show ?case using Cons by (auto split: if_splits)
qed simp

lemma log_receiver_clean:
  assumes "log_receiver fuel s rl = Some (l, s')" "sflags s AND SF_OBFUSCATE = 0" "raw_clean rl"
  shows "log_clean l \<and> s' = s"
proof -
  obtain h s1 where h: "log_receive_paths fuel (case rl_changed_paths rl of None \<Rightarrow> [] | Some h \<Rightarrow> h) ([], s) = Some (h, s1)"
    "lr_changed_paths l = Some h" "s1 = s'" "rev_props l = rev_props (raw_revision rl)"
    using assms(1,2) by (auto simp: log_receiver_def session_obfuscate_once_def rev_props_def raw_revision_def split: option.splits)
  have "paths_clean h \<and> s1 = s"
    by (rule log_receive_paths_clean [OF h(1) assms(2)])
      (use assms(3) in \<open>auto simp: raw_clean_paths paths_clean_def [of "[]"] split: option.split\<close>)
  then show ?thesis using h assms(3) by (simp add: log_clean_paths raw_clean_paths rev_small_def)
qed

lemma log_receiver_list_clean:
  "log_receiver_list fuel rls logs s = Some (ls, s') \<Longrightarrow> sflags s AND SF_OBFUSCATE = 0 \<Longrightarrow> list_all raw_clean rls \<Longrightarrow>
   list_all log_clean logs \<Longrightarrow> list_all log_clean ls \<and> s' = s"
proof (induction rls arbitrary: logs)
  case (Cons rl rls)
  then obtain l s1 where l: "log_receiver fuel s rl = Some (l, s1)" "log_receiver_list fuel rls (logs @ [l]) s1 = Some (ls, s')"
    by (auto split: option.splits)
  have "log_clean l \<and> s1 = s" using log_receiver_clean [OF l(1)] Cons.prems by simp
  then show ?case using Cons.IH [of "logs @ [l]"] l(2) Cons.prems by simp
qed simp

text \<open>Obfuscation leaves the prefix of the session alone.\<close>

lemma obf_chars_prefix: "obf_chars n s = (cs, s') \<Longrightarrow> prefix s' = prefix s"
  by (induction n arbitrary: s cs) (fastforce simp: rand_next_def split: prod.splits)+

lemma make_obf_loop_prefix: "make_obf_loop fuel lfac t s = Some (r, s') \<Longrightarrow> prefix s' = prefix s"
  by (induction fuel lfac t s rule: make_obf_loop.induct)
    (auto simp: rand_next_def dest: obf_chars_prefix split: prod.splits if_splits)

lemma make_obfuscated_prefix: "session_make_obfuscated fuel t s = Some (r, s') \<Longrightarrow> prefix s' = prefix s"
  by (auto simp: session_make_obfuscated_def dest: make_obf_loop_prefix split: option.splits)

lemma obf_base_prefix: "obf_base fuel b s = Some (r, s') \<Longrightarrow> prefix s' = prefix s"
  by (auto simp: obf_base_def dest: make_obfuscated_prefix split: option.splits)

lemma obfuscate_rec_prefix: "session_obfuscate_rec fuel path s = Some (r, s') \<Longrightarrow> prefix s' = prefix s"
proof (induction fuel path s arbitrary: r s' rule: session_obfuscate_rec.induct)
  case (1 fuel path s)
  obtain dir base where sp: "utils_path_split path = (dir, base)" by fastforce
  obtain dir' s1 where d: "(if dir \<noteq> [slash] \<and> dir \<noteq> [] then session_obfuscate_rec fuel dir s else Some (dir, s)) = Some (dir', s1)"
    and rest: "s' = s1 \<or> (\<exists>o'. obf_base fuel base s1 = Some (o', s'))"
    using "1.prems" sp by (auto simp: session_obfuscate_rec.simps [of fuel path] split: option.splits if_splits)
  have "prefix s1 = prefix s" using "1.IH" [OF sp [symmetric] refl] d by (auto split: if_splits)
  then show ?case using rest obf_base_prefix by auto
qed

lemma obfuscate_prefix:
  "session_obfuscate fuel s p = Some (r, s') \<Longrightarrow> prefix s' = prefix s"
  "session_obfuscate_once fuel s p = Some (r, s') \<Longrightarrow> prefix s' = prefix s"
  by (auto simp: session_obfuscate_def session_obfuscate_once_def dest: obfuscate_rec_prefix make_obfuscated_prefix
      split: option.splits if_splits)

lemma receive_path_prefix: "log_receive_path fuel e (h, s) = Some (h', s') \<Longrightarrow> prefix s' = prefix s"
  by (auto simp: log_receive_path_def dest!: obfuscate_prefix(1) split: prod.splits option.splits if_splits)

lemma receive_paths_prefix: "log_receive_paths fuel es (h, s) = Some (h', s') \<Longrightarrow> prefix s' = prefix s"
  by (induction es arbitrary: h s) (auto dest: receive_path_prefix split: option.splits)

lemma receiver_prefix: "log_receiver fuel s rl = Some (l, s') \<Longrightarrow> prefix s' = prefix s"
  by (auto simp: log_receiver_def dest!: obfuscate_prefix(2) receive_paths_prefix split: option.splits)

lemma receiver_list_prefix: "log_receiver_list fuel rls logs s = Some (ls, s') \<Longrightarrow> prefix s' = prefix s"
  by (induction rls arbitrary: logs s) (auto dest: receiver_prefix split: option.splits)

section \<open>Between the edits\<close>

text \<open>What holds whenever no edit is under way.\<close>

definition dump_ok :: "env \<Rightarrow> de \<Rightarrow> bool" where
  "dump_ok ev d \<longleftrightarrow> plain d \<and> prefix_line (de_opts d) \<and> list_all log_clean (de_logs d) \<and> (\<forall>m. line_ok (md5_to_cstring ev m))"

text \<open>Options that differ in the prefix only.\<close>

definition opts_kept :: "de \<Rightarrow> de \<Rightarrow> bool" where
  "opts_kept d d' \<longleftrightarrow> (\<exists>p. de_opts d' = (de_opts d)\<lparr>opt_prefix := p\<rparr>) \<and> de_logs d' = de_logs d \<and> de_session d' = de_session d"

lemma opts_kept_trans: "opts_kept d d1 \<Longrightarrow> opts_kept d1 d2 \<Longrightarrow> opts_kept d d2"
  by (auto simp: opts_kept_def)

lemma opts_kept_same: "de_opts d' = de_opts d \<Longrightarrow> de_logs d' = de_logs d \<Longrightarrow> de_session d' = de_session d \<Longrightarrow> opts_kept d d'"
  unfolding opts_kept_def by (auto intro!: exI [of _ "opt_prefix (de_opts d)"])

lemma opts_kept_fields:
  assumes "opts_kept d d'"
  shows "opt_start (de_opts d') = opt_start (de_opts d)" "opt_end (de_opts d') = opt_end (de_opts d)"
    "opt_flags (de_opts d') = opt_flags (de_opts d)" "dump_format (de_opts d') = dump_format (de_opts d)" "has_flag (de_opts d') f = has_flag (de_opts d) f"
    "de_logs d' = de_logs d" "de_session d' = de_session d"
  using assms by (auto simp: opts_kept_def has_flag_def)

lemma dump_ok_kept: "dump_ok ev d \<Longrightarrow> opts_kept d d' \<Longrightarrow> prefix_line (de_opts d') \<Longrightarrow> dump_ok ev d'"
  by (auto simp: dump_ok_def opts_kept_def plain_def)

lemma dump_ok_same: "dump_ok ev d \<Longrightarrow> de_opts d' = de_opts d \<Longrightarrow> de_logs d' = de_logs d \<Longrightarrow> de_session d' = de_session d \<Longrightarrow> dump_ok ev d'"
  by (simp add: dump_ok_def plain_def)

lemma streams_cat: "streams [] d d1 \<Longrightarrow> streams revs d1 d2 \<Longrightarrow> streams revs d d2"
  using streams_trans [of "[]" d d1 revs d2] by simp

lemma streams_print: "item_ok r \<Longrightarrow> streams (case rev_number r of None \<Rightarrow> [] | Some v \<Rightarrow> [v]) d (de_print (show_item (r, k)) d)"
  by (rule streams_one) (simp_all add: out_print)

lemma streams_revision: "rev_small l \<Longrightarrow> streams [dec_int r] d (de_print (dump_revision_header l r) d)"
  using streams_print [OF revision_record_ok] by (simp add: revision_header_item del: show_item.simps)

lemma streams_padding: "streams [dec_int r] d (de_print (dump_padding_revision r) d)"
  using streams_print [OF revision_record_ok] by (simp add: padding_item del: show_item.simps)

lemma streams_nodes: "list_all line_ok ps \<Longrightarrow> streams [] d (de_print (concat (map prefix_node ps)) d)"
proof (induction ps arbitrary: d)
  case (Cons p ps)
  have ok: "item_ok (prefix_record p)" "rev_number (prefix_record p) = None" using prefix_record_ok Cons.prems by auto
  have "streams [] d (de_print (prefix_node p) d)"
    using streams_print [OF ok(1), of d 0] ok(2) by (simp add: prefix_item)
  moreover have "streams [] (de_print (prefix_node p) d) (de_print (concat (map prefix_node ps)) (de_print (prefix_node p) d))"
    by (rule Cons.IH) (use Cons.prems in simp)
  ultimately have "streams [] d (de_print (concat (map prefix_node ps)) (de_print (prefix_node p) d))" by (rule streams_cat)
  then show ?case by simp
qed (simp add: streams_same de_print_def)

lemma split_slash_set: "w \<in> set (split_slash s) \<Longrightarrow> set w \<subseteq> set s"
proof (induction s arbitrary: w)
  case (Cons c s)
  have "set (hd (split_slash s)) \<subseteq> set s" by (rule Cons.IH) simp
  moreover have "set w \<subseteq> set s" if "w \<in> set (tl (split_slash s))" by (rule Cons.IH [OF list.set_sel(2) [OF split_slash_nonempty that]])
  moreover have "w = [] \<or> w \<in> set (split_slash s) \<or> w = c # hd (split_slash s) \<or> w \<in> set (tl (split_slash s))"
    using Cons.prems by (auto simp: Let_def split: if_splits)
  ultimately show ?case using Cons.IH [of w] by (elim disjE) auto
qed simp

lemma prefix_dirs_line: "line_ok p \<Longrightarrow> w \<in> set (prefix_dirs p) \<Longrightarrow> line_ok w"
  using split_slash_set by (fastforce simp: prefix_dirs_def line_ok_def dest: in_set_butlastD)

lemma join_path_line: "(\<And>w. w \<in> set ws \<Longrightarrow> line_ok w) \<Longrightarrow> line_ok (join_path ws)"
  by (induction ws rule: join_path.induct) (auto simp: line_ok_def)

lemma create_user_prefix_step:
  assumes "prefix_line (de_opts d)"
  shows "streams [] d (dump_create_user_prefix d)" "opts_kept d (dump_create_user_prefix d)"
    "prefix_line (de_opts (dump_create_user_prefix d))"
proof -
  have "streams [] d (dump_create_user_prefix d) \<and> opts_kept d (dump_create_user_prefix d) \<and>
    prefix_line (de_opts (dump_create_user_prefix d))"
  proof (cases "opt_prefix (de_opts d)")
    case None
    then show ?thesis using assms by (simp add: dump_create_user_prefix_def streams_same opts_kept_same)
  next
    case (Some p)
    let ?ds = "prefix_dirs p" and ?np = "as_dirs (prefix_dirs p) @ last (split_slash p)"
    let ?out = "concat (map prefix_node (map (\<lambda>i. join_path (take (Suc i) ?ds)) [0 ..< length ?ds]))"
    have p: "line_ok p" using assms Some by (simp add: prefix_line_def)
    have d': "dump_create_user_prefix d = (de_print ?out d)\<lparr>de_opts := (de_opts d)\<lparr>opt_prefix := Some ?np\<rparr>\<rparr>"
      using user_prefix_loop_spec [of "[]" p "[]"] Some by (simp add: dump_create_user_prefix_def as_dirs_def comp_def)
    have "list_all line_ok (map (\<lambda>i. join_path (take (Suc i) ?ds)) [0 ..< length ?ds])"
      using prefix_dirs_line [OF p] by (auto simp: list_all_iff intro!: join_path_line dest: in_set_takeD)
    then have "streams [] d (de_print ?out d)" by (rule streams_nodes)
    moreover have "line_ok ?np"
      using prefix_dirs_line [OF p] split_slash_set [of "last (split_slash p)" p] p
      by (auto simp: as_dirs_def line_ok_def)
    ultimately show ?thesis unfolding d' by (auto simp: opts_kept_def prefix_line_def de_print_def streams_def)
  qed
  then show "streams [] d (dump_create_user_prefix d)" "opts_kept d (dump_create_user_prefix d)"
    "prefix_line (de_opts (dump_create_user_prefix d))" by auto
qed

section \<open>Padding\<close>

text \<open>Consecutive revision numbers as the dump prints them.\<close>

definition rev_range :: "revnum \<Rightarrow> revnum \<Rightarrow> string list" where
  "rev_range a b = map dec_int [a..b - 1]"

lemma rev_range_Nil: "b \<le> a \<Longrightarrow> rev_range a b = []"
  by (simp add: rev_range_def)

lemma rev_range_Cons: "a < b \<Longrightarrow> rev_range a b = dec_int a # rev_range (a + 1) b"
  by (simp add: rev_range_def upto_rec1)

lemma upto_append: "a \<le> b \<Longrightarrow> b \<le> c \<Longrightarrow> [a..b - 1] @ [b..c - 1] = [a..c - (1 :: int)]"
  by (cases "b = c") (auto simp: upto_split1 [of a b "c - 1"])

lemma rev_range_append: "a \<le> b \<Longrightarrow> b \<le> c \<Longrightarrow> rev_range a b @ rev_range b c = rev_range a c"
  using upto_append [of a b c] by (simp add: rev_range_def flip: map_append)

lemma rev_range_one: "rev_range a (a + 1) = [dec_int a]"
  by (simp add: rev_range_Cons rev_range_Nil)

lemma repo_print: "de_repo (de_print s d) = de_repo d"
  by (simp add: de_print_def)

lemma create_user_prefix_kept: "opts_kept d (dump_create_user_prefix d)"
proof (cases "opt_prefix (de_opts d)")
  case None
  then show ?thesis by (simp add: dump_create_user_prefix_def opts_kept_same)
next
  case (Some p)
  then show ?thesis by (auto simp: dump_create_user_prefix_def opts_kept_def de_print_def split: prod.split)
qed

lemma padding_loop_step:
  assumes "padding_loop ev r local d = Some (0, local', d')"
  shows "local' = max local r \<and> opts_kept d d' \<and>
    (prefix_line (de_opts d) \<longrightarrow> streams (rev_range local local') d d' \<and> prefix_line (de_opts d'))"
  using assms
proof (induction ev r local d rule: padding_loop.induct)
  case (1 ev r local d)
  show ?case
  proof (cases "local < r")
    case False
    then show ?thesis
      using "1.prems" by (simp add: padding_loop.simps [of ev r] streams_same rev_range_Nil opts_kept_same)
  next
    case True
    obtain repo where repo: "path_repo_commit (env_codec ev) (de_repo d) local = Some (0, repo)"
      using "1.prems" True
      by (cases "path_repo_commit (env_codec ev) (de_repo d) local") (auto simp: padding_loop.simps [of ev r] de_print_def Let_def split: if_splits)
    let ?d2 = "(de_print (dump_padding_revision local) d)\<lparr>de_repo := repo\<rparr>"
    define d3 where "d3 = (if local = 1 then dump_create_user_prefix ?d2 else ?d2)"
    have "opts_kept d ?d2" by (rule opts_kept_same) (simp_all add: de_print_def)
    moreover have "opts_kept ?d2 d3" using create_user_prefix_kept [of ?d2] opts_kept_same by (auto simp: d3_def)
    ultimately have o3: "opts_kept d d3" by (rule opts_kept_trans)
    have s3: "streams [dec_int local] d d3 \<and> prefix_line (de_opts d3)" if p: "prefix_line (de_opts d)"
    proof -
      have "streams [dec_int local] d ?d2" "prefix_line (de_opts ?d2)"
        using streams_padding [of local d] p by (simp_all add: streams_def de_print_def)
      moreover from this(2) have "streams [] ?d2 d3 \<and> prefix_line (de_opts d3)"
        using create_user_prefix_step(1,3) [of ?d2] streams_same [of ?d2 ?d2] unfolding d3_def by (cases "local = 1") simp_all
      ultimately show ?thesis using streams_trans by fastforce
    qed
    have rec: "padding_loop ev r (local + 1) d3 = Some (0, local', d')"
      using "1.prems" True repo unfolding d3_def
      by (simp add: padding_loop.simps [of ev r local d] repo_print Let_def cong: if_weak_cong split del: if_split)
    have "local' = max (local + 1) r \<and> opts_kept d3 d' \<and>
      (prefix_line (de_opts d3) \<longrightarrow> streams (rev_range (local + 1) local') d3 d' \<and> prefix_line (de_opts d'))"
      unfolding d3_def
      by (rule "1.IH" [OF True refl _ refl refl _ rec [unfolded d3_def]]) (use repo in \<open>simp_all add: de_print_def\<close>)
    then show ?thesis
      using True s3 streams_trans opts_kept_trans [OF o3, of d'] rev_range_Cons [of local local'] by fastforce
  qed
qed

section \<open>A round of the main loop\<close>

lemma next_log_step:
  assumes "next_log ev sv fetched global idx d = Some (0, idx', d1)"
  shows "de_opts d1 = de_opts d" "de_out d1 = de_out d"
    "fetched \<Longrightarrow> idx' = idx + 1 \<and> d1 = d"
    "\<not> fetched \<Longrightarrow> \<exists>l. log_at d1 idx' = Some l \<and> (server_forward sv \<longrightarrow> global \<le> lr_revision l)"
    "dump_ok ev d \<Longrightarrow> server_clean sv \<Longrightarrow> dump_ok ev d1"
proof -
  have "de_opts d1 = de_opts d \<and> de_out d1 = de_out d \<and> (fetched \<longrightarrow> idx' = idx + 1 \<and> d1 = d) \<and>
    (\<not> fetched \<longrightarrow> (\<exists>l. log_at d1 idx' = Some l \<and> (server_forward sv \<longrightarrow> global \<le> lr_revision l))) \<and>
    (dump_ok ev d \<longrightarrow> server_clean sv \<longrightarrow> dump_ok ev d1)"
  proof (cases fetched)
    case True
    then show ?thesis using assms by (simp add: next_log_def)
  next
    case False
    let ?get = "sv_get_log sv global (opt_end (de_opts d)) 1"
    obtain rls ls s where g: "?get = Some rls" "log_receiver_list (env_fuel ev) rls [] (de_session d) = Some (ls, s)" "ls \<noteq> []"
      and d1: "idx' = int (length (de_logs d))" "d1 = d\<lparr>de_session := s, de_logs := de_logs d @ [last ls]\<rparr>"
      using assms False by (auto simp: next_log_def log_fetch_single_def split: option.splits if_splits)
    have l: "log_at d1 idx' = Some (last ls)" using d1 by (simp add: log_at_def nth_append)
    have "lr_revision (last ls) \<in> set (map rl_revision rls)"
      using log_receiver_list_revisions [OF g(2)] g(3) by (metis append_Nil image_eqI last_in_set list.set_map list.simps(8))
    then have "global \<le> lr_revision (last ls)" if "server_forward sv" using that g(1) by (auto simp: server_forward_def)
    moreover have "dump_ok ev d1" if ok: "dump_ok ev d" "server_clean sv"
    proof -
      have "list_all log_clean ls \<and> s = de_session d"
        by (rule log_receiver_list_clean [OF g(2)]) (use ok g(1) in \<open>auto simp: dump_ok_def plain_def server_clean_def\<close>)
      then show ?thesis using ok g(3) d1 by (auto simp: dump_ok_def plain_def list_all_iff)
    qed
    ultimately show ?thesis using False l d1 by auto
  qed
  then show "de_opts d1 = de_opts d" "de_out d1 = de_out d"
    "fetched \<Longrightarrow> idx' = idx + 1 \<and> d1 = d"
    "\<not> fetched \<Longrightarrow> \<exists>l. log_at d1 idx' = Some l \<and> (server_forward sv \<longrightarrow> global \<le> lr_revision l)"
    "dump_ok ev d \<Longrightarrow> server_clean sv \<Longrightarrow> dump_ok ev d1" by auto
qed

lemma log_at_logs: "de_logs d' = de_logs d \<Longrightarrow> log_at d' i = log_at d i"
  by (simp add: log_at_def)

lemma log_at_clean: "log_at d i = Some l \<Longrightarrow> dump_ok ev d \<Longrightarrow> log_clean l"
  by (auto simp: log_at_def dump_ok_def list_all_iff split: if_splits)

lemma dump_pad_step:
  assumes "dump_pad ev l local d = Some (0, local', d')"
  shows "local \<le> local'" "opts_kept d d'" "prefix_line (de_opts d) \<Longrightarrow> streams (rev_range local local') d d' \<and> prefix_line (de_opts d')"
  using assms padding_loop_step [of ev "lr_revision l" local d local' d']
  by (auto simp: dump_pad_def streams_same rev_range_Nil opts_kept_same split: if_splits)

definition dry :: "de \<Rightarrow> bool" where
  "dry d \<longleftrightarrow> has_flag (de_opts d) DF_INITIAL_DRY_RUN"

lemma rev_start_step:
  "opts_kept d (dump_rev_start l r d)"
  "prefix_line (de_opts d) \<Longrightarrow> rev_small l \<Longrightarrow>
     streams (if dry d then [] else [dec_int r]) d (dump_rev_start l r d) \<and> prefix_line (de_opts (dump_rev_start l r d))"
proof -
  let ?d1 = "de_print (dump_revision_header l r) d"
  have "opts_kept d ?d1" by (rule opts_kept_same) (simp_all add: de_print_def)
  then show "opts_kept d (dump_rev_start l r d)"
    using opts_kept_trans [OF _ create_user_prefix_kept [of ?d1], of d] opts_kept_same [of d d]
    by (cases "r = 1") (simp_all add: dump_rev_start_def Let_def)
  assume p: "prefix_line (de_opts d)" and small: "rev_small l"
  note rev = streams_revision [OF small, of r d]
  have "streams [] ?d1 (dump_create_user_prefix ?d1) \<and> prefix_line (de_opts (dump_create_user_prefix ?d1))"
    using create_user_prefix_step(1,3) [of ?d1] p by simp
  then show "streams (if dry d then [] else [dec_int r]) d (dump_rev_start l r d) \<and> prefix_line (de_opts (dump_rev_start l r d))"
    using p rev streams_trans [OF rev, of "[]" "dump_create_user_prefix ?d1"]
      streams_same [of d d]
    by (cases "r = 1") (simp_all add: dump_rev_start_def dry_def Let_def)
qed

lemma dump_commit_step:
  assumes "dump_commit ev r d = Some (0, d')"
  shows "de_opts d' = de_opts d" "de_logs d' = de_logs d" "de_session d' = de_session d" "de_out d' = de_out d"
  using assms by (auto simp: dump_commit_def Let_def split: option.splits if_splits)

lemma setup_fields:
  "de_opts (delta_setup_editor l r logs d) = de_opts d" "de_session (delta_setup_editor l r logs d) = de_session d"
  "de_logs (delta_setup_editor l r logs d) = logs" "de_log (delta_setup_editor l r logs d) = l"
  "de_out (delta_setup_editor l r logs d) = de_out d" "de_nodes (delta_setup_editor l r logs d) = []"
  by (simp_all add: delta_setup_editor_def Let_def)

lemma setup_clean: "dump_ok ev d \<Longrightarrow> log_clean l \<Longrightarrow> clean ev (delta_setup_editor l r logs d)"
  by (simp add: clean_def dump_ok_def plain_def setup_fields edit_ok_def)

lemma do_diff_step:
  assumes "dump_do_diff ev sv src dest se d = Some (0, d')"
  shows "kept d d'" "clean ev d \<Longrightarrow> server_clean sv \<Longrightarrow> streams [] d d'"
proof -
  define df where "df = sv_do_diff sv src dest se (\<not> has_flag (de_opts d) DF_DRY_RUN)"
  have run: "run_ops ev (diff_ops df) ([], d) = Some (SVN_NO_ERROR, d')"
    using assms by (auto simp: dump_do_diff_def Let_def df_def split: if_splits option.splits)
  show "kept d d'" using run_ops_kept [OF run] by simp
  assume "clean ev d" "server_clean sv"
  then show "streams [] d d'" using run_ops_clean [OF run] by (simp add: server_clean_def df_def)
qed

text \<open>The end of a round clears the flag of the dry run.\<close>

definition round_end :: "de \<Rightarrow> de \<Rightarrow> bool" where
  "round_end d d' \<longleftrightarrow>
     (\<exists>p. de_opts d' = (de_opts d)\<lparr>opt_flags := opt_flags (de_opts d) AND NOT DF_INITIAL_DRY_RUN, opt_prefix := p\<rparr>) \<and>
     de_logs d' = de_logs d"

lemma not_dry: "round_end d d' \<Longrightarrow> \<not> dry d'"
proof -
  have "(x AND NOT DF_INITIAL_DRY_RUN) AND DF_INITIAL_DRY_RUN = 0" for x
    by (simp add: bit_eq_iff bit_simps)
  then show "round_end d d' \<Longrightarrow> \<not> dry d'" by (auto simp: round_end_def dry_def has_flag_def)
qed

lemma diff_commit_step:
  assumes "dump_diff_commit ev sv global local idx l d = Some (0, local', global', idx', d')"
  shows "local' = local + 1" "global' = lr_revision l + 1" "idx' = idx" "round_end d d'"
    "dump_ok ev d \<Longrightarrow> server_clean sv \<Longrightarrow> log_clean l \<Longrightarrow> streams [] d d' \<and> dump_ok ev d'"
proof -
  let ?d1 = "delta_setup_editor l local (de_logs d) d"
  obtain d2 d3 where
    2: "dump_do_diff ev sv (diff_base global (de_opts d)) (lr_revision l) (global = opt_start (de_opts d)) ?d1 = Some (0, d2)"
    and 3: "dump_commit ev local d2 = Some (0, d3)"
    and r: "local' = local + 1" "global' = lr_revision l + 1" "idx' = idx"
      "d' = upd_opts (\<lambda>op. op\<lparr>opt_flags := opt_flags op AND NOT DF_INITIAL_DRY_RUN\<rparr>) d3"
    using assms by (auto simp: dump_diff_commit_def Let_def split: option.splits if_splits)
  show "local' = local + 1" "global' = lr_revision l + 1" "idx' = idx" using r by auto
  note k = do_diff_step(1) [OF 2]
  have o: "de_opts d3 = de_opts d" "de_logs d3 = de_logs d" using k dump_commit_step [OF 3] by (simp_all add: kept_def setup_fields)
  show "round_end d d'"
    unfolding round_end_def using o r(4) by (auto simp: upd_opts_def intro!: exI [of _ "opt_prefix (de_opts d)"])
  assume ok: "dump_ok ev d" "server_clean sv" "log_clean l"
  have "streams [] ?d1 d2" by (rule do_diff_step(2) [OF 2 setup_clean [OF ok(1,3)] ok(2)])
  moreover have "de_session d3 = de_session d"
    using k ok(1) dump_commit_step(3) [OF 3] by (simp add: kept_def setup_fields plain_def dump_ok_def)
  ultimately show "streams [] d d' \<and> dump_ok ev d'"
    using ok(1) o r(4) dump_commit_step(4) [OF 3]
    by (simp add: streams_def setup_fields upd_opts_def dump_ok_def plain_def prefix_line_def)
qed

lemma dump_round_step:
  assumes "dump_round ev sv fetched local global idx d = Val (0, local', global', idx', d')"
  shows "opt_end (de_opts d') = opt_end (de_opts d) \<and> opt_start (de_opts d') = opt_start (de_opts d) \<and>
      dump_format (de_opts d') = dump_format (de_opts d)"
    "\<not> dry d'" "local < local' \<and> (dry d \<longrightarrow> local' = local + 1)"
    "fetched \<Longrightarrow> idx' = idx + 1 \<and> de_logs d' = de_logs d \<and> (\<exists>l. log_at d idx' = Some l \<and> global' = lr_revision l + 1)"
    "\<not> fetched \<Longrightarrow> server_forward sv \<Longrightarrow> global < global'"
    "dump_ok ev d \<Longrightarrow> server_clean sv \<Longrightarrow>
       streams (if dry d then rev_range local (local' - 1) else rev_range local local') d d' \<and> dump_ok ev d'"
proof -
  obtain idx1 d1 l local1 d2 where
    1: "next_log ev sv fetched global idx d = Some (0, idx1, d1)" "log_at d1 idx1 = Some l"
    and 2: "dump_pad ev l local d1 = Some (0, local1, d2)"
    and 3: "dump_diff_commit ev sv global local1 idx1 l (dump_rev_start l local1 d2) = Some (0, local', global', idx', d')"
    using assms by (auto simp: dump_round_def res_of_def split: option.splits if_splits)
  let ?d3 = "dump_rev_start l local1 d2"
  note n = next_log_step [OF 1(1)] and p = dump_pad_step [OF 2] and c = diff_commit_step [OF 3]
  have k: "opts_kept d1 ?d3" by (rule opts_kept_trans [OF p(2) rev_start_step(1)])
  have e: "opt_end (de_opts d') = opt_end (de_opts ?d3)" "de_logs d' = de_logs ?d3" "opt_start (de_opts d') = opt_start (de_opts ?d3)"
    "dump_format (de_opts d') = dump_format (de_opts ?d3)" using c(4) by (auto simp: round_end_def)
  show "opt_end (de_opts d') = opt_end (de_opts d) \<and> opt_start (de_opts d') = opt_start (de_opts d) \<and>
      dump_format (de_opts d') = dump_format (de_opts d)"
    using e opts_kept_fields [OF k] n(1) by simp
  show "\<not> dry d'" by (rule not_dry [OF c(4)])
  show "local < local' \<and> (dry d \<longrightarrow> local' = local + 1)"
    using p(1) c(1) 2 n(1) by (auto simp: dump_pad_def dry_def split: if_splits)
  show "idx' = idx + 1 \<and> de_logs d' = de_logs d \<and> (\<exists>l. log_at d idx' = Some l \<and> global' = lr_revision l + 1)" if fetched
    using n(3) [OF that] c(2,3) 1(2) e(2) opts_kept_fields(6) [OF k] by auto
  show "global < global'" if "\<not> fetched" "server_forward sv" using n(4) [OF that(1)] that(2) 1(2) c(2) by auto
  assume ok: "dump_ok ev d" "server_clean sv"
  have ok1: "dump_ok ev d1" by (rule n(5) [OF ok])
  then have l1: "prefix_line (de_opts d1)" by (simp add: dump_ok_def)
  note s2 = p(3) [OF l1]
  have "rev_small l" using log_at_clean [OF 1(2) ok1] by (simp add: log_clean_def)
  note s3 = rev_start_step(2) [OF conjunct2 [OF s2] this, of local1]
  have ok3: "dump_ok ev ?d3" by (rule dump_ok_kept [OF ok1 k conjunct2 [OF s3]])
  have s4: "streams [] ?d3 d' \<and> dump_ok ev d'" by (rule c(5) [OF ok3 ok(2) log_at_clean [OF 1(2) ok1]])
  have dr: "dry d2 = dry d" using opts_kept_fields(5) [OF p(2)] n(1) by (simp add: dry_def)
  have "streams (rev_range local local1 @ (if dry d2 then [] else [dec_int local1]) @ []) d1 d'"
    by (intro streams_trans [OF conjunct1 [OF s2] streams_trans [OF conjunct1 [OF s3] conjunct1 [OF s4]]])
  moreover have "rev_range local local1 @ [dec_int local1] = rev_range local local'"
    using rev_range_append [of local local1 local'] p(1) c(1) by (simp add: rev_range_one)
  ultimately have "streams (if dry d then rev_range local (local' - 1) else rev_range local local') d1 d'"
    using dr c(1) by (auto split: if_splits)
  then show "streams (if dry d then rev_range local (local' - 1) else rev_range local local') d d' \<and> dump_ok ev d'"
    using streams_from [OF n(2)] s4 by blast
qed

section \<open>The main loop\<close>

lemma cleanup_fields: "de_out (delta_cleanup d) = de_out d" "de_opts (delta_cleanup d) = de_opts d"
  by (simp_all add: delta_cleanup_def)

text \<open>The number of the first revision printed from a state on.\<close>

definition first_rev :: "revnum \<Rightarrow> de \<Rightarrow> revnum" where
  "first_rev local d = (if dry d then local + 1 else local)"

lemma dump_loop_streams:
  assumes "dump_loop fuel ev sv fetched local global idx d = Some (Val (0, d'))" "dump_ok ev d" "server_clean sv"
  shows "\<exists>n \<ge> local + 1. streams (rev_range (first_rev local d) n) d d' \<and>
    opt_start (de_opts d') = opt_start (de_opts d) \<and> dump_format (de_opts d') = dump_format (de_opts d)"
  using assms(1,2)
proof (induction fuel arbitrary: local global idx d)
  case (Suc fuel)
  obtain local1 global1 idx1 d1 where
    1: "dump_round ev sv fetched local global idx d = Val (0, local1, global1, idx1, d1)"
    and 2: "if global1 \<le> opt_end (de_opts d1) then dump_loop fuel ev sv fetched local1 global1 idx1 d1 = Some (Val (0, d'))
      else d' = delta_cleanup d1"
    using Suc.prems(1) by (auto split: res.splits if_splits)
  note st = dump_round_step [OF 1]
  have s: "streams (rev_range (first_rev local d) local1) d d1" "dump_ok ev d1"
    using st(3,6) Suc.prems(2) assms(3) by (auto simp: first_rev_def rev_range_Nil split: if_splits)
  have f: "first_rev local1 d1 = local1" "first_rev local d \<le> local1" using st(2,3) by (auto simp: first_rev_def)
  show ?case
  proof (cases "global1 \<le> opt_end (de_opts d1)")
    case True
    then obtain n where n: "local1 + 1 \<le> n" "streams (rev_range local1 n) d1 d'" "opt_start (de_opts d') = opt_start (de_opts d1)"
      "dump_format (de_opts d') = dump_format (de_opts d1)"
      using Suc.IH [OF _ s(2), of local1 global1 idx1] 2 f(1) by auto
    have "streams (rev_range (first_rev local d) n) d d'"
      using streams_trans [OF s(1) n(2)] rev_range_append [OF f(2), of n] n(1) by simp
    then show ?thesis using n st(1,3) by (intro exI [of _ n]) auto
  next
    case False
    then have "streams (rev_range (first_rev local d) local1) d d'"
      using 2 s(1) streams_out [of d' d1] by (simp add: cleanup_fields)
    then show ?thesis using False 2 st(1,3) by (intro exI [of _ local1]) (auto simp: cleanup_fields)
  qed
qed simp

subsection \<open>The end of the loop\<close>

text \<open>The loop has ended, and not by a read outside of the list of logs.\<close>

definition ended :: "(int \<times> de) res option \<Rightarrow> bool" where
  "ended r \<longleftrightarrow> r \<noteq> None \<and> r \<noteq> Some Past_logs"

lemma ended_simps [simp]: "ended (Some (Val x))" "ended (Some Undefined)" "\<not> ended (Some Past_logs)" "\<not> ended None"
  by (simp_all add: ended_def)

lemma dump_round_past:
  assumes "dump_round ev sv fetched local global idx d = Past_logs"
  shows "fetched \<and> log_at d (idx + 1) = None"
proof -
  obtain idx1 d1 where n: "next_log ev sv fetched global idx d = Some (0, idx1, d1)" "log_at d1 idx1 = None"
    using assms by (auto simp: dump_round_def res_of_def split: option.splits if_splits)
  then show ?thesis using next_log_step(3,4) [OF n(1)] by (cases fetched) auto
qed

lemma dump_loop_ended_Suc:
  assumes "\<not> fetched \<or> log_at d (idx + 1) \<noteq> None"
    "\<And>local1 global1 idx1 d1. dump_round ev sv fetched local global idx d = Val (0, local1, global1, idx1, d1) \<Longrightarrow>
       global1 \<le> opt_end (de_opts d1) \<Longrightarrow> ended (dump_loop fuel ev sv fetched local1 global1 idx1 d1)"
  shows "ended (dump_loop (Suc fuel) ev sv fetched local global idx d)"
proof (cases "dump_round ev sv fetched local global idx d")
  case (Val x)
  obtain rc local1 global1 idx1 d1 where x: "x = (rc, local1, global1, idx1, d1)" by (cases x)
  show ?thesis using assms(2) [of local1 global1 idx1 d1] Val x by auto
next
  case Past_logs
  then show ?thesis using dump_round_past [OF Past_logs] assms(1) by simp
qed simp

text \<open>Revisions that are fetched one by one go up; a list of logs is left at its last entry, which has the last revision.\<close>

lemma dump_loop_single_ends:
  assumes "server_forward sv" "nat (opt_end (de_opts d) + 1 - global) < fuel"
  shows "ended (dump_loop fuel ev sv False local global idx d)"
  using assms(2)
proof (induction fuel arbitrary: local global idx d)
  case (Suc fuel)
  show ?case
  proof (rule dump_loop_ended_Suc)
    fix local1 global1 idx1 d1
    assume r: "dump_round ev sv False local global idx d = Val (0, local1, global1, idx1, d1)" "global1 \<le> opt_end (de_opts d1)"
    show "ended (dump_loop fuel ev sv False local1 global1 idx1 d1)"
      by (rule Suc.IH) (use Suc.prems dump_round_step(1,5) [OF r(1)] assms(1) r(2) in auto)
  qed simp
qed simp

lemma dump_loop_list_ends:
  assumes "log_at d (int (length (de_logs d)) - 1) = Some l" "opt_end (de_opts d) = lr_revision l"
    "-1 \<le> idx" "idx < int (length (de_logs d)) - 1" "nat (int (length (de_logs d)) - 1 - idx) < fuel"
  shows "ended (dump_loop fuel ev sv True local global idx d)"
  using assms
proof (induction fuel arbitrary: local global idx d)
  case (Suc fuel)
  show ?case
  proof (rule dump_loop_ended_Suc)
    show "\<not> True \<or> log_at d (idx + 1) \<noteq> None" using Suc.prems(3,4) by (simp add: log_at_def)
    fix local1 global1 idx1 d1
    assume r: "dump_round ev sv True local global idx d = Val (0, local1, global1, idx1, d1)" "global1 \<le> opt_end (de_opts d1)"
    have s: "idx1 = idx + 1" "de_logs d1 = de_logs d" "opt_end (de_opts d1) = lr_revision l"
      using dump_round_step(1,4) [OF r(1)] Suc.prems(2) by auto
    obtain l1 where "log_at d idx1 = Some l1" "global1 = lr_revision l1 + 1" using dump_round_step(4) [OF r(1)] by auto
    then have "idx1 \<noteq> int (length (de_logs d)) - 1" using Suc.prems(1) r(2) s(3) by auto
    moreover have "log_at d1 (int (length (de_logs d1)) - 1) = Some l"
      using Suc.prems(1) log_at_logs [OF s(2)] s(2) by simp
    ultimately show "ended (dump_loop fuel ev sv True local1 global1 idx1 d1)"
      using Suc.prems(2-5) s by (intro Suc.IH) auto
  qed
qed simp

section \<open>The whole dump\<close>

lemma history_loop_step:
  "history_loop ev sv ls local d = Some (0, local', d') \<Longrightarrow>
   de_opts d' = de_opts d \<and> de_logs d' = de_logs d \<and> de_session d' = de_session d \<and> de_out d' = de_out d"
proof (induction ls arbitrary: local d)
  case (Cons l ls)
  show ?case
    using Cons.prems Cons.IH [of "local + 1"] by (fastforce simp: Let_def split: if_splits option.splits)
qed simp

lemma dump_ok_opts:
  assumes "dump_ok ev d" "opt_prefix (f (de_opts d)) = opt_prefix (de_opts d)"
  shows "dump_ok ev (upd_opts f d)"
  using assms by (simp add: dump_ok_def upd_opts_def plain_def prefix_line_def)

lemma dump_history_step:
  assumes "dump_history ev sv d = Val (0, local, d')"
  shows "de_out d' = de_out d" "dump_format (de_opts d') = dump_format (de_opts d)" "opt_prefix (de_opts d') = opt_prefix (de_opts d)"
    "dump_ok ev d \<Longrightarrow> server_clean sv \<Longrightarrow> dump_ok ev d'"
    "has_flag (de_opts d') DF_NO_INCREMENTAL_HEADER = has_flag (de_opts d) DF_NO_INCREMENTAL_HEADER"
proof -
  define d0 where "d0 = (\<lambda>logs s. d\<lparr>de_logs := logs, de_session := s\<rparr>)"
  obtain logs s local1 d1 and l :: log_revision where
    1: "log_fetch_all (sv_get_log sv) (env_fuel ev) (de_session d) 0 (opt_end (de_opts d)) (de_logs d) = Some (0, logs, s)"
    and 2: "history_loop ev sv logs 0 (d0 logs s) = Some (0, local1, d1)"
    and d': "d' = upd_opts (\<lambda>op. op\<lparr>opt_start := lr_revision l\<rparr>)
        (upd_opts (\<lambda>op. op\<lparr>opt_flags := opt_flags op OR DF_INITIAL_DRY_RUN\<rparr>) d1)"
    using assms unfolding dump_history_def d0_def by (auto simp: Let_def split: option.splits if_splits)
  note h = history_loop_step [OF 2]
  show "de_out d' = de_out d" "dump_format (de_opts d') = dump_format (de_opts d)" "opt_prefix (de_opts d') = opt_prefix (de_opts d)"
    using h d' by (simp_all add: d0_def upd_opts_def)
  have "(x OR DF_INITIAL_DRY_RUN) AND DF_NO_INCREMENTAL_HEADER = x AND DF_NO_INCREMENTAL_HEADER" for x
  proof -
    have "DF_INITIAL_DRY_RUN AND DF_NO_INCREMENTAL_HEADER = 0" by code_simp
    then show ?thesis by (simp add: bit.conj_disj_distrib2)
  qed
  then show "has_flag (de_opts d') DF_NO_INCREMENTAL_HEADER = has_flag (de_opts d) DF_NO_INCREMENTAL_HEADER"
    using h d' by (simp add: d0_def upd_opts_def has_flag_def)
  assume ok: "dump_ok ev d" "server_clean sv"
  obtain rls where rls: "sv_get_log sv 0 (opt_end (de_opts d)) 0 = Some rls"
    "log_receiver_list (env_fuel ev) rls (de_logs d) (de_session d) = Some (logs, s)"
    using 1 by (auto simp: log_fetch_all_def split: option.splits)
  have "list_all log_clean logs \<and> s = de_session d"
    by (rule log_receiver_list_clean [OF rls(2)]) (use ok rls(1) in \<open>auto simp: dump_ok_def plain_def server_clean_def\<close>)
  then have "dump_ok ev (d0 logs s)" using ok(1) by (simp add: dump_ok_def d0_def plain_def)
  then have "dump_ok ev d1" by (rule dump_ok_same) (use h in simp_all)
  then show "dump_ok ev d'" unfolding d' by (intro dump_ok_opts) (simp_all add: upd_opts_def)
qed

text \<open>The records of the file header.\<close>

definition file_records :: "env \<Rightarrow> server \<Rightarrow> bool \<Rightarrow> de \<Rightarrow> drec list" where
  "file_records ev sv mid d =
     (if has_flag (de_opts d) DF_NO_INCREMENTAL_HEADER \<and> mid then []
      else Rec [(''SVN-fs-dump-format-version'', dec_int (dump_format (de_opts d)))] None #
        (case Option.bind (sv_uuid sv) (\<lambda>u. env_stale ev (Freed u)) of
           Some uuid \<Rightarrow> if opt_prefix (de_opts d) = None \<and> prefix (de_session d) = [] then [Rec [(''UUID'', uuid)] None] else []
         | None \<Rightarrow> []))"

lemma file_header_step:
  assumes "dump_file_header ev sv mid d = Some (0, d')"
  shows "d' = de_print (show_items (map (\<lambda>r. (r, 0)) (file_records ev sv mid d))) d"
  using assms
  by (auto simp: dump_file_header_def file_records_def dump_fetch_uuid_def show_items_def de_print_def Let_def split: if_splits option.splits)

lemma file_records_ok:
  assumes "uuid_line ev sv"
  shows "list_all item_ok (file_records ev sv mid d)" "List.map_filter rev_number (file_records ev sv mid d) = []"
  using assms line_ok_dec(2) [of "dump_format (de_opts d)"]
  by (auto simp: file_records_def uuid_line_def hdr_ok_def line_ok_def rev_number_def bind_eq_Some_conv split: option.split)

lemma dump_range_step:
  assumes "dump_range sv d = Some (0, d')"
  shows "\<exists>a b. de_opts d' = (de_opts d)\<lparr>opt_start := a, opt_end := b\<rparr>" "de_logs d' = de_logs d" "de_session d' = de_session d" "de_out d' = de_out d"
proof -
  obtain rc e where e: "dump_determine_end sv (opt_end (de_opts d)) = (rc, e)" by fastforce
  have "(de_opts d)\<lparr>opt_end := e\<rparr> = (de_opts d)\<lparr>opt_start := opt_start (de_opts d), opt_end := e\<rparr>" by simp
  moreover have "d' = upd_opts (\<lambda>op. op\<lparr>opt_end := e\<rparr>) d \<or> (\<exists>a b. d' = upd_opts (\<lambda>op. op\<lparr>opt_start := a, opt_end := b\<rparr>) d)"
    using assms e by (auto simp: dump_range_def upd_opts_def Let_def split: if_splits option.splits)
  ultimately have "\<exists>a b. d' = upd_opts (\<lambda>op. op\<lparr>opt_start := a, opt_end := b\<rparr>) d" unfolding upd_opts_def by metis
  then show "\<exists>a b. de_opts d' = (de_opts d)\<lparr>opt_start := a, opt_end := b\<rparr>" "de_logs d' = de_logs d"
    "de_session d' = de_session d" "de_out d' = de_out d" unfolding upd_opts_def by auto blast
qed

lemma dummy_log_clean: "log_clean dummy_log"
  by (simp add: log_clean_def dummy_log_def rev_small_def rev_props_def PROPS_END_def)

lemma dump_storages_step:
  assumes "dump_storages ev sv d = (0, d')"
  shows "de_opts d' = de_opts d" "de_session d' = de_session d" "de_out d' = de_out d" "list_all log_clean (de_logs d')"
  using assms dummy_log_clean by (auto simp: dump_storages_def Let_def split: option.splits)

subsection \<open>The end of the dump\<close>

lemma history_loop_count:
  "history_loop ev sv ls local d = Some (0, local', d') \<Longrightarrow>
   local' = local + int (length (takeWhile (\<lambda>l. lr_revision l < opt_start (de_opts d)) ls))"
proof (induction ls arbitrary: local d)
  case (Cons l ls)
  show ?case
    using Cons.prems Cons.IH [of "local + 1"] by (fastforce simp: Let_def split: if_splits option.splits)
qed simp

lemma dump_history_range:
  "dump_history ev sv d = Val (0, local, d') \<Longrightarrow> 0 \<le> local \<and> local < int (length (de_logs d'))"
  unfolding dump_history_def Let_def
  by (auto simp: log_at_def upd_opts_def split: option.splits if_splits)

lemma dump_history_not_past:
  assumes "server_logs sv (de_session d)" "0 < opt_start (de_opts d)"
    "de_logs d = (if prefix (de_session d) \<noteq> [] then [dummy_log] else [])"
  shows "dump_history ev sv d \<noteq> Past_logs"
proof
  assume "dump_history ev sv d = Past_logs"
  then obtain logs s n d1 where
    1: "log_fetch_all (sv_get_log sv) (env_fuel ev) (de_session d) 0 (opt_end (de_opts d)) (de_logs d) = Some (0, logs, s)"
    and 2: "history_loop ev sv logs 0 (d\<lparr>de_logs := logs, de_session := s\<rparr>) = Some (0, n, d1)"
    and 3: "log_at d1 (if n > 1 \<or> prefix (de_session d1) = [] then n - 1 else n) = None"
    unfolding dump_history_def Let_def by (auto simp: log_at_def upd_opts_def split: option.splits if_splits)
  obtain rls where rls: "sv_get_log sv 0 (opt_end (de_opts d)) 0 = Some rls"
    "log_receiver_list (env_fuel ev) rls (de_logs d) (de_session d) = Some (logs, s)"
    using 1 by (auto simp: log_fetch_all_def split: option.splits)
  have revs: "map lr_revision logs = map lr_revision (de_logs d) @ map rl_revision rls"
    by (rule log_receiver_list_revisions [OF rls(2)])
  have ne: "rls \<noteq> []" "prefix (de_session d) = [] \<longrightarrow> rl_revision (hd rls) = 0" using assms(1) rls(1) by (auto simp: server_logs_def)
  have len: "length logs = length (de_logs d) + length rls" using arg_cong [OF revs, of length] by simp
  have "hd (map lr_revision logs) = 0" using ne assms(3) by (simp add: revs dummy_log_def hd_map)
  moreover have "logs \<noteq> []" using len ne(1) by (cases logs) auto
  ultimately have "lr_revision (hd logs) < opt_start (de_opts d)" using assms(2) by (simp add: hd_map)
  then have n: "1 \<le> n" "n \<le> int (length logs)"
    using history_loop_count [OF 2] \<open>logs \<noteq> []\<close> length_takeWhile_le [of "\<lambda>l. lr_revision l < opt_start (de_opts d)" logs]
    by (auto simp: neq_Nil_conv)
  have d1: "de_logs d1 = logs" "prefix (de_session d1) = prefix (de_session d)"
    using history_loop_step [OF 2] receiver_list_prefix [OF rls(2)] by simp_all
  have "2 \<le> length logs" if "prefix (de_session d) \<noteq> []" using that len assms(3) ne(1) by (cases rls) auto
  then show False using 3 n d1 by (auto simp: log_at_def split: if_splits)
qed

lemma dump_start_ends:
  assumes "server_forward sv" "mid \<Longrightarrow> 0 \<le> local \<and> local < int (length (de_logs d))"
  shows "\<exists>N. ended (dump_start N ev sv mid local d)"
proof (cases mid)
  case True
  have "de_logs d \<noteq> []" using assms(2) [OF True] by auto
  then obtain l where l: "log_at d (int (length (de_logs d)) - 1) = Some l" by (simp add: log_at_def Suc_leI)
  let ?d1 = "upd_opts (\<lambda>op. op\<lparr>opt_end := lr_revision l\<rparr>) d"
  have "ended (dump_loop (Suc (length (de_logs ?d1))) ev sv True r g (local - 1) ?d1)" for r g
    by (rule dump_loop_list_ends [where l = l]) (use l assms(2) [OF True] in \<open>auto simp: upd_opts_def log_at_def split: if_splits\<close>)
  then have "ended (dump_start (Suc (length (de_logs ?d1))) ev sv mid local d)"
    unfolding dump_start_def Let_def l option.case using True by (simp del: dump_loop.simps)
  then show ?thesis by blast
next
  case False
  have "ended (dump_loop (Suc (nat (opt_end (de_opts d) + 1 - opt_start (de_opts d)))) ev sv False r (opt_start (de_opts d)) 0 d)" for r
    by (rule dump_loop_single_ends [OF assms(1)]) simp
  then have "ended (dump_start (Suc (nat (opt_end (de_opts d) + 1 - opt_start (de_opts d)))) ev sv mid local d)"
    using False unfolding dump_start_def by (simp del: dump_loop.simps split del: if_split)
  then show ?thesis by blast
qed

lemma dump_from_storages_ends:
  assumes "server_forward sv" "mid \<Longrightarrow> server_logs sv (de_session d) \<and> 0 < opt_start (de_opts d) \<and>
    de_logs d = (if prefix (de_session d) \<noteq> [] then [dummy_log] else [])"
  shows "\<exists>N. ended (dump_from_storages N ev sv mid d)"
proof -
  let ?h = "if mid then dump_history ev sv d
    else Val (0, -1, if prefix (de_session d) \<noteq> [] \<and> opt_start (de_opts d) = 0 then upd_opts (\<lambda>op. op\<lparr>opt_start := 1\<rparr>) d else d)"
  show ?thesis
  proof (cases ?h)
    case (Val x)
    obtain rc local d1 where x: "x = (rc, local, d1)" by (cases x)
    show ?thesis
    proof (cases "rc = 0 \<and> (\<exists>d2. dump_file_header ev sv mid d1 = Some (0, d2))")
      case True
      then obtain d2 where d2: "rc = 0" "dump_file_header ev sv mid d1 = Some (0, d2)" by blast
      have "mid \<Longrightarrow> 0 \<le> local \<and> local < int (length (de_logs d2))"
        using Val x d2(1) dump_history_range [of ev sv d local d1] file_header_step [OF d2(2)] by (simp add: de_print_def)
      then show ?thesis
        using dump_start_ends [OF assms(1), of mid local d2 ev] Val x d2 by (simp add: dump_from_storages_def split del: if_split)
    next
      case False
      then show ?thesis using Val x by (auto simp: dump_from_storages_def split: option.split prod.split simp del: if_split)
    qed
  next
    case Past_logs
    then show ?thesis using dump_history_not_past [of sv d ev] assms(2) by (auto split: if_splits)
  qed (simp add: dump_from_storages_def split del: if_split)
qed

lemma dump_range_start:
  "dump_range sv d = Some (rc, d') \<Longrightarrow> opt_start (de_opts d) \<noteq> 0 \<Longrightarrow> opt_start (de_opts d') = opt_start (de_opts d)"
  by (auto simp: dump_range_def upd_opts_def Let_def split: prod.splits if_splits)

lemma dump_ended:
  assumes "server_forward sv" "start_mid d \<Longrightarrow> server_logs sv (de_session d) \<and> 0 < opt_start (de_opts d)"
  shows "\<exists>N. ended (dump N ev sv d)"
proof -
  let ?d = "upd_opts (\<lambda>op. if has_flag op DF_USE_DELTAS then op\<lparr>dump_format := 3\<rparr> else op) d"
  have mid: "start_mid ?d = start_mid d" "opt_start (de_opts ?d) = opt_start (de_opts d)" "de_session ?d = de_session d"
    by (simp_all add: start_mid_def has_flag_def upd_opts_def)
  show ?thesis
  proof (cases "dump_range sv ?d")
    case (Some x)
    obtain rc d1 where x: "x = (rc, d1)" by (cases x)
    obtain rc' d2 where st: "dump_storages ev sv d1 = (rc', d2)" by fastforce
    show ?thesis
    proof (cases "rc = 0 \<and> session_check_reparent (sv_check_path sv []) (de_session d1) (opt_start (de_opts d1)) = 0 \<and> rc' = 0")
      case True
      have d1: "de_session d1 = de_session d" "start_mid d \<Longrightarrow> opt_start (de_opts d1) = opt_start (de_opts d)"
        using dump_range_step(3) [of sv ?d d1] dump_range_start [of sv ?d rc d1] Some x True mid by (auto simp: start_mid_def)
      have "de_session d2 = de_session d1" "de_opts d2 = de_opts d1" "de_logs d2 = (if prefix (de_session d1) \<noteq> [] then [dummy_log] else [])"
        using st True by (auto simp: dump_storages_def Let_def split: option.splits)
      then have "\<exists>N. ended (dump_from_storages N ev sv (start_mid d) d2)"
        using assms d1 by (intro dump_from_storages_ends) simp_all
      then show ?thesis using Some x st True mid by (simp add: dump_def Let_def)
    next
      case False
      then show ?thesis using Some x st by (auto simp: dump_def Let_def)
    qed
  qed (simp add: dump_def Let_def)
qed

text \<open>More fuel does not change a result.\<close>

lemma dump_loop_mono:
  "dump_loop fuel ev sv fetched local global idx d = Some r \<Longrightarrow> fuel \<le> fuel' \<Longrightarrow>
   dump_loop fuel' ev sv fetched local global idx d = Some r"
proof (induction fuel arbitrary: fuel' local global idx d)
  case (Suc fuel)
  obtain k where "fuel' = Suc k" "fuel \<le> k" using Suc.prems(2) by (cases fuel') auto
  then show ?case using Suc.prems(1) Suc.IH by (auto split: res.splits)
qed simp

lemma dump_mono: "dump fuel ev sv d = Some r \<Longrightarrow> fuel \<le> fuel' \<Longrightarrow> dump fuel' ev sv d = Some r"
proof -
  assume a: "dump fuel ev sv d = Some r" "fuel \<le> fuel'"
  note loop = dump_loop_mono [OF _ a(2)]
  have start: "dump_start fuel ev sv mid local d = Some r \<Longrightarrow> dump_start fuel' ev sv mid local d = Some r" for mid local d
    using loop by (auto simp: dump_start_def Let_def simp del: dump_loop.simps split: option.splits)
  have "dump_from_storages fuel ev sv mid d = Some r \<Longrightarrow> dump_from_storages fuel' ev sv mid d = Some r" for mid d
    unfolding dump_from_storages_def using start by (auto split: res.splits option.splits prod.splits if_splits)
  then show "dump fuel' ev sv d = Some r"
    using a(1) unfolding dump_def Let_def by (auto split: option.splits prod.splits if_splits)
qed

lemma dump_start_streams:
  assumes "dump_start fuel ev sv mid local d = Some (Val (0, d'))" "dump_ok ev d" "server_clean sv"
  shows "\<exists>a n. a \<le> n \<and> streams (rev_range a n) d d' \<and> dump_format (de_opts d') = dump_format (de_opts d) \<and>
    (\<not> mid \<and> \<not> dry d \<longrightarrow> a = (if opt_start (de_opts d') = 0 then 0 else 1) \<and> a < n)"
proof -
  obtain fetched local1 global idx d1 where l: "dump_loop fuel ev sv fetched local1 global idx d1 = Some (Val (0, d'))"
    and d1: "\<exists>e. d1 = upd_opts (\<lambda>op. op\<lparr>opt_end := e\<rparr>) d"
    and m: "\<not> mid \<Longrightarrow> local1 = (if opt_start (de_opts d) = 0 then 0 else 1) \<and> d1 = d"
  proof (cases mid)
    case True
    then obtain l :: log_revision where l: "log_at d (int (length (de_logs d)) - 1) = Some l"
      using assms(1) by (auto simp: dump_start_def split: option.splits)
    let ?d1 = "upd_opts (\<lambda>op. op\<lparr>opt_end := lr_revision l\<rparr>) d"
    have "dump_loop fuel ev sv True (if has_flag (de_opts ?d1) DF_KEEP_REVNUMS then opt_start (de_opts ?d1) else local)
        (opt_start (de_opts ?d1)) (local - 1) ?d1 = Some (Val (0, d'))"
      using assms(1) True l by (simp add: dump_start_def Let_def)
    then show ?thesis by (rule that) (use True in auto)
  next
    case False
    then have "dump_loop fuel ev sv False (if opt_start (de_opts d) = 0 then 0 else 1) (opt_start (de_opts d)) 0 d = Some (Val (0, d'))"
      using assms(1) by (simp add: dump_start_def)
    moreover have "\<exists>e. d = upd_opts (\<lambda>op. op\<lparr>opt_end := e\<rparr>) d"
      by (rule exI [of _ "opt_end (de_opts d)"]) (simp add: upd_opts_def)
    ultimately show ?thesis by (rule that) simp
  qed
  have d1': "de_out d1 = de_out d" "dump_format (de_opts d1) = dump_format (de_opts d)" "dump_ok ev d1"
    using d1 assms(2) dump_ok_opts by (auto simp: upd_opts_def)
  from dump_loop_streams [OF l d1'(3) assms(3)] obtain n where n: "local1 + 1 \<le> n"
    "streams (rev_range (first_rev local1 d1) n) d1 d'" "opt_start (de_opts d') = opt_start (de_opts d1)"
    "dump_format (de_opts d') = dump_format (de_opts d1)" by blast
  show ?thesis
  proof (intro exI conjI)
    show "first_rev local1 d1 \<le> n" using n(1) by (simp add: first_rev_def)
    show "streams (rev_range (first_rev local1 d1) n) d d'" by (rule streams_from [OF d1'(1) n(2)])
    show "dump_format (de_opts d') = dump_format (de_opts d)" using n(4) d1'(2) by simp
    show "\<not> mid \<and> \<not> dry d \<longrightarrow> first_rev local1 d1 = (if opt_start (de_opts d') = 0 then 0 else 1) \<and> first_rev local1 d1 < n"
      using m n(1,3) by (auto simp: first_rev_def)
  qed
qed

lemma from_storages_streams:
  assumes "dump_from_storages fuel ev sv mid d = Some (Val (0, d'))" "dump_ok ev d" "server_clean sv" "\<not> dry d"
    "uuid_line ev sv"
  shows "\<exists>its a n. de_out d' = de_out d @ show_items its \<and> list_all (item_ok \<circ> fst) its \<and> a \<le> n \<and>
    List.map_filter (rev_number \<circ> fst) its = rev_range a n \<and>
    (\<not> mid \<longrightarrow> a = (if opt_start (de_opts d') = 0 then 0 else 1) \<and> a < n) \<and>
    (\<not> (has_flag (de_opts d) DF_NO_INCREMENTAL_HEADER \<and> mid) \<longrightarrow>
       its \<noteq> [] \<and> fst (hd its) = Rec [(''SVN-fs-dump-format-version'', dec_int (dump_format (de_opts d')))] None)"
proof -
  obtain local d1 d2 where
    1: "(if mid then dump_history ev sv d
         else Val (0, -1, if prefix (de_session d) \<noteq> [] \<and> opt_start (de_opts d) = 0 then upd_opts (\<lambda>op. op\<lparr>opt_start := 1\<rparr>) d else d)) =
        Val (0, local, d1)"
    and 2: "dump_file_header ev sv mid d1 = Some (0, d2)" and 3: "dump_start fuel ev sv mid local d2 = Some (Val (0, d'))"
    using assms(1) unfolding dump_from_storages_def by (auto split: option.splits res.splits prod.splits if_splits)
  have d1: "de_out d1 = de_out d" "dump_ok ev d1" "\<not> mid \<Longrightarrow> \<not> dry d1"
    "has_flag (de_opts d1) DF_NO_INCREMENTAL_HEADER = has_flag (de_opts d) DF_NO_INCREMENTAL_HEADER"
    using 1 dump_history_step [of ev sv d local d1] assms(2-4) dump_ok_opts [of ev d "\<lambda>op. op\<lparr>opt_start := 1\<rparr>"]
    by (auto simp: upd_opts_def dry_def has_flag_def split: if_splits)
  let ?hs = "map (\<lambda>r. (r, 0 :: nat)) (file_records ev sv mid d1)"
  note d2 = file_header_step [OF 2]
  have ok2: "dump_ok ev d2" by (rule dump_ok_same [OF d1(2)]) (simp_all add: d2 de_print_def)
  from dump_start_streams [OF 3 ok2 assms(3)] obtain a n its where
    n: "a \<le> n" "dump_format (de_opts d') = dump_format (de_opts d1)"
      "\<not> mid \<and> \<not> dry d2 \<longrightarrow> a = (if opt_start (de_opts d') = 0 then 0 else 1) \<and> a < n"
      "de_out d' = de_out d2 @ show_items its" "list_all (item_ok \<circ> fst) its" "List.map_filter (rev_number \<circ> fst) its = rev_range a n"
    by (auto simp: streams_def d2 de_print_def)
  have h: "list_all (item_ok \<circ> fst) ?hs" "List.map_filter (rev_number \<circ> fst) ?hs = []"
    using file_records_ok [OF assms(5), of mid d1] by (simp_all add: list_all_iff List.map_filter_def filter_map comp_def)
  show ?thesis
  proof (rule exI [of _ "?hs @ its"], rule exI [of _ a], rule exI [of _ n], intro conjI)
    show "de_out d' = de_out d @ show_items (?hs @ its)" using n(4) d1(1) by (simp add: d2 de_print_def show_items_def)
    show "list_all (item_ok \<circ> fst) (?hs @ its)" using h(1) n(5) by simp
    show "List.map_filter (rev_number \<circ> fst) (?hs @ its) = rev_range a n" unfolding map_filter_append using h(2) n(6) by simp
    show "\<not> mid \<longrightarrow> a = (if opt_start (de_opts d') = 0 then 0 else 1) \<and> a < n"
      using n(3) d1(3) by (auto simp: d2 dry_def)
    show "\<not> (has_flag (de_opts d) DF_NO_INCREMENTAL_HEADER \<and> mid) \<longrightarrow> ?hs @ its \<noteq> [] \<and>
      fst (hd (?hs @ its)) = Rec [(''SVN-fs-dump-format-version'', dec_int (dump_format (de_opts d')))] None"
      using n(2) d1(4) by (auto simp: file_records_def)
  qed (rule n(1))
qed

lemma dump_items:
  assumes "dump fuel ev sv d = Some (Val (0, d'))" "plain d" "prefix_line (de_opts d)" "\<not> dry d" "server_clean sv"
    "uuid_line ev sv" "\<forall>m. line_ok (md5_to_cstring ev m)"
  shows "\<exists>its a n. de_out d' = de_out d @ show_items its \<and> list_all (item_ok \<circ> fst) its \<and> a \<le> n \<and>
    List.map_filter (rev_number \<circ> fst) its = rev_range a n \<and>
    (\<not> start_mid d \<longrightarrow> a = (if opt_start (de_opts d') = 0 then 0 else 1) \<and> a < n) \<and>
    (\<not> (has_flag (de_opts d) DF_NO_INCREMENTAL_HEADER \<and> start_mid d) \<longrightarrow>
       its \<noteq> [] \<and> fst (hd its) = Rec [(''SVN-fs-dump-format-version'', dec_int (dump_format (de_opts d')))] None)"
proof -
  let ?d = "upd_opts (\<lambda>op. if has_flag op DF_USE_DELTAS then op\<lparr>dump_format := 3\<rparr> else op) d"
  obtain d1 d2 where 1: "dump_range sv ?d = Some (0, d1)" and 2: "dump_storages ev sv d1 = (0, d2)"
    and 3: "dump_from_storages fuel ev sv (start_mid ?d) d2 = Some (Val (0, d'))"
    using assms(1) unfolding dump_def Let_def by (auto split: option.splits prod.splits if_splits)
  have o: "opt_flags (de_opts ?d) = opt_flags (de_opts d)" "opt_start (de_opts ?d) = opt_start (de_opts d)"
    "opt_prefix (de_opts ?d) = opt_prefix (de_opts d)" "de_session ?d = de_session d" "de_out ?d = de_out d"
    by (simp_all add: upd_opts_def)
  note r = dump_range_step [OF 1] and st = dump_storages_step [OF 2]
  have o2: "opt_flags (de_opts d2) = opt_flags (de_opts d)" "opt_prefix (de_opts d2) = opt_prefix (de_opts d)"
    "de_session d2 = de_session d" "de_out d2 = de_out d" using r st o by auto
  have m: "start_mid ?d = start_mid d" using o by (simp add: start_mid_def has_flag_def)
  have ok: "dump_ok ev d2" using o2 st(4) assms(2,3,7) by (simp add: dump_ok_def plain_def prefix_line_def)
  have f: "has_flag (de_opts d2) g = has_flag (de_opts d) g" for g using o2(1) by (simp add: has_flag_def)
  show ?thesis
    using from_storages_streams [OF 3 ok assms(5) _ assms(6)] assms(4) o2(4) unfolding m f by (simp add: dry_def f)
qed

lemma load_items:
  assumes "list_all (item_ok \<circ> fst) its"
  shows "load_recs (length (show_items its)) (show_items its) = Some (map fst its)"
  using load_recs_show [OF assms items_length [OF assms], of 0] by simp

section \<open>Properties\<close>

text \<open>A repository whose first revision adds the file \<open>f\<close>.\<close>

definition demo_entry :: "revnum \<Rightarrow> raw_log" where
  "demo_entry r =
     \<lparr>rl_revision = r, rl_author = None, rl_date = None, rl_message = None,
      rl_changed_paths = Some (if r = 0 then [] else [(''/f'', \<lparr>cp_action = CHR ''A'', cp_copyfrom_path = None, cp_copyfrom_rev = -1\<rparr>)])\<rparr>"

definition demo_server :: server where
  "demo_server =
     \<lparr>sv_stat = (\<lambda>r. Some (Some 1)), sv_check_path = (\<lambda>p r. Some node_dir),
      sv_get_log = (\<lambda>r e n. Some (if n = 0 then [demo_entry 0, demo_entry 1] else [demo_entry r])),
      sv_uuid = Some ''1234'',
      sv_do_diff = (\<lambda>src dest se text. \<lparr>diff_do_diff = True, diff_set_path = True,
        diff_ops = (if dest = 0 then [Open_root, Close_directory, Close_edit]
          else [Open_root, Add_file ''f'', Apply_textdelta (\<lambda>_. ''hi''), Close_file, Close_directory, Close_edit]),
        diff_finish_report = True\<rparr>),
      sv_ra = \<lparr>ra_get_dir = (\<lambda>p r. None), ra_stat = (\<lambda>p r. None)\<rparr>, sv_fopen = disk 500\<rparr>"

definition demo_start :: de where
  "demo_start = upd_opts (\<lambda>op. op\<lparr>opt_start := 1\<rparr>) (demo_de [])"

definition demo_dumped :: de where
  "demo_dumped = (case dump 5 demo_env demo_server demo_start of Some (Val (rc, d)) \<Rightarrow> d)"

lemma demo_dump: "dump 5 demo_env demo_server demo_start = Some (Val (0, demo_dumped))"
proof -
  have "map_option (map_res fst) (dump 5 demo_env demo_server demo_start) = Some (Val 0)" by code_simp
  then obtain x where "dump 5 demo_env demo_server demo_start = Some (Val x)" "fst x = 0"
    by (cases "the (dump 5 demo_env demo_server demo_start)") auto
  then show ?thesis by (cases x) (simp add: demo_dumped_def)
qed

lemma demo_entry_clean: "raw_clean (demo_entry r)"
  by (simp add: raw_clean_def demo_entry_def raw_revision_def rev_small_def rev_props_def PROPS_END_def line_ok_def)

lemma demo_server_clean: "server_clean demo_server"
  by (simp add: server_clean_def demo_server_def demo_entry_clean line_ok_def)

lemma demo_server_forward: "server_forward demo_server"
  by (simp add: server_forward_def demo_server_def demo_entry_def)

lemma demo_uuid: "uuid_line demo_env demo_server"
  by (simp add: uuid_line_def demo_env_def demo_server_def line_ok_def)

text \<open>An incremental dump of the revision 1, and one from \<open>HEAD\<close>.\<close>

definition demo_incremental :: "revnum \<Rightarrow> de" where
  "demo_incremental r = upd_opts (\<lambda>op. op\<lparr>opt_start := r, opt_flags := DF_INCREMENTAL\<rparr>) (demo_de [])"





text \<open>
  The condition on the start is needed: \<open>-r HEAD --incremental\<close> leaves -1 as the start, no log entry is before it, and the dump
  reads the entry before the first one.
\<close>

theorem dump_head_incremental:
  "map_option (\<lambda>r. case r of Past_logs \<Rightarrow> True | _ \<Rightarrow> False) (dump 5 demo_env demo_server (demo_incremental (-1))) = Some True"
  by code_simp

end
