(* ===== verification/Snappy_Memory.thy ===== *)
theory Snappy_Memory
  imports Prelude "HOL-Library.Monad_Syntax"
begin

text \<open>
  What the two halves of \<open>lib/snappy-c/snappy.c\<close> share: byte buffers, the integers read from them,
  the length prefix, and the format of compressed data.

  A buffer is a list of bytes and a pointer into it an index. Loads and stores outside of the buffer,
  and assertions that do not hold, are \<open>None\<close>: a result \<open>Some\<close> says that none happened. The machine
  is a little endian one with 64-bit pointers. Moving eight bytes by a 64-bit load and store is
  \<open>copy64\<close>; all bytes are read before any is written.

  The second half says what compressed data means, independently of the code: a sequence of literals
  and of copies from what is already there, each applied to the output so far. \<open>decode\<close> reads it.
\<close>

unbundle bit_operations_syntax

named_theorems mem \<open>loads and stores inside of their buffers\<close>

type_synonym u16 = "16 word"
type_synonym u64 = "64 word"
type_synonym bytes = "u8 list"

section \<open>Buffers\<close>

definition DCHECK :: "bool \<Rightarrow> unit option" where
  "DCHECK c = (if c then Some () else None)"

definition load8 :: "bytes \<Rightarrow> nat \<Rightarrow> u8 option" where
  "load8 m p = (if p < length m then Some (m ! p) else None)"

definition load_bytes :: "bytes \<Rightarrow> nat \<Rightarrow> nat \<Rightarrow> bytes option" where
  "load_bytes m p n = (if p + n \<le> length m then Some (take n (drop p m)) else None)"

definition store :: "bytes \<Rightarrow> nat \<Rightarrow> bytes \<Rightarrow> bytes option" where
  "store m p bs = (if p + length bs \<le> length m then Some (take p m @ bs @ drop (p + length bs) m) else None)"

fun le_word :: "bytes \<Rightarrow> 'a::len word" where
  "le_word [] = 0"
| "le_word (b # bs) = ucast b OR push_bit 8 (le_word bs)"

definition load32 :: "bytes \<Rightarrow> nat \<Rightarrow> u32 option" where
  "load32 m p = map_option le_word (load_bytes m p 4)"

definition load64 :: "bytes \<Rightarrow> nat \<Rightarrow> u64 option" where
  "load64 m p = map_option le_word (load_bytes m p 8)"

definition copy64 :: "bytes \<Rightarrow> nat \<Rightarrow> bytes \<Rightarrow> nat \<Rightarrow> bytes option" where
  "copy64 src p dst q = do {bs \<leftarrow> load_bytes src p 8; store dst q bs}"

section \<open>The length prefix\<close>

definition varint_encode32 :: "u32 \<Rightarrow> bytes" where
  "varint_encode32 v =
     (if v < 2 ^ 7 then [ucast v]
      else if v < 2 ^ 14 then [ucast (v OR 128), ucast (drop_bit 7 v)]
      else if v < 2 ^ 21 then [ucast (v OR 128), ucast (drop_bit 7 v OR 128), ucast (drop_bit 14 v)]
      else if v < 2 ^ 28 then
        [ucast (v OR 128), ucast (drop_bit 7 v OR 128), ucast (drop_bit 14 v OR 128), ucast (drop_bit 21 v)]
      else [ucast (v OR 128), ucast (drop_bit 7 v OR 128), ucast (drop_bit 14 v OR 128),
        ucast (drop_bit 21 v OR 128), ucast (drop_bit 28 v)])"

text \<open>The value, and what follows it. The five steps of the source differ in the shift and, for the
  last one, in the bound of the byte that ends the number.\<close>

fun varint_steps :: "(nat \<times> u32) list \<Rightarrow> u32 \<Rightarrow> bytes \<Rightarrow> (u32 \<times> bytes) option" where
  "varint_steps [] result bs = None"
| "varint_steps (_ # steps) result [] = None"
| "varint_steps ((shift, bound) # steps) result (c # bs) =
     (let b = ucast c; result = result OR push_bit shift (b AND 127)
      in if b < bound then Some (result, bs) else varint_steps steps result bs)"

definition varint_parse32_with_limit :: "bytes \<Rightarrow> (u32 \<times> bytes) option" where
  "varint_parse32_with_limit bs = varint_steps [(0, 128), (7, 128), (14, 128), (21, 128), (28, 16)] 0 bs"

definition snappy_uncompressed_length :: "bytes \<Rightarrow> nat option" where
  "snappy_uncompressed_length start = map_option (\<lambda>(v, _). unat v) (varint_parse32_with_limit start)"

section \<open>The format\<close>

text \<open>A tag byte announces an element: its two low bits are the kind. A literal has its length in the
  other six bits, or from 60 on in that many of the following bytes less 59. A copy has a length and
  an offset backwards from the end of the output.\<close>

datatype elem = Lit bytes | Copy nat nat

text \<open>The length of a literal is a 32-bit number: a five byte literal tag that ends in four bytes 255
  announces none.\<close>

definition lit_len :: "nat \<Rightarrow> bytes \<Rightarrow> nat" where
  "lit_len n bs = (if n < 60 then n + 1 else unat (le_word (take (n - 59) bs) + 1 :: u32))"

definition parse_lit :: "nat \<Rightarrow> bytes \<Rightarrow> (elem \<times> bytes) option" where
  "parse_lit n bs =
     (let k = n - 59; l = lit_len n bs
      in if length bs < k + l then None else Some (Lit (take l (drop k bs)), drop (k + l) bs))"

definition parse_copy :: "nat \<Rightarrow> nat \<Rightarrow> nat \<Rightarrow> bytes \<Rightarrow> (elem \<times> bytes) option" where
  "parse_copy k len high bs =
     (if length bs < k then None
      else Some (Copy (unat (of_nat (256 * high) + le_word (take k bs) :: u32)) len, drop k bs))"

definition parse_elem :: "u8 \<Rightarrow> bytes \<Rightarrow> (elem \<times> bytes) option" where
  "parse_elem c bs =
     (let t = unat c; n = t div 4
      in if t mod 4 = 0 then parse_lit n bs
         else if t mod 4 = 1 then parse_copy 1 (4 + n mod 8) (n div 8) bs
         else if t mod 4 = 2 then parse_copy 2 (n + 1) 0 bs
         else parse_copy 4 (n + 1) 0 bs)"

fun self_copy :: "bytes \<Rightarrow> nat \<Rightarrow> nat \<Rightarrow> bytes" where
  "self_copy out off 0 = out"
| "self_copy out off (Suc n) = self_copy (out @ [out ! (length out - off)]) off n"

text \<open>The output may not grow over the announced length.\<close>

fun apply_elem :: "nat \<Rightarrow> bytes \<Rightarrow> elem \<Rightarrow> bytes option" where
  "apply_elem lim out (Lit bs) = (if lim < length out + length bs then None else Some (out @ bs))"
| "apply_elem lim out (Copy off len) =
     (if off = 0 \<or> length out < off \<or> lim < length out + len then None else Some (self_copy out off len))"

lemma parse_elem_shorter: "parse_elem c bs = Some (e, rest) \<Longrightarrow> length rest \<le> length bs"
  by (auto simp: parse_elem_def parse_lit_def parse_copy_def Let_def split: if_splits)

function decode :: "nat \<Rightarrow> bytes \<Rightarrow> bytes \<Rightarrow> bytes option" where
  "decode lim out [] = Some out"
| "decode lim out (c # bs) =
     (case parse_elem c bs of
        None \<Rightarrow> None
      | Some (e, rest) \<Rightarrow> (case apply_elem lim out e of None \<Rightarrow> None | Some out \<Rightarrow> decode lim out rest))"
  by pat_completeness auto
termination by (relation "measure (\<lambda>(_, _, bs). length bs)") (auto dest: parse_elem_shorter)

text \<open>A whole compressed block: the length, then elements that give exactly that many bytes.\<close>

definition decode_block :: "bytes \<Rightarrow> bytes option" where
  "decode_block bs =
     (case varint_parse32_with_limit bs of
        None \<Rightarrow> None
      | Some (v, rest) \<Rightarrow>
          (case decode (unat v) [] rest of
             None \<Rightarrow> None
           | Some out \<Rightarrow> if length out = unat v then Some out else None))"

section \<open>Facts on buffers\<close>

lemma DCHECK_simps [simp]: "DCHECK c = Some u \<longleftrightarrow> c" "DCHECK True = Some ()" "DCHECK False = None"
  by (auto simp: DCHECK_def)

lemma load8_inside [mem]: "p < length m \<Longrightarrow> load8 m p = Some (m ! p)"
  by (simp add: load8_def)

lemma load_bytes_inside [mem]: "p + n \<le> length m \<Longrightarrow> load_bytes m p n = Some (take n (drop p m))"
  by (simp add: load_bytes_def)

lemma load32_inside [mem]: "p + 4 \<le> length m \<Longrightarrow> load32 m p = Some (le_word (take 4 (drop p m)))"
  by (simp add: load32_def mem)

lemma load64_inside [mem]: "p + 8 \<le> length m \<Longrightarrow> load64 m p = Some (le_word (take 8 (drop p m)))"
  by (simp add: load64_def mem)

text \<open>The buffer after a store.\<close>

definition upd :: "bytes \<Rightarrow> nat \<Rightarrow> bytes \<Rightarrow> bytes" where
  "upd m p bs = take p m @ bs @ drop (p + length bs) m"

lemma store_inside [mem]: "p + length bs \<le> length m \<Longrightarrow> store m p bs = Some (upd m p bs)"
  by (simp add: store_def upd_def)

lemma length_upd [mem]: "p + length bs \<le> length m \<Longrightarrow> length (upd m p bs) = length m"
  by (simp add: upd_def)

lemma take_upd: "p \<le> length m \<Longrightarrow> take (p + length bs) (upd m p bs) = take p m @ bs"
  by (simp add: upd_def)

lemma nth_upd:
  "p + length bs \<le> length m \<Longrightarrow> i < length m \<Longrightarrow>
     upd m p bs ! i = (if p \<le> i \<and> i < p + length bs then bs ! (i - p) else m ! i)"
  by (auto simp: upd_def nth_append min_def)

lemma copy64_inside [mem]:
  "p + 8 \<le> length src \<Longrightarrow> q + 8 \<le> length dst \<Longrightarrow> copy64 src p dst q = Some (upd dst q (take 8 (drop p src)))"
  by (simp add: copy64_def mem)

lemma unat_of_nat8: "unat (of_nat n :: u8) = n mod 256"
  by (simp add: unat_of_nat)

lemma bit_le_word:
  "bit (le_word bs :: 'a::len word) n \<longleftrightarrow> n < LENGTH('a) \<and> n div 8 < length bs \<and> bit (bs ! (n div 8)) (n mod 8)"
proof (induction bs arbitrary: n)
  case (Cons b bs)
  show ?case
  proof (cases "n < 8")
    case True
    then show ?thesis by (auto simp: bit_simps)
  next
    case False
    then have "n div 8 = Suc ((n - 8) div 8)" "n mod 8 = (n - 8) mod 8" by (simp_all add: le_div_geq le_mod_geq)
    then show ?thesis using False Cons.IH [of "n - 8"]
      by (auto simp: bit_simps not_less dest: bit_imp_le_length)
  qed
qed simp

lemma le_word_inj:
  assumes "length xs = length ys" "8 * length xs \<le> LENGTH('a::len)"
  shows "(le_word xs :: 'a word) = le_word ys \<longleftrightarrow> xs = ys"
proof
  assume eq: "(le_word xs :: 'a word) = le_word ys"
  have "xs ! i = ys ! i" if "i < length xs" for i
  proof (rule bit_word_eqI)
    fix n assume "n < LENGTH(8)"
    then have n: "(8 * i + n) div 8 = i" "(8 * i + n) mod 8 = n" "8 * i + n < LENGTH('a)" using that assms(2) by auto
    have "bit (le_word xs :: 'a word) (8 * i + n) = bit (le_word ys :: 'a word) (8 * i + n)" using eq by simp
    then show "bit (xs ! i) n = bit (ys ! i) n" unfolding bit_le_word using n that assms(1) by simp
  qed
  then show "xs = ys" using assms(1) by (simp add: nth_equalityI)
qed simp

lemma le_word_take_mask:
  "8 * k \<le> LENGTH('a::len) \<Longrightarrow> take_bit (8 * k) (le_word bs :: 'a word) = le_word (take k bs)"
  by (rule bit_word_eqI) (auto simp: bit_take_bit_iff bit_le_word less_mult_imp_div_less)

section \<open>Facts on the length prefix\<close>

lemma varint_step:
  "varint_steps ((shift, bound) # steps) result (ucast w # bs) =
     (if take_bit 8 w < bound then Some (result OR push_bit shift (take_bit 7 w), bs)
      else varint_steps steps (result OR push_bit shift (take_bit 7 w)) bs)"
proof -
  have "ucast (ucast w :: u8) = take_bit 8 w"
    by (rule bit_word_eqI) (auto simp: bit_simps)
  moreover have "take_bit 8 w AND 127 = take_bit 7 w"
  proof (rule bit_word_eqI)
    show "bit (take_bit 8 w AND 127) n = bit (take_bit 7 w) n" if "n < LENGTH(32)" for n
      using that mask_eq_exp_minus_1 [of 7, where 'a = u32] bit_mask_iff [of 7 n, where 'a = u32] by (auto simp: bit_simps)
  qed
  ultimately show ?thesis by (simp add: Let_def del: push_bit_and)
qed

lemma take_bit_small: "unat w < 2 ^ k \<Longrightarrow> take_bit k w = w" for w :: "'a::len word"
  by (metis take_bit_nat_eq_self_iff unsigned_take_bit_eq word_unat_eq_iff)

lemma varint_more: "\<not> (w OR 128 :: u32) < 128" "\<not> (w OR 128 :: u32) < 16"
proof -
  have "(128 :: u32) = (w OR 128) AND 128" by (rule bit_word_eqI) (auto simp: bit_simps)
  also have "\<dots> \<le> w OR 128" by (rule word_and_le2)
  finally show "\<not> (w OR 128) < 128" "\<not> (w OR 128) < 16"
    unfolding not_less by (auto intro: order_trans [of 16 128])
qed

lemma varint_last: "unat (w :: u32) < 128 \<Longrightarrow> take_bit 8 w < 128" "unat (w :: u32) < 16 \<Longrightarrow> take_bit 8 w < 16"
  using take_bit_small [of w 8] by (auto simp: word_less_nat_alt)

lemma varint_join:
  "take_bit a (v :: u32) OR push_bit a (take_bit b (drop_bit a v)) = take_bit (a + b) v"
  by (rule bit_word_eqI) (auto simp: bit_simps)

lemma drop_bit_small: "unat w < 2 ^ (k + j) \<Longrightarrow> unat (drop_bit k w) < 2 ^ j" for w :: "'a::len word"
  by (simp add: unat_drop_bit_eq drop_bit_nat_def less_mult_imp_div_less power_add mult.commute)

lemma varint_roundtrip: "varint_parse32_with_limit (varint_encode32 v @ rest) = Some (v, rest)"
proof -
  have j: "take_bit 7 v OR push_bit 7 (take_bit 7 (drop_bit 7 v)) = take_bit 14 v"
    "take_bit 14 v OR push_bit 14 (take_bit 7 (drop_bit 14 v)) = take_bit 21 v"
    "take_bit 21 v OR push_bit 21 (take_bit 7 (drop_bit 21 v)) = take_bit 28 v"
    "take_bit 28 v OR push_bit 28 (take_bit 7 (drop_bit 28 v)) = take_bit 35 v"
    using varint_join [of _ v 7] by simp_all
  have v: "take_bit 35 v = v" by (rule take_bit_word_eq_self) simp
  have l: "v < 2 ^ 14 \<Longrightarrow> take_bit 8 (drop_bit 7 v) < 128" "v < 2 ^ 21 \<Longrightarrow> take_bit 8 (drop_bit 14 v) < 128"
    "v < 2 ^ 28 \<Longrightarrow> take_bit 8 (drop_bit 21 v) < 128" "take_bit 8 (drop_bit 28 v) < 16"
    using drop_bit_small [of v 7 7] drop_bit_small [of v 14 7] drop_bit_small [of v 21 7] drop_bit_small [of v 28 4] unsigned_less [of v, where 'a = nat]
    by (auto intro!: varint_last simp: word_less_nat_alt [of v])
  have t: "v < 2 ^ 7 \<Longrightarrow> take_bit 7 v = v" "v < 2 ^ 14 \<Longrightarrow> take_bit 14 v = v" "v < 2 ^ 21 \<Longrightarrow> take_bit 21 v = v"
    "v < 2 ^ 28 \<Longrightarrow> take_bit 28 v = v"
    using take_bit_small [of v] by (auto simp: word_less_nat_alt)
  show ?thesis
    unfolding varint_parse32_with_limit_def varint_encode32_def
    using t l by (auto simp: varint_step varint_more varint_last word_less_nat_alt [of v] j v simp del: varint_steps.simps(3))
qed

section \<open>Facts on the format\<close>

lemma length_self_copy [simp]: "length (self_copy out off n) = length out + n"
  by (induction n arbitrary: out) simp_all

lemma self_copy_add: "self_copy out off (m + n) = self_copy (self_copy out off m) off n"
  by (induction m arbitrary: out) simp_all

text \<open>The one list that goes on periodically from the output.\<close>

lemma self_copy_eqI:
  assumes "0 < off" "off \<le> length out" "length xs = length out + n" "take (length out) xs = out"
    and "\<And>i. length out \<le> i \<Longrightarrow> i < length xs \<Longrightarrow> xs ! i = xs ! (i - off)"
  shows "self_copy out off n = xs"
  using assms
proof (induction n arbitrary: out)
  case (Suc n)
  let ?L = "length out"
  have nth: "out ! j = xs ! j" if "j < ?L" for j using Suc.prems(4) that by (metis nth_take)
  have "xs ! ?L = out ! (?L - off)" using Suc.prems(5) [of ?L] Suc.prems(1-3) nth [of "?L - off"] by simp
  then have "take (Suc ?L) xs = out @ [out ! (?L - off)]"
    using Suc.prems(3,4) by (simp add: take_Suc_conv_app_nth)
  then show ?case using Suc.IH [of "out @ [out ! (?L - off)]"] Suc.prems by simp
qed simp

text \<open>Copying from a place of the output where it agrees with what has to follow.\<close>

lemma self_copy_match:
  assumes "cand < base" "base + n \<le> length m" "take n (drop base m) = take n (drop cand m)"
  shows "self_copy (pre @ take base m) (base - cand) n = pre @ take (base + n) m"
proof (rule self_copy_eqI)
  fix i assume i: "length (pre @ take base m) \<le> i" "i < length (pre @ take (base + n) m)"
  then obtain j where j: "j < n" "i = length pre + (base + j)"
    using assms(2) le_Suc_ex [OF i(1)] by auto
  have "take n (drop base m) ! j = take n (drop cand m) ! j" using assms(3) by simp
  then have "m ! (base + j) = m ! (cand + j)" using j(1) assms(1,2) by simp
  moreover have "i - (base - cand) = length pre + (cand + j)" using j assms(1) by simp
  ultimately show "(pre @ take (base + n) m) ! i = (pre @ take (base + n) m) ! (i - (base - cand))"
    using j assms(1,2) by (simp add: nth_append add.commute)
qed (use assms in auto)

section \<open>Decoding a prefix\<close>

text \<open>The bytes extend the output, whatever follows them.\<close>

definition extends :: "bytes \<Rightarrow> bytes \<Rightarrow> bytes \<Rightarrow> bool" where
  "extends bs out out' \<longleftrightarrow>
     length out \<le> length out' \<and>
     (\<forall>lim rest. length out' \<le> lim \<longrightarrow> decode lim out (bs @ rest) = decode lim out' rest)"

lemma extends_Nil [simp]: "extends [] out out"
  by (simp add: extends_def)

lemma extends_append: "extends bs out out1 \<Longrightarrow> extends cs out1 out2 \<Longrightarrow> extends (bs @ cs) out out2"
  by (simp add: extends_def)

lemma extends_one:
  assumes "\<And>rest. parse_elem c (bs @ rest) = Some (e, rest)" "\<And>lim. length out' \<le> lim \<Longrightarrow> apply_elem lim out e = Some out'"
    "length out \<le> length out'"
  shows "extends (c # bs) out out'"
  using assms by (simp add: extends_def)

lemma extends_decode: "extends bs [] out \<Longrightarrow> decode (length out) [] bs = Some out"
  unfolding extends_def by (metis append_Nil2 decode.simps(1) order_refl)

section \<open>Little endian numbers\<close>

fun le_val :: "bytes \<Rightarrow> nat" where
  "le_val [] = 0"
| "le_val (b # bs) = unat b + 256 * le_val bs"

lemma le_val_less: "le_val bs < 256 ^ length bs"
proof (induction bs)
  case (Cons b bs)
  moreover have "unat b < 256" using unsigned_less [of b, where 'a = nat] by simp
  ultimately show ?case by simp
qed simp

lemma le_word_val: "(le_word bs :: 'a::len word) = of_nat (le_val bs)" if "8 \<le> LENGTH('a)"
proof (induction bs)
  case (Cons b bs)
  have "(ucast b OR push_bit 8 (le_word bs) :: 'a word) = ucast b + push_bit 8 (le_word bs)"
    using bit_imp_le_length [of b] by (intro disjunctive_add [symmetric]) (fastforce simp: bit_simps)
  also have "\<dots> = of_nat (unat b) + 256 * of_nat (le_val bs)"
    by (simp add: Cons.IH push_bit_eq_mult unsigned_of_nat unat_of_nat)
  finally show ?case by simp
qed simp

lemma unat_le_word: "length bs \<le> 4 \<Longrightarrow> unat (le_word bs :: u32) = le_val bs"
proof -
  assume "length bs \<le> 4"
  then have "(256 :: nat) ^ length bs \<le> 256 ^ 4" by (intro power_increasing) auto
  then have "le_val bs < 2 ^ 32" using le_val_less [of bs] by simp
  then show ?thesis by (simp add: le_word_val unat_of_nat)
qed

end
