(* ===== verification/Snappy_Compress.thy ===== *)
theory Snappy_Compress
  imports Snappy_Memory
begin

text \<open>
  The compressor of \<open>lib/snappy-c/snappy.c\<close>, in the build without \<open>SG\<close>. Input is compressed in
  blocks of 32 KiB: a hash table remembers where four bytes were seen, bytes that were not seen are
  emitted as literals, others as copies. A pointer into the input is an index of the block; the
  output buffer \<open>obuf\<close> is a buffer and the index \<open>op\<close> where the next byte goes.

  The three loops of \<open>compress_fragment\<close> are \<open>cf_search\<close> (step 1), \<open>cf_copies\<close> (step 3) and \<open>cf_main\<close>.
  They have fuel, because the skipping of the search is a machine word; the block's length is enough.
\<close>

unbundle bit_operations_syntax

section \<open>Definitions\<close>

type_synonym obuf = "bytes \<times> nat"

definition LITERAL :: int where "LITERAL = 0"
definition COPY_1_BYTE_OFFSET :: nat where "COPY_1_BYTE_OFFSET = 1"
definition COPY_2_BYTE_OFFSET :: nat where "COPY_2_BYTE_OFFSET = 2"

definition snappy_max_compressed_length :: "nat \<Rightarrow> nat" where
  "snappy_max_compressed_length source_len = 32 + source_len + source_len div 6"

subsection \<open>Emitting\<close>

function emit_len :: "obuf \<Rightarrow> int \<Rightarrow> nat \<Rightarrow> (obuf \<times> nat) option" where
  "emit_len (m, op) n count =
     (if 0 < n
      then do {m \<leftarrow> store m op [of_int (n AND 0xff)]; emit_len (m, op + 1) (drop_bit 8 n) (count + 1)}
      else Some ((m, op), count))"
  by pat_completeness auto
termination by (relation "measure (\<lambda>(_, n, _). nat n)") (auto simp: drop_bit_int_def)

declare emit_len.simps [simp del]

definition emit_literal :: "obuf \<Rightarrow> bytes \<Rightarrow> nat \<Rightarrow> nat \<Rightarrow> bool \<Rightarrow> obuf option" where
  "emit_literal ob input literal len allow_fast_path =
     (case ob of (m, op) \<Rightarrow>
        let n = int len - 1
        in if n < 60 then do {
             m \<leftarrow> store m op [of_int (LITERAL OR push_bit 2 n)];
             if allow_fast_path \<and> len \<le> 16 then do {
               m \<leftarrow> copy64 input literal m (op + 1);
               m \<leftarrow> copy64 input (literal + 8) m (op + 1 + 8);
               Some (m, op + 1 + len)
             } else do {
               bs \<leftarrow> load_bytes input literal len;
               m \<leftarrow> store m (op + 1) bs;
               Some (m, op + 1 + len)
             }
           } else do {
             ((m, op'), count) \<leftarrow> emit_len (m, op + 1) n 0;
             DCHECK (count \<ge> 1);
             DCHECK (count \<le> 4);
             m \<leftarrow> store m op [of_int (LITERAL OR push_bit 2 (59 + int count))];
             bs \<leftarrow> load_bytes input literal len;
             m \<leftarrow> store m op' bs;
             Some (m, op' + len)
           })"

definition emit_copy_less_than64 :: "obuf \<Rightarrow> nat \<Rightarrow> nat \<Rightarrow> obuf option" where
  "emit_copy_less_than64 ob offset len =
     (case ob of (m, op) \<Rightarrow> do {
        DCHECK (len \<le> 64);
        DCHECK (len \<ge> 4);
        DCHECK (offset < 65536);
        if len < 12 \<and> offset < 2048 then do {
          let len_minus_4 = len - 4;
          DCHECK (len_minus_4 < 8);
          m \<leftarrow> store m op [of_nat (COPY_1_BYTE_OFFSET OR push_bit 2 len_minus_4 OR push_bit 5 (drop_bit 8 offset))];
          m \<leftarrow> store m (op + 1) [of_nat (offset AND 0xff)];
          Some (m, op + 2)
        } else do {
          m \<leftarrow> store m op [of_nat (COPY_2_BYTE_OFFSET OR push_bit 2 (len - 1))];
          m \<leftarrow> store m (op + 1) [of_nat offset, of_nat (drop_bit 8 offset)];
          Some (m, op + 3)
        }
      })"

function emit_copy :: "obuf \<Rightarrow> nat \<Rightarrow> nat \<Rightarrow> obuf option" where
  "emit_copy ob offset len =
     (if len \<ge> 68 then do {ob \<leftarrow> emit_copy_less_than64 ob offset 64; emit_copy ob offset (len - 64)}
      else if len > 64 then do {
        ob \<leftarrow> emit_copy_less_than64 ob offset 60;
        emit_copy_less_than64 ob offset (len - 60)
      } else emit_copy_less_than64 ob offset len)"
  by pat_completeness auto
termination by (relation "measure (\<lambda>(_, _, len). len)") auto

declare emit_copy.simps [simp del]

subsection \<open>The hash table\<close>

record snappy_env =
  hash_table :: "u16 list"

definition kblock_size :: nat where "kblock_size = 2 ^ 15"
definition kmax_hash_table_size :: nat where "kmax_hash_table_size = 2 ^ 14"

text \<open>The result of \<open>malloc\<close> is the argument; its contents are arbitrary.\<close>

definition snappy_init_env :: "u16 list option \<Rightarrow> int \<times> snappy_env option" where
  "snappy_init_env table = (case table of None \<Rightarrow> (- 12, None) | Some t \<Rightarrow> (0, Some \<lparr>hash_table = t\<rparr>))"

definition clz32 :: "u32 \<Rightarrow> nat" where
  "clz32 n = length (takeWhile (\<lambda>i. \<not> bit n i) (rev [0..<32]))"

definition log2_floor :: "u32 \<Rightarrow> int" where
  "log2_floor n = (if n = 0 then - 1 else 31 XOR int (clz32 n))"

definition ctz64 :: "u64 \<Rightarrow> nat" where
  "ctz64 n = length (takeWhile (\<lambda>i. \<not> bit n i) [0..<64])"

definition ctz32 :: "u32 \<Rightarrow> nat" where
  "ctz32 n = length (takeWhile (\<lambda>i. \<not> bit n i) [0..<32])"

definition hash_bytes :: "u32 \<Rightarrow> nat \<Rightarrow> u32" where
  "hash_bytes bs shift = drop_bit shift (bs * 0x1e35a7bd)"

definition hash :: "bytes \<Rightarrow> nat \<Rightarrow> nat \<Rightarrow> u32 option" where
  "hash m p shift = do {w \<leftarrow> load32 m p; Some (hash_bytes w shift)}"

text \<open>The size is doubled from 256 on; from 0 on the loop would not end.\<close>

function hash_size :: "nat \<Rightarrow> nat \<Rightarrow> nat" where
  "hash_size htsize input_size =
     (if 0 < htsize \<and> htsize < kmax_hash_table_size \<and> htsize < input_size then hash_size (push_bit 1 htsize) input_size
      else htsize)"
  by pat_completeness auto
termination by (relation "measure (\<lambda>(h, _). kmax_hash_table_size - h)") (auto simp: push_bit_nat_def)

declare hash_size.simps [simp del]

definition get_hash_table :: "snappy_env \<Rightarrow> nat \<Rightarrow> (u16 list \<times> nat) option" where
  "get_hash_table env input_size = do {
     let htsize = hash_size 256 input_size;
     DCHECK (htsize AND (htsize - 1) = 0);
     DCHECK (htsize \<le> kmax_hash_table_size);
     DCHECK (htsize \<le> length (hash_table env));
     Some (replicate htsize 0 @ drop htsize (hash_table env), htsize)
   }"

definition table_get :: "u16 list \<Rightarrow> u32 \<Rightarrow> nat option" where
  "table_get table h = (if unat h < length table then Some (unat (table ! unat h)) else None)"

definition table_put :: "u16 list \<Rightarrow> u32 \<Rightarrow> nat \<Rightarrow> u16 list option" where
  "table_put table h p = (if unat h < length table then Some (table[unat h := of_nat p]) else None)"

subsection \<open>Matches\<close>

function match_bytes :: "bytes \<Rightarrow> nat \<Rightarrow> nat \<Rightarrow> nat \<Rightarrow> nat \<Rightarrow> nat option" where
  "match_bytes m s1 s2 s2_limit matched =
     (if s2 < s2_limit then do {
        a \<leftarrow> load8 m (s1 + matched);
        b \<leftarrow> load8 m s2;
        if a = b then match_bytes m s1 (s2 + 1) s2_limit (matched + 1) else Some matched
      } else Some matched)"
  by pat_completeness auto
termination by (relation "measure (\<lambda>(_, _, s2, lim, _). lim - s2)") auto

function match_words :: "bytes \<Rightarrow> nat \<Rightarrow> nat \<Rightarrow> nat \<Rightarrow> nat \<Rightarrow> nat option" where
  "match_words m s1 s2 s2_limit matched =
     (if s2 + 8 \<le> s2_limit then do {
        a \<leftarrow> load64 m s2;
        b \<leftarrow> load64 m (s1 + matched);
        if a = b then match_words m s1 (s2 + 8) s2_limit (matched + 8)
        else Some (matched + drop_bit 3 (ctz64 (a XOR b)))
      } else match_bytes m s1 s2 s2_limit matched)"
  by pat_completeness auto
termination by (relation "measure (\<lambda>(_, _, s2, lim, _). lim - s2)") auto

declare match_bytes.simps [simp del] match_words.simps [simp del]

definition find_match_length :: "bytes \<Rightarrow> nat \<Rightarrow> nat \<Rightarrow> nat \<Rightarrow> nat option" where
  "find_match_length m s1 s2 s2_limit = do {DCHECK (s2_limit \<ge> s2); match_words m s1 s2 s2_limit 0}"

text \<open>The version for other machines.\<close>

function match_words32 :: "bool \<Rightarrow> bytes \<Rightarrow> nat \<Rightarrow> nat \<Rightarrow> nat \<Rightarrow> nat \<Rightarrow> nat option" where
  "match_words32 is_little_endian m s1 s2 s2_limit matched =
     (if s2 + 4 \<le> s2_limit then do {
        a \<leftarrow> load32 m s2;
        b \<leftarrow> load32 m (s1 + matched);
        if a = b then match_words32 is_little_endian m s1 (s2 + 4) s2_limit (matched + 4)
        else if is_little_endian then Some (matched + drop_bit 3 (ctz32 (a XOR b)))
        else match_bytes m s1 s2 s2_limit matched
      } else match_bytes m s1 s2 s2_limit matched)"
  by pat_completeness auto
termination by (relation "measure (\<lambda>(_, _, _, s2, lim, _). lim - s2)") auto

declare match_words32.simps [simp del]

definition find_match_length_generic :: "bool \<Rightarrow> bytes \<Rightarrow> nat \<Rightarrow> nat \<Rightarrow> nat \<Rightarrow> nat option" where
  "find_match_length_generic is_little_endian m s1 s2 s2_limit = do {
     DCHECK (s2_limit \<ge> s2);
     match_words32 is_little_endian m s1 s2 s2_limit 0
   }"

definition get_u32_at_offset :: "u64 \<Rightarrow> nat \<Rightarrow> u32 option" where
  "get_u32_at_offset v offset = do {DCHECK (offset \<le> 4); Some (ucast (drop_bit (8 * offset) v))}"

subsection \<open>Blocks\<close>

text \<open>Step 1: a position and an earlier one with the same four bytes, or that the input is nearly
  used up.\<close>

datatype search = Remainder "u16 list" | Match nat nat "u16 list"

fun cf_search :: "nat \<Rightarrow> bytes \<Rightarrow> nat \<Rightarrow> nat \<Rightarrow> u32 \<Rightarrow> nat \<Rightarrow> u32 \<Rightarrow> u16 list \<Rightarrow> search option" where
  "cf_search 0 input shift ip_limit skip ip hval table = None"
| "cf_search (Suc k) input shift ip_limit skip ip hval table = do {
     h \<leftarrow> hash input ip shift;
     DCHECK (hval = h);
     let bytes_between_hash_lookups = drop_bit 5 skip;
     let next_ip = ip + unat bytes_between_hash_lookups;
     if next_ip > ip_limit then Some (Remainder table)
     else do {
       next_hash \<leftarrow> hash input next_ip shift;
       candidate \<leftarrow> table_get table hval;
       DCHECK (candidate < ip);
       table \<leftarrow> table_put table hval ip;
       a \<leftarrow> load32 input ip;
       b \<leftarrow> load32 input candidate;
       if a \<noteq> b then cf_search k input shift ip_limit (skip + 1) next_ip next_hash table
       else Some (Match ip candidate table)
     }
   }"

text \<open>Step 3: copies for as long as the bytes behind them were seen as well. The result is the
  position behind the last copy, and the hash of the next one unless the input is nearly used up.\<close>

fun cf_copies ::
  "nat \<Rightarrow> bytes \<Rightarrow> nat \<Rightarrow> nat \<Rightarrow> nat \<Rightarrow> nat \<Rightarrow> u16 list \<Rightarrow> obuf \<Rightarrow> (nat \<times> u32 option \<times> u16 list \<times> obuf) option" where
  "cf_copies 0 input shift ip_limit ip candidate table ob = None"
| "cf_copies (Suc k) input shift ip_limit base candidate table ob = do {
     n \<leftarrow> find_match_length input (candidate + 4) (base + 4) (length input);
     let matched = 4 + n;
     let ip = base + matched;
     let offset = base - candidate;
     a \<leftarrow> load_bytes input base matched;
     b \<leftarrow> load_bytes input candidate matched;
     DCHECK (a = b);
     ob \<leftarrow> emit_copy ob offset matched;
     if ip \<ge> ip_limit then Some (ip, None, table, ob)
     else do {
       input_bytes \<leftarrow> load64 input (ip - 1);
       w \<leftarrow> get_u32_at_offset input_bytes 0;
       table \<leftarrow> table_put table (hash_bytes w shift) (ip - 1);
       w \<leftarrow> get_u32_at_offset input_bytes 1;
       candidate \<leftarrow> table_get table (hash_bytes w shift);
       candidate_bytes \<leftarrow> load32 input candidate;
       table \<leftarrow> table_put table (hash_bytes w shift) ip;
       if w = candidate_bytes then cf_copies k input shift ip_limit ip candidate table ob
       else do {
         w \<leftarrow> get_u32_at_offset input_bytes 2;
         Some (ip, Some (hash_bytes w shift), table, ob)
       }
     }
   }"

fun cf_main ::
  "nat \<Rightarrow> bytes \<Rightarrow> nat \<Rightarrow> nat \<Rightarrow> nat \<Rightarrow> u32 \<Rightarrow> nat \<Rightarrow> u16 list \<Rightarrow> obuf \<Rightarrow> (nat \<times> u16 list \<times> obuf) option" where
  "cf_main 0 input shift ip_limit ip next_hash next_emit table ob = None"
| "cf_main (Suc k) input shift ip_limit ip next_hash next_emit table ob = do {
     DCHECK (next_emit < ip);
     r \<leftarrow> cf_search (length input) input shift ip_limit 32 ip next_hash table;
     case r of
       Remainder table \<Rightarrow> Some (next_emit, table, ob)
     | Match ip candidate table \<Rightarrow> do {
         DCHECK (next_emit + 16 \<le> length input);
         ob \<leftarrow> emit_literal ob input next_emit (ip - next_emit) True;
         (ip, nh, table, ob) \<leftarrow> cf_copies (length input) input shift ip_limit ip candidate table ob;
         case nh of
           None \<Rightarrow> Some (ip, table, ob)
         | Some next_hash \<Rightarrow> cf_main k input shift ip_limit (ip + 1) next_hash ip table ob
       }
   }"

definition cf_scan :: "bytes \<Rightarrow> nat \<Rightarrow> u16 list \<Rightarrow> obuf \<Rightarrow> (nat \<times> u16 list \<times> obuf) option" where
  "cf_scan input shift table ob =
     (if length input \<ge> 15 then do {
        let ip_limit = length input - 15;
        next_hash \<leftarrow> hash input 1 shift;
        cf_main (length input) input shift ip_limit 1 next_hash 0 table ob
      } else Some (0, table, ob))"

definition compress_fragment :: "bytes \<Rightarrow> obuf \<Rightarrow> u16 list \<Rightarrow> nat \<Rightarrow> (obuf \<times> u16 list) option" where
  "compress_fragment input ob table table_size = do {
     DCHECK (length input \<le> kblock_size);
     DCHECK (table_size AND (table_size - 1) = 0);
     let shift = nat (32 - log2_floor (of_nat table_size));
     DCHECK (unat (drop_bit shift (- 1 :: u32)) = table_size - 1);
     (next_emit, table, ob) \<leftarrow> cf_scan input shift table ob;
     ob \<leftarrow> (if next_emit < length input then emit_literal ob input next_emit (length input - next_emit) False
           else Some ob);
     Some (ob, table)
   }"

subsection \<open>The whole input\<close>

text \<open>The reader is the input that is left, \<open>N\<close> the number of bytes still to compress. Were there
  fewer bytes than that, the code would use a scratch buffer that this build does not allocate.\<close>

function compress_blocks :: "snappy_env \<Rightarrow> bytes \<Rightarrow> obuf \<Rightarrow> int \<Rightarrow> (int \<times> snappy_env \<times> obuf) option" where
  "compress_blocks env reader ob N =
     (if N > 0 then
        if reader = [] then Some (- 5, env, ob)
        else do {
          let num_to_read = nat (min N (int kblock_size));
          DCHECK (length reader \<ge> num_to_read);
          (table, table_size) \<leftarrow> get_hash_table env num_to_read;
          (ob, table) \<leftarrow> compress_fragment (take num_to_read reader) ob table table_size;
          compress_blocks (env\<lparr>hash_table := table\<rparr>) (drop num_to_read reader) ob (N - int num_to_read)
        }
      else Some (0, env, ob))"
  by pat_completeness auto
termination by (relation "measure (\<lambda>(_, _, _, N). nat N)") (auto simp: kblock_size_def)

declare compress_blocks.simps [simp del]

text \<open>The length is an \<open>int\<close>: it wraps to a negative number from 2 GiB on.\<close>

definition compress_source :: "snappy_env \<Rightarrow> bytes \<Rightarrow> obuf \<Rightarrow> (int \<times> snappy_env \<times> obuf) option" where
  "compress_source env reader ob =
     (case ob of (m, op) \<Rightarrow> do {
        let N = (of_nat (length reader) :: u32);
        let ulength = varint_encode32 N;
        m \<leftarrow> store m op ulength;
        compress_blocks env reader (m, op + length ulength) (sint N)
      })"

definition snappy_compress :: "snappy_env \<Rightarrow> bytes \<Rightarrow> bytes \<Rightarrow> (int \<times> snappy_env \<times> bytes \<times> nat) option" where
  "snappy_compress env input compressed = do {
     (err, env, (m, op)) \<leftarrow> compress_source env input (compressed, 0);
     Some (err, env, m, op)
   }"

section \<open>Emitting\<close>

definition emits :: "obuf \<Rightarrow> bytes \<Rightarrow> obuf \<Rightarrow> bool" where
  "emits ob bs ob' \<longleftrightarrow>
     length (fst ob') = length (fst ob) \<and> snd ob' = snd ob + length bs \<and> snd ob' \<le> length (fst ob') \<and>
     take (snd ob') (fst ob') = take (snd ob) (fst ob) @ bs"

lemma emits_refl [simp]: "op \<le> length m \<Longrightarrow> emits (m, op) [] (m, op)"
  by (simp add: emits_def)

lemma emits_trans: "emits ob bs ob1 \<Longrightarrow> emits ob1 cs ob2 \<Longrightarrow> emits ob (bs @ cs) ob2"
  unfolding emits_def by (auto simp: add.assoc)

lemma emits_store [mem]: "op + length bs \<le> length m \<Longrightarrow> emits (m, op) bs (upd m op bs, op + length bs)"
  by (simp add: emits_def mem take_upd)

lemma emits_two:
  "op + length a + length b \<le> length m \<Longrightarrow>
     emits (m, op) (a @ b) (upd (upd m op a) (op + length a) b, op + length a + length b)"
  by (rule emits_trans [OF emits_store emits_store]) (simp_all add: mem)

text \<open>Storing more than is emitted is harmless.\<close>

lemma emits_take:
  assumes "emits (m, op) bs (m', op')" "n \<le> length bs"
  shows "emits (m, op) (take n bs) (m', op + n)"
proof -
  have m': "length m' = length m" "op' = op + length bs" "op' \<le> length m'" "take op' m' = take op m @ bs"
    using assms by (auto simp: emits_def)
  have "take (op + n) m' = take (op + n) (take op' m')" using assms(2) m'(2) by simp
  also have "\<dots> = take op m @ take n bs" unfolding m'(4) using m'(1-3) by simp
  finally show ?thesis using m' assms(2) by (simp add: emits_def)
qed

subsection \<open>Literals\<close>

definition lit_header :: "nat \<Rightarrow> bytes" where
  "lit_header len =
     (let n = len - 1
      in if n < 60 then [of_nat (4 * n)]
         else if n < 256 then [of_nat 240, of_nat n]
         else [of_nat 244, of_nat n, of_nat (n div 256)])"

lemma length_lit_header: "length (lit_header len) \<le> 3"
  "len \<le> 60 \<Longrightarrow> length (lit_header len) = 1" "len \<le> 256 \<Longrightarrow> length (lit_header len) \<le> 2"
  by (auto simp: lit_header_def Let_def)

lemma parse_literal:
  assumes "unat c = 4 * n" "n - 59 = length k" "n < 64" "lit_len n (k @ bs) = length bs"
  shows "parse_elem c ((k @ bs) @ rest) = Some (Lit bs, rest)"
proof -
  have "lit_len n ((k @ bs) @ rest) = lit_len n (k @ bs)" using assms(2) by (simp add: lit_len_def)
  then show ?thesis using assms by (simp add: parse_elem_def parse_lit_def Let_def)
qed

lemma extends_literal:
  assumes "bs \<noteq> []" "length bs \<le> 65536"
  shows "extends (lit_header (length bs) @ bs) out (out @ bs)"
proof -
  define n where "n = length bs - 1"
  have n: "length bs = n + 1" "n < 65536" using assms by (cases bs, auto simp: n_def)
  have "unat (of_nat (Suc n) :: u32) = Suc n" using n by (simp add: unat_of_nat del: of_nat_Suc)
  then have u: "unat (of_nat n + 1 :: u32) = n + 1" unfolding of_nat_Suc by (simp only: add.commute Suc_eq_plus1)
  have *: "extends (c # k @ bs) out (out @ bs)"
    if "unat c = 4 * t" "t - 59 = length k" "t < 64" "lit_len t (k @ bs) = length bs" for c k t
    by (rule extends_one [where e = "Lit bs"]) (simp_all only: parse_literal [OF that], auto)
  consider "n < 60" | "60 \<le> n" "n < 256" | "256 \<le> n" by linarith
  then show ?thesis
  proof cases
    case 1
    then show ?thesis using * [of "of_nat (4 * n)" n "[]"] n
      by (simp add: lit_header_def lit_len_def unat_of_nat8 Let_def del: of_nat_mult)
  next
    case 2
    then show ?thesis using * [of "of_nat 240" 60 "[of_nat n]"] n u
      by (simp add: lit_header_def lit_len_def le_word_val unat_of_nat8 Let_def del: le_word.simps)
  next
    case 3
    have "n div 256 < 256" using n(2) by simp
    then have v: "le_val [of_nat n, of_nat (n div 256)] = n" by (simp add: unat_of_nat8)
    have "lit_len 61 ([of_nat n, of_nat (n div 256)] @ bs) = length bs"
      using u n by (simp add: lit_len_def le_word_val v del: le_val.simps le_word.simps)
    then show ?thesis using * [of "of_nat 244" 61 "[of_nat n, of_nat (n div 256)]"] 3 n
      by (simp add: lit_header_def unat_of_nat8 Let_def)
  qed
qed

lemma lit_tag:
  assumes "0 < len" "len \<le> 60"
  shows "of_int (LITERAL OR push_bit 2 (int len - 1)) = (of_nat (4 * (len - 1)) :: u8)"
  using assms by (simp add: LITERAL_def push_bit_int_def of_nat_diff)

lemma of_int_and_255: "(of_int (n AND 0xff) :: u8) = of_int n"
proof -
  have "n AND 0xff = take_bit 8 n" by (simp add: take_bit_eq_mask mask_eq_exp_minus_1)
  then show ?thesis by (simp add: word_of_int_eq_iff)
qed

lemma of_nat_and_255: "(of_nat (n AND 0xff) :: u8) = of_nat n"
proof -
  have "n AND 0xff = take_bit 8 n" by (simp add: take_bit_eq_mask mask_eq_exp_minus_1)
  then show ?thesis by (simp add: word_of_nat_eq_iff)
qed

lemma emit_len_small:
  assumes "60 \<le> n" "n < 65536" "op + 2 \<le> length m"
    and k: "k = (if n < 256 then [of_nat n] else [of_nat n, of_nat (n div 256)])"
  obtains m' where "emit_len (m, op) (int n) 0 = Some ((m', op + length k), length k)" "emits (m, op) k (m', op + length k)"
proof -
  let ?m = "upd m op [of_nat n]"
  have d: "drop_bit 8 (int n) = int (n div 256)" "drop_bit 8 (int (n div 256)) = 0" using assms
    by (simp_all add: drop_bit_int_def zdiv_int)
  have 1: "emits (m, op) [of_nat n] (?m, op + 1)" using emits_store [of op "[of_nat n]" m] assms(3) by simp
  have s1: "emit_len (m, op) (int n) 0 = emit_len (?m, op + 1) (int (n div 256)) 1"
    using assms d by (subst emit_len.simps) (simp add: mem of_int_and_255)
  show thesis
  proof (cases "n < 256")
    case True
    then show thesis using that [of ?m] k 1 s1 by (simp add: emit_len.simps [of _ _ 0])
  next
    case False
    let ?m2 = "upd ?m (op + 1) [of_nat (n div 256)]"
    have "emits (?m, op + 1) [of_nat (n div 256)] (?m2, op + 2)"
      using emits_store [of "op + 1" "[of_nat (n div 256)]" ?m] assms(3) by (simp add: mem)
    from emits_trans [OF 1 this] have 2: "emits (m, op) k (?m2, op + 2)" using False k by simp
    have "emit_len (?m, op + 1) (int (n div 256)) 1 = Some ((?m2, op + 2), 2)"
      using d(2) False assms(3)
      by (subst emit_len.simps)
        (simp add: mem of_int_and_255 emit_len.simps [of _ _ 0] div_greater_zero_iff numeral_2_eq_2 zdiv_int [symmetric])
    then show thesis using that [of ?m2] 2 s1 False k by simp
  qed
qed

lemma emit_literal_short:
  assumes len: "0 < len" "len \<le> 60" "literal + len \<le> length input" "fast \<longrightarrow> literal + 16 \<le> length input"
    and space: "op + len + 17 \<le> length m"
  obtains ob where "emit_literal (m, op) input literal len fast = Some ob"
    "emits (m, op) (lit_header len @ take len (drop literal input)) ob"
proof -
  let ?bs = "take len (drop literal input)" and ?tag = "[of_nat (4 * (len - 1))] :: bytes"
  let ?m = "upd m op ?tag"
  have l: "length ?m = length m" using space by (simp add: mem)
  have h: "lit_header len = ?tag" using len(2) by (simp add: lit_header_def Let_def)
  have 1: "emits (m, op) ?tag (?m, op + 1)" using emits_store [of op ?tag m] space by simp
  have head: "of_int (LITERAL OR push_bit 2 (int len - 1)) = (of_nat (4 * (len - 1)) :: u8)" "store m op ?tag = Some ?m"
    using lit_tag [OF len(1,2)] space by (simp_all add: mem)
  show thesis
  proof (cases "fast \<and> len \<le> 16")
    case True
    let ?a = "take 8 (drop literal input)" and ?b = "take 8 (drop (literal + 8) input)"
    let ?m3 = "upd (upd ?m (op + 1) ?a) (op + 1 + 8) ?b"
    have ab: "length ?a = 8" "length ?b = 8" "literal + 16 \<le> length input" using True len(4) by auto
    have 2: "emits (?m, op + 1) ?a (upd ?m (op + 1) ?a, op + 1 + 8)"
      using emits_store [of "op + 1" ?a ?m] l ab space by simp
    have 3: "emits (upd ?m (op + 1) ?a, op + 1 + 8) ?b (?m3, op + 1 + 16)"
      using emits_store [of "op + 1 + 8" ?b "upd ?m (op + 1) ?a"] l ab space by (simp add: mem)
    have "?a @ ?b = take (8 + 8) (drop literal input)" unfolding take_add by (simp add: add.commute)
    then have "emits (?m, op + 1) (take (8 + 8) (drop literal input)) (?m3, op + 1 + 16)"
      using emits_trans [OF 2 3] by simp
    moreover have "len \<le> length (take (8 + 8) (drop literal input))" using True ab by simp
    ultimately have "emits (?m, op + 1) (take len (take (8 + 8) (drop literal input))) (?m3, op + 1 + len)" by (rule emits_take)
    then have "emits (?m, op + 1) ?bs (?m3, op + 1 + len)" using True by (simp add: min_def)
    from emits_trans [OF 1 this] show thesis
      using that True ab h l space len(2) by (simp add: emit_literal_def head mem Let_def del: of_nat_mult)
  next
    case False
    have "emits (?m, op + 1) ?bs (upd ?m (op + 1) ?bs, op + 1 + len)"
      using emits_store [of "op + 1" ?bs ?m] space len l by simp
    from emits_trans [OF 1 this] show thesis
      using that False len h l space by (auto simp add: emit_literal_def head mem Let_def simp del: of_nat_mult)
  qed
qed

text \<open>The tag of a long literal is stored behind the length.\<close>

lemma emits_before:
  assumes "emits (m, op + 1) k (m1, op + 1 + length k)"
  shows "emits (m, op) (tag # k) (upd m1 op [tag], op + 1 + length k)"
proof -
  have l1: "length m1 = length m" "take (op + 1 + length k) m1 = take (op + 1) m @ k" "op + 1 + length k \<le> length m"
    using assms by (auto simp: emits_def)
  have "take (op + 1 + length k) (upd m1 op [tag]) = take op m @ tag # k"
  proof (rule nth_equalityI)
    fix i assume "i < length (take (op + 1 + length k) (upd m1 op [tag]))"
    then have i: "i < op + 1 + length k" "i < length m1" using l1 by (auto simp: mem)
    have "m1 ! i = take (op + 1 + length k) m1 ! i" using i by simp
    then have "m1 ! i = (take (op + 1) m @ k) ! i" unfolding l1(2) .
    then show "take (op + 1 + length k) (upd m1 op [tag]) ! i = (take op m @ tag # k) ! i"
      using i l1 by (auto simp: nth_upd nth_append nth_Cons' min_def)
  qed (use l1 in \<open>auto simp: mem\<close>)
  then show ?thesis using l1 by (simp add: emits_def mem)
qed

lemma emit_literal_emits:
  assumes len: "0 < len" "len \<le> 65536" "literal + len \<le> length input" "fast \<longrightarrow> literal + 16 \<le> length input"
    and space: "op + len + 17 \<le> length m"
  obtains ob where "emit_literal (m, op) input literal len fast = Some ob"
    "emits (m, op) (lit_header len @ take len (drop literal input)) ob"
proof (cases "len \<le> 60")
  case True
  then show ?thesis using emit_literal_short [OF len(1) _ len(3,4) space] that by blast
next
  case False
  then obtain n where n: "len = Suc n" "60 \<le> n" "n < 65536" using len by (cases len) auto
  let ?bs = "take len (drop literal input)"
  define k :: bytes where "k = (if n < 256 then [of_nat n] else [of_nat n, of_nat (n div 256)])"
  define tag :: u8 where "tag = of_int (LITERAL OR push_bit 2 (59 + int (length k)))"
  have h: "lit_header len = tag # k" "1 \<le> length k" "length k \<le> 2"
    using n by (auto simp: lit_header_def k_def tag_def LITERAL_def push_bit_int_def Let_def)
  obtain m1 where m1: "emit_len (m, op + 1) (int n) 0 = Some ((m1, op + 1 + length k), length k)"
    "emits (m, op + 1) k (m1, op + 1 + length k)"
    using emit_len_small [OF n(2,3) _ k_def, of "op + 1" m] space n(1) by auto
  let ?m2 = "upd m1 op [tag]"
  have l: "length m1 = length m" "length ?m2 = length m" using m1(2) space by (auto simp: emits_def mem)
  have "emits (?m2, op + 1 + length k) ?bs (upd ?m2 (op + 1 + length k) ?bs, op + 1 + length k + len)"
    using emits_store [of "op + 1 + length k" ?bs ?m2] space len h(3) l by simp
  from emits_trans [OF emits_before [OF m1(2), of tag] this] show ?thesis
    using that n m1(1) len h l space by (simp add: emit_literal_def mem tag_def [symmetric] Let_def)
qed

subsection \<open>Copies\<close>

text \<open>The bytes of a copy, and of a sequence of copies.\<close>

definition copy_bytes :: "nat \<Rightarrow> nat \<Rightarrow> bytes" where
  "copy_bytes offset len =
     (if len < 12 \<and> offset < 2048
      then [of_nat (1 + 4 * (len - 4) + 32 * (offset div 256)), of_nat offset]
      else [of_nat (2 + 4 * (len - 1)), of_nat offset, of_nat (offset div 256)])"

definition copies :: "nat \<Rightarrow> nat \<Rightarrow> bytes \<Rightarrow> bool" where
  "copies offset len bs \<longleftrightarrow>
     4 * length bs \<le> 3 * len \<and> (\<forall>out. offset \<le> length out \<longrightarrow> extends bs out (self_copy out offset len))"

lemma copies_append: "copies offset a bs \<Longrightarrow> copies offset b cs \<Longrightarrow> copies offset (a + b) (bs @ cs)"
  unfolding copies_def by (auto simp: self_copy_add intro: extends_append)

lemma tag_bits:
  "a < 8 \<Longrightarrow> b < 8 \<Longrightarrow> (1 :: nat) OR push_bit 2 a OR push_bit 5 b = 1 + 4 * a + 32 * b"
  "c < 64 \<Longrightarrow> (2 :: nat) OR push_bit 2 c = 2 + 4 * c"
proof -
  have "\<forall>a \<in> set [0..<8]. \<forall>b \<in> set [0..<8]. (1 :: nat) OR push_bit 2 a OR push_bit 5 b = 1 + 4 * a + 32 * b" by code_simp
  then show "a < 8 \<Longrightarrow> b < 8 \<Longrightarrow> (1 :: nat) OR push_bit 2 a OR push_bit 5 b = 1 + 4 * a + 32 * b" by auto
  have "\<forall>c \<in> set [0..<64]. (2 :: nat) OR push_bit 2 c = 2 + 4 * c" by code_simp
  then show "c < 64 \<Longrightarrow> (2 :: nat) OR push_bit 2 c = 2 + 4 * c" by auto
qed

lemma tag_fields:
  fixes a b :: nat
  assumes "a < 8" "b < 8"
  shows "1 + 4 * a + 32 * b < 256" "(1 + 4 * a + 32 * b) mod 4 = 1" "(1 + 4 * a + 32 * b) div 4 mod 8 = a"
    "(1 + 4 * a + 32 * b) div 4 div 8 = b"
proof -
  have e: "1 + 4 * a + 32 * b = (a + b * 8) * 4 + 1" by simp
  then show "(1 + 4 * a + 32 * b) mod 4 = 1" by (simp only: mod_mult_self3) simp
  have d: "(1 + 4 * a + 32 * b) div 4 = a + b * 8" unfolding e by simp
  show "(1 + 4 * a + 32 * b) div 4 mod 8 = a" "(1 + 4 * a + 32 * b) div 4 div 8 = b" unfolding d using assms by simp_all
  show "1 + 4 * a + 32 * b < 256" using assms by simp
qed

lemma parse_copy_elem:
  assumes "length k \<le> 4" "256 * high + le_val k < 2 ^ 32"
  shows "parse_copy (length k) len high (k @ rest) = Some (Copy (256 * high + le_val k) len, rest)"
proof -
  have "(of_nat (256 * high) + le_word k :: u32) = of_nat (256 * high + le_val k)" by (simp add: le_word_val)
  then have "unat (of_nat (256 * high) + le_word k :: u32) = 256 * high + le_val k"
    using assms(2) by (simp only: unat_of_nat) simp
  then show ?thesis by (simp add: parse_copy_def)
qed

lemma copies_one:
  assumes "0 < offset" "offset < 65536" "4 \<le> len" "len \<le> 64"
  shows "copies offset len (copy_bytes offset len)"
proof -
  have ext: "extends (c # k) out (self_copy out offset len)"
    if "offset \<le> length out" "\<And>rest. parse_elem c (k @ rest) = Some (Copy offset len, rest)" for c k out
    by (rule extends_one [where e = "Copy offset len"]) (use that assms(1) in auto)
  show ?thesis
  proof (cases "len < 12 \<and> offset < 2048")
    case True
    let ?t = "1 + 4 * (len - 4) + 32 * (offset div 256)"
    have "len - 4 < 8" "offset div 256 < 8" using True by auto
    note t = tag_fields [OF this]
    have "parse_elem (of_nat ?t) ([of_nat offset] @ rest) = Some (Copy offset len, rest)" for rest
      using parse_copy_elem [of "[of_nat offset]" "offset div 256" len rest] assms t
      by (simp add: parse_elem_def unat_of_nat8 Let_def del: of_nat_add of_nat_mult of_nat_Suc)
    then show ?thesis using True assms ext by (simp add: copies_def copy_bytes_def)
  next
    case False
    let ?t = "2 + 4 * (len - 1)"
    have "(2 + 4 * c) mod 4 = (2 :: nat)" "(2 + 4 * c) div 4 = c" for c by presburger+
    then have t: "?t < 258" "?t mod 4 = 2" "?t div 4 = len - 1" using assms by auto
    have "parse_elem (of_nat ?t) ([of_nat offset, of_nat (offset div 256)] @ rest) = Some (Copy offset len, rest)" for rest
      using parse_copy_elem [of "[of_nat offset, of_nat (offset div 256)]" 0 len rest] assms t
      by (simp add: numeral_2_eq_2 [symmetric] parse_elem_def unat_of_nat8 Let_def del: of_nat_add of_nat_mult of_nat_Suc)
    moreover have "copy_bytes offset len = of_nat ?t # [of_nat offset, of_nat (offset div 256)]" using False by (simp add: copy_bytes_def)
    ultimately show ?thesis using assms ext by (simp add: copies_def del: of_nat_add of_nat_mult of_nat_Suc)
  qed
qed

lemma emit_copy_less_than64_emits:
  assumes "0 < offset" "offset < 65536" "4 \<le> len" "len \<le> 64" "op + len \<le> length m"
  obtains ob where "emit_copy_less_than64 (m, op) offset len = Some ob" "emits (m, op) (copy_bytes offset len) ob"
proof (cases "len < 12 \<and> offset < 2048")
  case True
  let ?t = "of_nat (1 + 4 * (len - 4) + 32 * (offset div 256)) :: u8" and ?o = "of_nat offset :: u8"
  have d: "len - 4 < 8" "offset div 256 < 8" using True by auto
  from tag_bits(1) [OF d] have "(1 :: nat) OR push_bit 2 (len - 4) OR push_bit 5 (drop_bit 8 offset) = 1 + 4 * (len - 4) + 32 * (offset div 256)"
    by (simp add: drop_bit_nat_def)
  moreover have "(of_nat (offset AND 0xff) :: u8) = ?o" by (rule of_nat_and_255)
  moreover have "emits (m, op) ([?t] @ [?o]) (upd (upd m op [?t]) (op + 1) [?o], op + 2)"
    using emits_two [of op "[?t]" "[?o]" m] assms by simp
  ultimately show thesis using that True assms d(1)
    by (simp add: emit_copy_less_than64_def COPY_1_BYTE_OFFSET_def copy_bytes_def mem Let_def del: of_nat_add of_nat_mult of_nat_Suc)
next
  case False
  let ?t = "of_nat (2 + 4 * (len - 1)) :: u8" and ?o = "[of_nat offset, of_nat (offset div 256)] :: bytes"
  have "len - 1 < 64" using assms by simp
  then have "(2 :: nat) OR push_bit 2 (len - 1) = 2 + 4 * (len - 1)" by (rule tag_bits)
  moreover have "emits (m, op) ([?t] @ ?o) (upd (upd m op [?t]) (op + 1) ?o, op + 3)"
    using emits_two [of op "[?t]" ?o m] assms by (simp add: numeral_3_eq_3)
  ultimately show thesis using that False assms
    by (simp add: emit_copy_less_than64_def COPY_2_BYTE_OFFSET_def copy_bytes_def drop_bit_nat_def mem Let_def
        del: of_nat_add of_nat_mult of_nat_Suc)
qed

lemma emit_copy_step:
  assumes "0 < offset" "offset < 65536" "4 \<le> len" "len \<le> 64" "op + len \<le> length m"
  shows "\<exists>bs m'. emit_copy_less_than64 (m, op) offset len = Some (m', op + length bs) \<and>
    emits (m, op) bs (m', op + length bs) \<and> copies offset len bs"
proof -
  obtain ob where "emit_copy_less_than64 (m, op) offset len = Some ob" "emits (m, op) (copy_bytes offset len) ob"
    using emit_copy_less_than64_emits [OF assms] by blast
  then show ?thesis using copies_one [OF assms(1-4)]
    by (intro exI [of _ "copy_bytes offset len"] exI [of _ "fst ob"]) (cases ob, simp add: emits_def)
qed

lemma emit_copy_emits:
  assumes "0 < offset" "offset < 65536" "4 \<le> len" "op + len \<le> length m"
  shows "\<exists>bs m'. emit_copy (m, op) offset len = Some (m', op + length bs) \<and> emits (m, op) bs (m', op + length bs) \<and>
    copies offset len bs"
  using assms
proof (induction len arbitrary: m op rule: less_induct)
  case (less len)
  have split: ?case if h: "a + b = len" "4 \<le> a" "a \<le> 64"
    "\<And>ob. emit_copy_less_than64 (m, op) offset a = Some ob \<Longrightarrow> emit_copy (m, op) offset len = f ob"
    "\<And>m op. op + b \<le> length m \<Longrightarrow> \<exists>bs m'. f (m, op) = Some (m', op + length bs) \<and> emits (m, op) bs (m', op + length bs) \<and>
      copies offset b bs" for a b f
  proof -
    have "op + a \<le> length m" using less.prems(4) h(1) by simp
    then obtain bs m1 where 1: "emit_copy_less_than64 (m, op) offset a = Some (m1, op + length bs)"
      "emits (m, op) bs (m1, op + length bs)" "copies offset a bs"
      using emit_copy_step [OF less.prems(1,2) h(2,3)] by blast
    have "op + length bs + b \<le> length m1" using 1 less.prems(4) h(1) by (simp add: emits_def copies_def)
    then obtain cs m2 where 2: "f (m1, op + length bs) = Some (m2, op + length bs + length cs)"
      "emits (m1, op + length bs) cs (m2, op + length bs + length cs)" "copies offset b cs"
      using h(5) by blast
    show ?thesis
      using h(4) [OF 1(1)] 2(1) emits_trans [OF 1(2) 2(2)] copies_append [OF 1(3) 2(3)] h(1)
      by (intro exI [of _ "bs @ cs"] exI [of _ m2]) (simp add: add.assoc)
  qed
  consider "68 \<le> len" | "64 < len" "len < 68" | "len \<le> 64" by linarith
  then show ?case
  proof cases
    case 1
    then show ?thesis using less.IH [of "len - 64"] less.prems(1-3)
      by (intro split [of 64 "len - 64" "\<lambda>ob. emit_copy ob offset (len - 64)"]) (auto simp: emit_copy.simps [of _ _ len])
  next
    case 2
    have "\<exists>bs m'. emit_copy_less_than64 (m, op) offset (len - 60) = Some (m', op + length bs) \<and>
        emits (m, op) bs (m', op + length bs) \<and> copies offset (len - 60) bs"
      if "op + (len - 60) \<le> length m" for m op
      using emit_copy_step [OF less.prems(1,2), of "len - 60" op m] 2 that by auto
    then show ?thesis using 2
      by (intro split [of 60 "len - 60" "\<lambda>ob. emit_copy_less_than64 ob offset (len - 60)"]) (auto simp: emit_copy.simps [of _ _ len])
  next
    case 3
    then show ?thesis using emit_copy_step [OF less.prems(1-3) _ less.prems(4)] by (auto simp: emit_copy.simps [of _ _ len])
  qed
qed

section \<open>Matches\<close>

text \<open>The longest match of what follows \<open>s1\<close> and \<open>s2\<close>, up to \<open>lim\<close>.\<close>

definition longest_match :: "bytes \<Rightarrow> nat \<Rightarrow> nat \<Rightarrow> nat \<Rightarrow> nat \<Rightarrow> bool" where
  "longest_match m s1 s2 lim n \<longleftrightarrow>
     s2 + n \<le> lim \<and> (\<forall>i < n. m ! (s1 + i) = m ! (s2 + i)) \<and> (s2 + n < lim \<longrightarrow> m ! (s1 + n) \<noteq> m ! (s2 + n))"

lemma longest_match_unique: "longest_match m s1 s2 lim a \<Longrightarrow> longest_match m s1 s2 lim b \<Longrightarrow> a = b"
proof (rule ccontr)
  assume h: "longest_match m s1 s2 lim a" "longest_match m s1 s2 lim b" "a \<noteq> b"
  have "False" if "longest_match m s1 s2 lim a" "longest_match m s1 s2 lim b" "a < b" for a b
    using that unfolding longest_match_def by auto
  then show False using h by (metis linorder_neqE_nat)
qed

lemma match_bytes_longest:
  assumes "s1 \<le> b" "b + k \<le> lim" "lim \<le> length m" "\<forall>i < k. m ! (s1 + i) = m ! (b + i)"
  shows "\<exists>n. match_bytes m s1 (b + k) lim k = Some n \<and> longest_match m s1 b lim n"
  using assms(2,4)
proof (induction "lim - (b + k)" arbitrary: k rule: less_induct)
  case less
  show ?case
  proof (cases "b + k < lim \<and> m ! (s1 + k) = m ! (b + k)")
    case True
    then have "\<exists>n. match_bytes m s1 (b + Suc k) lim (Suc k) = Some n \<and> longest_match m s1 b lim n"
      using less.prems by (intro less.hyps) (auto simp: less_Suc_eq)
    then show ?thesis using True assms(1,3) by (subst match_bytes.simps) (simp add: mem)
  next
    case False
    then show ?thesis using less.prems assms(1,3) by (subst match_bytes.simps) (auto simp: mem longest_match_def)
  qed
qed

text \<open>The lowest bit where two words differ lies in the first byte where they differ.\<close>

lemma first_bit_set:
  fixes w :: "'a::len word"
  defines "t \<equiv> length (takeWhile (\<lambda>i. \<not> bit w i) [0..<LENGTH('a)])"
  assumes "w \<noteq> 0"
  shows "bit w t" "\<forall>i < t. \<not> bit w i" "t < LENGTH('a)"
proof -
  have "\<exists>i \<in> set [0..<LENGTH('a)]. bit w i" using assms(2) by (auto simp: bit_eq_iff dest: bit_imp_le_length)
  then have "takeWhile (\<lambda>i. \<not> bit w i) [0..<LENGTH('a)] \<noteq> [0..<LENGTH('a)]" unfolding takeWhile_eq_all_conv by auto
  then have "t \<noteq> LENGTH('a)" unfolding t_def by (metis diff_zero length_upt order_refl take_all takeWhile_eq_take)
  moreover have "t \<le> LENGTH('a)" unfolding t_def by (metis diff_zero length_takeWhile_le length_upt)
  ultimately show t: "t < LENGTH('a)" by simp
  then show "bit w t" using nth_length_takeWhile [of "\<lambda>i. \<not> bit w i" "[0..<LENGTH('a)]"] by (simp add: t_def)
  show "\<forall>i < t. \<not> bit w i"
  proof (intro allI impI)
    fix i assume i: "i < t"
    then have "takeWhile (\<lambda>i. \<not> bit w i) [0..<LENGTH('a)] ! i = i" unfolding t_def
      using t by (subst takeWhile_nth) (auto simp: t_def)
    then show "\<not> bit w i" using i nth_mem [of i "takeWhile (\<lambda>i. \<not> bit w i) [0..<LENGTH('a)]"] unfolding t_def
      by (metis set_takeWhileD)
  qed
qed

lemma first_byte_differs:
  fixes xs ys :: bytes
  defines "w \<equiv> (le_word xs XOR le_word ys :: 'a::len word)"
  assumes "length xs = length ys" "8 * length xs = LENGTH('a)" "xs \<noteq> ys"
  defines "j \<equiv> length (takeWhile (\<lambda>i. \<not> bit w i) [0..<LENGTH('a)]) div 8"
  shows "j < length xs" "xs ! j \<noteq> ys ! j" "\<forall>i < j. xs ! i = ys ! i"
proof -
  have "(le_word xs :: 'a word) \<noteq> le_word ys" using le_word_inj [of xs ys, where 'a = 'a] assms by simp
  then have w: "w \<noteq> 0" unfolding w_def by (auto simp: bit_eq_iff bit_simps)
  let ?t = "length (takeWhile (\<lambda>i. \<not> bit w i) [0..<LENGTH('a)])"
  note t = first_bit_set [OF w]
  show j: "j < length xs" using t(3) assms(3) unfolding j_def by (metis less_mult_imp_div_less mult.commute)
  show "xs ! j \<noteq> ys ! j" using t(1) j assms(2) unfolding w_def by (auto simp: bit_simps bit_le_word j_def w_def)
  show "\<forall>i < j. xs ! i = ys ! i"
  proof (intro allI impI bit_word_eqI)
    fix i n assume i: "i < j" and n: "n < LENGTH(8)"
    then have "8 * i + n < ?t" unfolding j_def by simp
    with t(2) have "bit (le_word xs :: 'a word) (8 * i + n) = bit (le_word ys :: 'a word) (8 * i + n)"
      unfolding w_def bit_xor_iff by blast
    moreover have "8 * i + n < LENGTH('a)" "(8 * i + n) div 8 = i" "(8 * i + n) mod 8 = n" using i j n assms(3) by auto
    ultimately show "bit (xs ! i) n = bit (ys ! i) n" using i j assms(2) by (simp add: bit_le_word)
  qed
qed

text \<open>A block of bytes that agrees, and one that does not.\<close>

lemma block_differs:
  assumes "\<forall>i < k. m ! (s1 + i) = m ! (b + i)" "b + k + L \<le> lim" "s1 \<le> b" "lim \<le> length m" "j < L"
    and "take L (drop (b + k) m) ! j \<noteq> take L (drop (s1 + k) m) ! j"
    and "\<forall>i < j. take L (drop (b + k) m) ! i = take L (drop (s1 + k) m) ! i"
  shows "longest_match m s1 b lim (k + j)"
proof -
  have nth: "take L (drop (b + k) m) ! i = m ! (b + (k + i))" "take L (drop (s1 + k) m) ! i = m ! (s1 + (k + i))" if "i < L" for i
    using that assms(2-4) by (simp_all add: add.assoc)
  have "m ! (s1 + i) = m ! (b + i)" if ij: "i < k + j" for i
  proof (cases "i < k")
    case False
    then have "k + (i - k) = i" "i - k < j" using ij by auto
    then show ?thesis using assms(5,7) nth [of "i - k"] by simp
  qed (use assms(1) in simp)
  moreover have "m ! (s1 + (k + j)) \<noteq> m ! (b + (k + j))" using assms(5,6) nth [of j] by simp
  ultimately show ?thesis using assms(2,5) by (simp add: longest_match_def add.assoc)
qed

lemma block_agrees:
  assumes "\<forall>i < k. m ! (s1 + i) = m ! (b + i)" "b + k + L \<le> length m" "s1 \<le> b"
    and "take L (drop (b + k) m) = take L (drop (s1 + k) m)"
  shows "\<forall>i < k + L. m ! (s1 + i) = m ! (b + i)"
proof (intro allI impI)
  fix i assume "i < k + L"
  show "m ! (s1 + i) = m ! (b + i)"
  proof (cases "i < k")
    case False
    then have i: "k + (i - k) = i" "i - k < L" using \<open>i < k + L\<close> by auto
    have "take L (drop (b + k) m) ! (i - k) = take L (drop (s1 + k) m) ! (i - k)" using assms(4) by simp
    then show ?thesis using i assms(2,3) by (simp add: add.assoc)
  qed (use assms(1) in simp)
qed

lemma match_words_longest:
  assumes "s1 \<le> b" "b + k \<le> lim" "lim \<le> length m" "\<forall>i < k. m ! (s1 + i) = m ! (b + i)"
  shows "\<exists>n. match_words m s1 (b + k) lim k = Some n \<and> longest_match m s1 b lim n"
  using assms(2,4)
proof (induction "lim - (b + k)" arbitrary: k rule: less_induct)
  case less
  let ?x = "take 8 (drop (b + k) m)" and ?y = "take 8 (drop (s1 + k) m)"
  consider "lim < b + k + 8" | "b + k + 8 \<le> lim" "?x = ?y" | "b + k + 8 \<le> lim" "?x \<noteq> ?y" by linarith
  then show ?case
  proof cases
    case 1
    then show ?thesis using match_bytes_longest [OF assms(1) less.prems(1) assms(3) less.prems(2)]
      by (subst match_words.simps) simp
  next
    case 2
    then have "\<exists>n. match_words m s1 (b + (k + 8)) lim (k + 8) = Some n \<and> longest_match m s1 b lim n"
      using block_agrees [OF less.prems(2) _ assms(1) 2(2)] assms(3) by (intro less.hyps) auto
    then show ?thesis using 2 assms(1,3) by (subst match_words.simps) (simp add: mem add.assoc)
  next
    case 3
    have len: "length ?x = length ?y" "8 * length ?x = LENGTH(64)" using 3(1) assms(1,3) by auto
    note j = first_byte_differs [OF len 3(2)]
    have "(le_word ?x :: u64) \<noteq> le_word ?y" using le_word_inj [OF len(1), where 'a = 64] len(2) 3(2) by simp
    then show ?thesis using 3(1) assms(1,3) j block_differs [OF less.prems(2) 3(1) assms(1,3) _ j(2,3)]
      by (subst match_words.simps) (simp add: mem ctz64_def drop_bit_nat_def)
  qed
qed

lemma match_words32_longest:
  assumes "s1 \<le> b" "b + k \<le> lim" "lim \<le> length m" "\<forall>i < k. m ! (s1 + i) = m ! (b + i)"
  shows "\<exists>n. match_words32 le m s1 (b + k) lim k = Some n \<and> longest_match m s1 b lim n"
  using assms(2,4)
proof (induction "lim - (b + k)" arbitrary: k rule: less_induct)
  case less
  let ?x = "take 4 (drop (b + k) m)" and ?y = "take 4 (drop (s1 + k) m)"
  note mb = match_bytes_longest [OF assms(1) less.prems(1) assms(3) less.prems(2)]
  consider "lim < b + k + 4" | "b + k + 4 \<le> lim" "?x = ?y" | "b + k + 4 \<le> lim" "?x \<noteq> ?y" by linarith
  then show ?case
  proof cases
    case 1
    then show ?thesis using mb by (subst match_words32.simps) simp
  next
    case 2
    then have "\<exists>n. match_words32 le m s1 (b + (k + 4)) lim (k + 4) = Some n \<and> longest_match m s1 b lim n"
      using block_agrees [OF less.prems(2) _ assms(1) 2(2)] assms(3) by (intro less.hyps) auto
    then show ?thesis using 2 assms(1,3) by (subst match_words32.simps) (simp add: mem add.assoc)
  next
    case 3
    have len: "length ?x = length ?y" "8 * length ?x = LENGTH(32)" using 3(1) assms(1,3) by auto
    note j = first_byte_differs [OF len 3(2)]
    have "(le_word ?x :: u32) \<noteq> le_word ?y" using le_word_inj [OF len(1), where 'a = 32] len(2) 3(2) by simp
    then show ?thesis using 3(1) assms(1,3) mb j block_differs [OF less.prems(2) 3(1) assms(1,3) _ j(2,3)]
      by (subst match_words32.simps) (simp add: mem ctz32_def drop_bit_nat_def)
  qed
qed

lemma find_match_length_longest:
  assumes "s1 \<le> s2" "s2 \<le> lim" "lim \<le> length m"
  obtains n where "find_match_length m s1 s2 lim = Some n" "longest_match m s1 s2 lim n"
  using match_words_longest [of s1 s2 0 lim m] assms by (auto simp: find_match_length_def)

end
