(* ===== verification/Snappy_Blocks.thy ===== *)
theory Snappy_Blocks
  imports Snappy_Compress
begin

text \<open>
  What the compressor emits for a block and for the whole input: no load or store leaves its buffer,
  no assertion fails, the loops end, the output stays below the announced maximum, and decoding the
  output gives the input back.
\<close>

unbundle bit_operations_syntax

section \<open>The hash table\<close>

definition hashes_below :: "nat \<Rightarrow> nat \<Rightarrow> bool" where
  "hashes_below shift ts \<longleftrightarrow> (\<forall>w. unat (hash_bytes w shift) < ts)"

text \<open>Entries that are used point to earlier positions.\<close>

definition table_ok :: "nat \<Rightarrow> nat \<Rightarrow> u16 list \<Rightarrow> bool" where
  "table_ok ts p table \<longleftrightarrow> ts \<le> length table \<and> (\<forall>i < ts. unat (table ! i) < p)"

lemma table_ok_mono: "table_ok ts p table \<Longrightarrow> p \<le> q \<Longrightarrow> table_ok ts q table"
  unfolding table_ok_def by (meson less_le_trans)

lemma table_get_ok:
  assumes "table_ok ts p table" "hashes_below shift ts"
  obtains c where "table_get table (hash_bytes w shift) = Some c" "c < p"
proof
  show "table_get table (hash_bytes w shift) = Some (unat (table ! unat (hash_bytes w shift)))"
    using assms by (auto simp: table_get_def table_ok_def hashes_below_def intro: less_le_trans)
qed (use assms in \<open>auto simp: table_ok_def hashes_below_def\<close>)

lemma table_put_ok:
  assumes "table_ok ts p table" "hashes_below shift ts" "p \<le> q" "r < q" "r < 65536"
  obtains t where "table_put table (hash_bytes w shift) r = Some t" "table_ok ts q t" "length t = length table"
proof
  let ?t = "table[unat (hash_bytes w shift) := of_nat r]"
  show "table_put table (hash_bytes w shift) r = Some ?t"
    using assms(1,2) by (auto simp: table_put_def table_ok_def hashes_below_def intro: less_le_trans)
  have "unat (of_nat r :: u16) = r" using assms(5) by (simp add: unat_of_nat)
  then have "unat (?t ! i) < q" if "i < ts" for i
    using assms that by (cases "i = unat (hash_bytes w shift)") (auto simp: table_ok_def intro: less_le_trans)
  then show "table_ok ts q ?t" using assms(1) by (simp add: table_ok_def)
qed simp

lemma hash_size_power: "8 \<le> p \<Longrightarrow> p \<le> 14 \<Longrightarrow> \<exists>q. 8 \<le> q \<and> q \<le> 14 \<and> hash_size (2 ^ p) n = 2 ^ q"
proof (induction "14 - p" arbitrary: p)
  case 0
  then have "p = 14" by simp
  then show ?case by (intro exI [of _ 14]) (simp add: hash_size.simps kmax_hash_table_size_def)
next
  case (Suc k)
  show ?case
  proof (cases "2 ^ p < n")
    case True
    have "(2 :: nat) ^ p < 2 ^ 14" using Suc.hyps(2) by (intro power_strict_increasing) auto
    then have "hash_size (2 ^ p) n = hash_size (2 ^ Suc p) n"
      using True by (subst hash_size.simps) (simp add: kmax_hash_table_size_def push_bit_nat_def mult.commute)
    then show ?thesis using Suc.hyps(1) [of "Suc p"] Suc.hyps(2) Suc.prems by auto
  next
    case False
    then show ?thesis using Suc.prems by (subst hash_size.simps) auto
  qed
qed

lemma table_sizes:
  assumes "8 \<le> p" "p \<le> 14"
  shows "(2 ^ p AND (2 ^ p - 1) :: nat) = 0" "(2 :: nat) ^ p \<le> 2 ^ 14" "nat (32 - log2_floor (of_nat (2 ^ p))) = 32 - p"
    "unat (drop_bit (32 - p) (- 1 :: u32)) = 2 ^ p - 1"
proof -
  have "(2 ^ p AND (2 ^ p - 1) :: nat) = take_bit p (2 ^ p)" by (simp add: take_bit_eq_mask mask_eq_exp_minus_1)
  then show "(2 ^ p AND (2 ^ p - 1) :: nat) = 0" by (simp add: take_bit_eq_mod)
  show "(2 :: nat) ^ p \<le> 2 ^ 14" using assms(2) by (intro power_increasing) auto
  have "\<forall>p \<in> set [8..<15]. log2_floor (2 ^ p) = int p \<and> uint (drop_bit (32 - p) (- 1 :: u32)) = 2 ^ p - 1" by code_simp
  then have p: "log2_floor (2 ^ p) = int p" "uint (drop_bit (32 - p) (- 1 :: u32)) = 2 ^ p - 1"
    using assms unfolding set_upt by (auto simp del: drop_bit_minus_one)
  then show "nat (32 - log2_floor (of_nat (2 ^ p))) = 32 - p" by simp
  show "unat (drop_bit (32 - p) (- 1 :: u32)) = 2 ^ p - 1"
    using arg_cong [OF p(2), of nat] by (simp add: nat_diff_distrib nat_power_eq)
qed

lemma hashes_below_power: "p \<le> 32 \<Longrightarrow> hashes_below (32 - p) (2 ^ p)"
  unfolding hashes_below_def hash_bytes_def
  using drop_bit_small [of _ "32 - p" p, where 'a = 32] unsigned_less [where 'a = nat and 'b = 32] by fastforce

section \<open>The search\<close>

lemma hash_inside: "p + 4 \<le> length m \<Longrightarrow> hash m p shift = Some (hash_bytes (le_word (take 4 (drop p m))) shift)"
  by (simp add: hash_def mem)

definition match4 :: "bytes \<Rightarrow> nat \<Rightarrow> nat \<Rightarrow> bool" where
  "match4 m c p \<longleftrightarrow> c < p \<and> take 4 (drop p m) = take 4 (drop c m)"

lemma skip_step: "32 \<le> unat skip \<Longrightarrow> 1 \<le> unat (drop_bit 5 (skip :: u32))"
  by (simp add: unat_drop_bit_eq drop_bit_nat_def Suc_le_eq div_greater_zero_iff)

lemma cf_search_ok:
  assumes "hashes_below shift ts" "length input = ip_limit + 15" "length input \<le> kblock_size"
    "table_ok ts ip table" "0 < ip" "ip \<le> ip_limit + 1" "hash input ip shift = Some hval"
    "32 \<le> unat skip" "unat skip + k < 2 ^ 32" "ip_limit < ip + k" "0 < k"
  shows "(\<exists>t. cf_search k input shift ip_limit skip ip hval table = Some (Remainder t) \<and> length t = length table) \<or>
    (\<exists>p c t. cf_search k input shift ip_limit skip ip hval table = Some (Match p c t) \<and> length t = length table \<and>
       ip \<le> p \<and> p < ip_limit \<and> match4 input c p \<and> table_ok ts (p + 1) t)"
  using assms(4-11)
proof (induction k arbitrary: skip ip hval table)
  case (Suc k)
  let ?next = "ip + unat (drop_bit 5 skip)"
  have n: "ip < ?next" using skip_step [OF Suc.prems(5)] by simp
  have h: "hval = hash_bytes (le_word (take 4 (drop ip input))) shift"
    using Suc.prems(3,4) assms(2) hash_inside [of ip input shift] by simp
  show ?case
  proof (cases "ip_limit < ?next")
    case True
    then show ?thesis using Suc.prems(4) by (simp add: Let_def)
  next
    case False
    obtain c where c: "table_get table hval = Some c" "c < ip" using table_get_ok [OF Suc.prems(1) assms(1)] h by metis
    have "ip < 65536" using False n assms(2,3) by (simp add: kblock_size_def)
    then obtain t where t: "table_put table hval ip = Some t" "table_ok ts (ip + 1) t" "length t = length table"
      using table_put_ok [OF Suc.prems(1) assms(1), of "ip + 1" ip] h by auto
    have nh: "hash input ?next shift = Some (hash_bytes (le_word (take 4 (drop ?next input))) shift)"
      using False assms(2) by (intro hash_inside) simp
    have eq: "((le_word (take 4 (drop ip input)) :: u32) = le_word (take 4 (drop c input))) \<longleftrightarrow> match4 input c ip"
      using le_word_inj [of "take 4 (drop ip input)" "take 4 (drop c input)", where 'a = 32] c(2) False n assms(2) by (simp add: match4_def)
    have step: "cf_search (Suc k) input shift ip_limit skip ip hval table =
      (if match4 input c ip then Some (Match ip c t)
       else cf_search k input shift ip_limit (skip + 1) ?next (hash_bytes (le_word (take 4 (drop ?next input))) shift) t)"
      using False n c t nh eq Suc.prems(4) assms(2) by (simp add: mem Let_def)
    show ?thesis
    proof (cases "match4 input c ip")
      case True
      then show ?thesis unfolding step using False n t by auto
    next
      case no: False
      have "unat (skip + 1) = unat skip + 1" using Suc.prems(6) by (simp add: unat_word_ariths)
      moreover have "0 < k" using Suc.prems(7) False n by (cases k) auto
      ultimately show ?thesis unfolding step
        using no Suc.IH [of ?next t "hash_bytes (le_word (take 4 (drop ?next input))) shift" "skip + 1"]
          table_ok_mono [OF t(2), of ?next] False n nh Suc.prems t(3) by fastforce
    qed
  qed
qed simp

section \<open>Copies\<close>

lemma match_extended:
  assumes "match4 m c p" "p + 4 \<le> length m" "longest_match m (c + 4) (p + 4) (length m) n"
  shows "take (4 + n) (drop p m) = take (4 + n) (drop c m)"
proof -
  have "c < p" "take 4 (drop p m) = take 4 (drop c m)" "p + 4 + n \<le> length m" "\<forall>i < n. m ! (c + 4 + i) = m ! (p + 4 + i)"
    using assms by (auto simp: match4_def longest_match_def)
  then have "take n (drop 4 (drop p m)) = take n (drop 4 (drop c m))" by (auto intro!: nth_equalityI simp: add.commute)
  then show ?thesis unfolding take_add using \<open>take 4 (drop p m) = take 4 (drop c m)\<close> by simp
qed

lemma u32_at_offset:
  assumes "p + 8 \<le> length m" "k \<le> 4"
  shows "get_u32_at_offset (le_word (take 8 (drop p m))) k = Some (le_word (take 4 (drop (p + k) m)))"
proof -
  have "(ucast (drop_bit (8 * k) (le_word (take 8 (drop p m)) :: u64)) :: u32) = le_word (take 4 (drop (p + k) m))"
  proof (rule bit_word_eqI)
    fix n assume n: "n < LENGTH(32)"
    have "(8 * k + n) div 8 = k + n div 8" "(8 * k + n) mod 8 = n mod 8" "n div 8 < 4" using n by auto
    then show "bit (ucast (drop_bit (8 * k) (le_word (take 8 (drop p m)) :: u64)) :: u32) n = bit (le_word (take 4 (drop (p + k) m)) :: u32) n"
      using n assms by (simp add: bit_simps bit_le_word add.assoc)
  qed
  then show ?thesis using assms(2) by (simp add: get_u32_at_offset_def)
qed

lemma copy_emitted:
  assumes "match4 input c base" "base + 4 \<le> length input" "length input \<le> kblock_size" "op + (length input - base) \<le> length m"
  obtains n bs m' where "find_match_length input (c + 4) (base + 4) (length input) = Some n"
    "take (4 + n) (drop base input) = take (4 + n) (drop c input)" "base + (4 + n) \<le> length input"
    "emit_copy (m, op) (base - c) (4 + n) = Some (m', op + length bs)" "emits (m, op) bs (m', op + length bs)"
    "4 * length bs \<le> 3 * (4 + n)" "\<And>pre. extends bs (pre @ take base input) (pre @ take (base + (4 + n)) input)"
proof -
  have c: "c < base" using assms(1) by (simp add: match4_def)
  obtain n where n: "find_match_length input (c + 4) (base + 4) (length input) = Some n"
    "longest_match input (c + 4) (base + 4) (length input) n"
    using find_match_length_longest [of "c + 4" "base + 4" "length input" input] c assms(2) by auto
  have eq: "take (4 + n) (drop base input) = take (4 + n) (drop c input)" by (rule match_extended [OF assms(1,2) n(2)])
  have le: "base + (4 + n) \<le> length input" using n(2) by (simp add: longest_match_def)
  have sp: "base - c < 65536" "op + (4 + n) \<le> length m" using le assms(3,4) by (simp add: kblock_size_def, linarith)
  obtain bs m' where bs: "emit_copy (m, op) (base - c) (4 + n) = Some (m', op + length bs)" "emits (m, op) bs (m', op + length bs)"
    "copies (base - c) (4 + n) bs"
    using emit_copy_emits [of "base - c" "4 + n" op m] c sp by auto
  have "extends bs (pre @ take base input) (pre @ take (base + (4 + n)) input)" for pre
    using bs(3) le c self_copy_match [OF c le eq, of pre] unfolding copies_def by (metis diff_le_self le_add2 le_trans length_append length_take min.absorb4 min.absorb2 add_leD1)
  then show thesis using that [OF n(1) eq le bs(1,2)] bs(3) by (simp add: copies_def)
qed

lemma cf_copies_ok:
  assumes "hashes_below shift ts" "length input = ip_limit + 15" "length input \<le> kblock_size"
    "table_ok ts (base + 1) table" "base + 4 \<le> length input" "match4 input c base" "length input < base + k"
    "op + (length input - base) \<le> length m"
  shows "\<exists>ip nh t m' bs. cf_copies k input shift ip_limit base c table (m, op) = Some (ip, nh, t, m', op + length bs) \<and>
    emits (m, op) bs (m', op + length bs) \<and> (\<forall>pre. extends bs (pre @ take base input) (pre @ take ip input)) \<and>
    base + 4 \<le> ip \<and> ip \<le> length input \<and> 4 * length bs \<le> 3 * (ip - base) \<and> length t = length table \<and>
    (\<forall>h. nh = Some h \<longrightarrow> ip < ip_limit \<and> hash input (ip + 1) shift = Some h \<and> table_ok ts (ip + 1) t)"
  using assms(4-8)
proof (induction k arbitrary: base c table m op)
  case (Suc k)
  obtain n bs m' where n: "find_match_length input (c + 4) (base + 4) (length input) = Some n"
    "take (4 + n) (drop base input) = take (4 + n) (drop c input)" "base + (4 + n) \<le> length input"
    "emit_copy (m, op) (base - c) (4 + n) = Some (m', op + length bs)" "emits (m, op) bs (m', op + length bs)"
    "4 * length bs \<le> 3 * (4 + n)" "\<And>pre. extends bs (pre @ take base input) (pre @ take (base + (4 + n)) input)"
    using copy_emitted [OF Suc.prems(3,2) assms(3) Suc.prems(5)] by metis
  define ip where "ip = base + (4 + n)"
  have lb: "load_bytes input base (4 + n) = Some (take (4 + n) (drop c input))"
    "load_bytes input c (4 + n) = Some (take (4 + n) (drop c input))"
    using n(2,3) Suc.prems(3) by (simp_all add: mem match4_def)
  show ?case
  proof (cases "ip_limit \<le> ip")
    case True
    then have "cf_copies (Suc k) input shift ip_limit base c table (m, op) = Some (ip, None, table, m', op + length bs)"
      using n lb by (simp add: ip_def Let_def)
    then show ?thesis using n by (auto simp: ip_def)
  next
    case False
    let ?w = "\<lambda>i. le_word (take 4 (drop (ip + i) input)) :: u32"
    have ip: "base + 4 \<le> ip" "ip \<le> length input" "ip < 65536" "ip - 1 + 1 = ip" "ip - 1 + 2 = ip + 1"
      using n(3) assms(3) by (auto simp: ip_def kblock_size_def)
    have b: "load64 input (ip - 1) = Some (le_word (take 8 (drop (ip - 1) input)))"
      "get_u32_at_offset (le_word (take 8 (drop (ip - 1) input))) 0 = Some (le_word (take 4 (drop (ip - 1) input)))"
      "get_u32_at_offset (le_word (take 8 (drop (ip - 1) input))) 1 = Some (?w 0)"
      "get_u32_at_offset (le_word (take 8 (drop (ip - 1) input))) 2 = Some (?w 1)"
      using u32_at_offset [of "ip - 1" input] False assms(2) ip by (simp_all add: mem)
    obtain t1 where t1: "table_put table (hash_bytes (le_word (take 4 (drop (ip - 1) input))) shift) (ip - 1) = Some t1"
      "table_ok ts ip t1" "length t1 = length table"
      by (rule table_put_ok [OF Suc.prems(1) assms(1), of ip "ip - 1"]) (use ip in auto)
    obtain c' where c': "table_get t1 (hash_bytes (?w 0) shift) = Some c'" "c' < ip" by (rule table_get_ok [OF t1(2) assms(1)])
    obtain t2 where t2: "table_put t1 (hash_bytes (?w 0) shift) ip = Some t2" "table_ok ts (ip + 1) t2" "length t2 = length t1"
      by (rule table_put_ok [OF t1(2) assms(1), of "ip + 1" ip]) (use ip in auto)
    have eq: "?w 0 = le_word (take 4 (drop c' input)) \<longleftrightarrow> match4 input c' ip"
      using le_word_inj [of "take 4 (drop ip input)" "take 4 (drop c' input)", where 'a = 32] c'(2) False assms(2) by (simp add: match4_def)
    have step: "cf_copies (Suc k) input shift ip_limit base c table (m, op) =
      (if match4 input c' ip then cf_copies k input shift ip_limit ip c' t2 (m', op + length bs)
       else Some (ip, Some (hash_bytes (?w 1) shift), t2, m', op + length bs))"
      using n b t1(1) c' t2(1) eq False assms(2) lb by (simp add: mem ip_def [symmetric] Let_def)
    show ?thesis
    proof (cases "match4 input c' ip")
      case True
      have "op + length bs + (length input - ip) \<le> length m'"
        using n(3,5,6) Suc.prems(5) by (simp add: emits_def ip_def)
      then obtain q nh t m2 cs where *: "cf_copies k input shift ip_limit ip c' t2 (m', op + length bs) = Some (q, nh, t, m2, op + length bs + length cs)"
        "emits (m', op + length bs) cs (m2, op + length bs + length cs)" "\<forall>pre. extends cs (pre @ take ip input) (pre @ take q input)"
        "ip + 4 \<le> q" "q \<le> length input" "4 * length cs \<le> 3 * (q - ip)" "length t = length t2"
        "\<forall>h. nh = Some h \<longrightarrow> q < ip_limit \<and> hash input (q + 1) shift = Some h \<and> table_ok ts (q + 1) t"
        using Suc.IH [OF t2(2) _ True, of "op + length bs" m'] ip False assms(2) Suc.prems(4) by fastforce
      show ?thesis unfolding step
        using True * emits_trans [OF n(5) *(2)] extends_append [OF n(7)] n(6) ip t1(3) t2(3)
        by (intro exI [of _ q] exI [of _ nh] exI [of _ t] exI [of _ m2] exI [of _ "bs @ cs"]) (simp add: add.assoc ip_def)
    next
      case no: False
      then show ?thesis unfolding step
        using n(5-7) ip t1(3) t2(2,3) False assms(2) hash_inside [of "ip + 1" input shift]
        by (intro exI [of _ ip] exI [of _ "Some (hash_bytes (?w 1) shift)"] exI [of _ t2] exI [of _ m'] exI [of _ bs]) (simp add: ip_def)
    qed
  qed
qed simp

section \<open>Blocks\<close>

text \<open>A literal and copies behind it take at most seven sixths of the bytes they stand for, less five
  sixths of a byte.\<close>

lemma item_size:
  assumes "0 < L" "4 \<le> M" "4 * b \<le> 3 * M"
  shows "6 * (length (lit_header L) + L + b) + 5 \<le> 7 * (L + M)"
proof -
  have "2 * b \<le> M + M" "12 * b \<le> 9 * M" using assms(3) by auto
  then show ?thesis
    using length_lit_header(1) [of L] length_lit_header(2,3) [of L] assms(1,2)
    by (cases "L \<le> 60"; cases "L \<le> 256") auto
qed

text \<open>Steps 2 and 3: from a match at \<open>p\<close> to the position \<open>q\<close> behind the copies.\<close>

lemma cf_item:
  assumes "hashes_below shift ts" "length input = ip_limit + 15" "length input \<le> kblock_size"
    and p: "next_emit < p" "p < ip_limit" "match4 input c p" "table_ok ts (p + 1) t"
    and space: "6 * op + 7 * (length input - next_emit) + 108 \<le> 6 * length m"
  obtains m1 op1 q nh t' m2 es where "emit_literal (m, op) input next_emit (p - next_emit) True = Some (m1, op1)"
    "cf_copies (length input) input shift ip_limit p c t (m1, op1) = Some (q, nh, t', m2, op + length es)"
    "emits (m, op) es (m2, op + length es)" "\<forall>pre. extends es (pre @ take next_emit input) (pre @ take q input)"
    "next_emit < q" "q \<le> length input" "6 * length es + 5 \<le> 7 * (q - next_emit)" "length t' = length t"
    "\<forall>h. nh = Some h \<longrightarrow> q < ip_limit \<and> hash input (q + 1) shift = Some h \<and> table_ok ts (q + 1) t'"
proof -
  let ?L = "p - next_emit" and ?lit = "take (p - next_emit) (drop next_emit input)"
  let ?bs = "lit_header ?L @ ?lit"
  have L: "0 < ?L" "next_emit + ?L = p" "p + 15 < length input" "length ?lit = ?L" using p assms(2) by auto
  have sp: "op + ?L + 17 \<le> length m" using space L(2,3) by linarith
  obtain ob where "emit_literal (m, op) input next_emit ?L True = Some ob" "emits (m, op) ?bs ob"
    by (rule emit_literal_emits [of ?L next_emit input True op m]) (use L sp assms(3) in \<open>auto simp: kblock_size_def\<close>)
  then obtain m1 where lit: "emit_literal (m, op) input next_emit ?L True = Some (m1, op + length ?bs)"
    "emits (m, op) ?bs (m1, op + length ?bs)" by (cases ob) (simp add: emits_def)
  have "take next_emit input @ ?lit = take p input" using L(2) take_add [of next_emit ?L input] by simp
  then have le: "extends ?bs (pre @ take next_emit input) (pre @ take p input)" for pre
    using extends_literal [of ?lit "pre @ take next_emit input"] L assms(3) by (auto simp: kblock_size_def)
  have h3: "length (lit_header ?L) \<le> 3" "length m1 = length m" using length_lit_header(1) lit(2) by (auto simp: emits_def)
  have sp1: "op + length ?bs + (length input - p) \<le> length m1" using space L h3 by simp
  obtain q nh t' m2 cs where co: "cf_copies (length input) input shift ip_limit p c t (m1, op + length ?bs) = Some (q, nh, t', m2, op + length ?bs + length cs)"
    "emits (m1, op + length ?bs) cs (m2, op + length ?bs + length cs)" "\<forall>pre. extends cs (pre @ take p input) (pre @ take q input)"
    "p + 4 \<le> q" "q \<le> length input" "4 * length cs \<le> 3 * (q - p)" "length t' = length t"
    "\<forall>h. nh = Some h \<longrightarrow> q < ip_limit \<and> hash input (q + 1) shift = Some h \<and> table_ok ts (q + 1) t'"
    using cf_copies_ok [OF assms(1-3) p(4) _ p(3) _ sp1, of "length input"] L p(1) by auto
  have M: "4 \<le> q - p" using co(4) by simp
  have "emits (m, op) (?bs @ cs) (m2, op + length (?bs @ cs))" using emits_trans [OF lit(2) co(2)] by (simp add: add.assoc)
  moreover have "6 * length (?bs @ cs) + 5 \<le> 7 * (q - next_emit)" using item_size [OF L(1) M co(6)] co(4) L by (simp add: add.assoc)
  moreover have "\<forall>pre. extends (?bs @ cs) (pre @ take next_emit input) (pre @ take q input)" using extends_append [OF le] co(3) by blast
  ultimately show thesis using that [OF lit(1), of q nh t' m2 "?bs @ cs"] co L by (simp add: add.assoc)
qed

lemma cf_main_ok:
  assumes "hashes_below shift ts" "length input = ip_limit + 15" "length input \<le> kblock_size"
    "table_ok ts ip table" "next_emit < ip" "ip \<le> ip_limit + 1" "hash input ip shift = Some next_hash"
    "length input < next_emit + 15 + k" "6 * op + 7 * (length input - next_emit) + 108 \<le> 6 * length m"
  shows "\<exists>ne t m' bs. cf_main k input shift ip_limit ip next_hash next_emit table (m, op) = Some (ne, t, m', op + length bs) \<and>
    emits (m, op) bs (m', op + length bs) \<and> (\<forall>pre. extends bs (pre @ take next_emit input) (pre @ take ne input)) \<and>
    next_emit \<le> ne \<and> ne \<le> length input \<and> length t = length table \<and>
    (ne = next_emit \<and> bs = [] \<or> 6 * length bs + 5 \<le> 7 * (ne - next_emit))"
  using assms(4-9)
proof (induction k arbitrary: ip next_hash next_emit table m op)
  case 0
  then show ?case using assms(2) by simp
next
  case (Suc k)
  have ip: "0 < ip" using Suc.prems(2) by simp
  consider t where "cf_search (length input) input shift ip_limit 32 ip next_hash table = Some (Remainder t)" "length t = length table"
    | p c t where "cf_search (length input) input shift ip_limit 32 ip next_hash table = Some (Match p c t)" "length t = length table"
      "ip \<le> p" "p < ip_limit" "match4 input c p" "table_ok ts (p + 1) t"
    using cf_search_ok [OF assms(1-3) Suc.prems(1) ip Suc.prems(3,4), of 32 "length input"] assms(2,3) by (auto simp: kblock_size_def)
  then show ?case
  proof cases
    case 1
    then show ?thesis using Suc.prems(2,3,6) assms(2)
      by (intro exI [of _ next_emit] exI [of _ t] exI [of _ m] exI [of _ "[]"]) simp
  next
    case 2
    then have "next_emit < p" using Suc.prems(2) by simp
    then obtain m1 op1 q nh t' m2 es where it: "emit_literal (m, op) input next_emit (p - next_emit) True = Some (m1, op1)"
      "cf_copies (length input) input shift ip_limit p c t (m1, op1) = Some (q, nh, t', m2, op + length es)"
      "emits (m, op) es (m2, op + length es)" "\<forall>pre. extends es (pre @ take next_emit input) (pre @ take q input)"
      "next_emit < q" "q \<le> length input" "6 * length es + 5 \<le> 7 * (q - next_emit)" "length t' = length t"
      "\<forall>h. nh = Some h \<longrightarrow> q < ip_limit \<and> hash input (q + 1) shift = Some h \<and> table_ok ts (q + 1) t'"
      by (rule cf_item [OF assms(1-3) _ 2(4-6) Suc.prems(6)])
    have step: "cf_main (Suc k) input shift ip_limit ip next_hash next_emit table (m, op) =
      (case nh of None \<Rightarrow> Some (q, t', m2, op + length es)
       | Some h \<Rightarrow> cf_main k input shift ip_limit (q + 1) h q t' (m2, op + length es))"
      using 2 it(1,2) Suc.prems(2) assms(2) by (cases nh) simp_all
    show ?thesis
    proof (cases nh)
      case None
      then show ?thesis unfolding step using it 2(2)
        by (intro exI [of _ q] exI [of _ t'] exI [of _ m2] exI [of _ es]) simp
    next
      case (Some h)
      then have h: "q < ip_limit" "hash input (q + 1) shift = Some h" "table_ok ts (q + 1) t'" using it(9) by auto
      have "6 * (op + length es) + 7 * (length input - q) + 108 \<le> 6 * length m2"
        using it(3,5-7) Suc.prems(6) by (simp add: emits_def)
      from Suc.IH [OF h(3) _ _ h(2) _ this] h(1) it(5) Suc.prems(5)
      obtain ne t2 m3 ds where *: "cf_main k input shift ip_limit (q + 1) h q t' (m2, op + length es) = Some (ne, t2, m3, op + length es + length ds)"
        "emits (m2, op + length es) ds (m3, op + length es + length ds)" "\<forall>pre. extends ds (pre @ take q input) (pre @ take ne input)"
        "q \<le> ne" "ne \<le> length input" "length t2 = length t'" "ne = q \<and> ds = [] \<or> 6 * length ds + 5 \<le> 7 * (ne - q)"
        by auto
      have "\<forall>pre. extends (es @ ds) (pre @ take next_emit input) (pre @ take ne input)" using extends_append it(4) *(3) by blast
      then show ?thesis unfolding step using Some * emits_trans [OF it(3) *(2)] it(5,7,8) 2(2)
        by (intro exI [of _ ne] exI [of _ t2] exI [of _ m3] exI [of _ "es @ ds"]) (auto simp: add.assoc split: if_splits)
    qed
  qed
qed

lemma literal_size: "0 < L \<Longrightarrow> 6 * (length (lit_header L) + L) \<le> 7 * L + 5" "6 \<le> L \<Longrightarrow> 6 * (length (lit_header L) + L) \<le> 7 * L"
  using length_lit_header [of L] by (cases "L \<le> 60"; cases "L \<le> 256"; auto)+

lemma fragment_main:
  assumes "length input \<le> kblock_size" "hashes_below shift ts" "table_ok ts 1 table" "6 * op + 7 * length input + 108 \<le> 6 * length m"
  shows "\<exists>ne t m1 bs. cf_scan input shift table (m, op) = Some (ne, t, m1, op + length bs) \<and>
    emits (m, op) bs (m1, op + length bs) \<and> (\<forall>pre. extends bs pre (pre @ take ne input)) \<and> ne \<le> length input \<and> length t = length table \<and>
    (ne = 0 \<and> bs = [] \<or> 6 * length bs + 5 \<le> 7 * ne)"
proof (cases "length input \<ge> 15")
  case True
  have "hash input 1 shift = Some (hash_bytes (le_word (take 4 (drop 1 input))) shift)" using True by (intro hash_inside) simp
  then show ?thesis
    using cf_main_ok [OF assms(2) _ assms(1,3), of "length input - 15" 0 _ "length input" op m] True assms(4) by (simp add: cf_scan_def)
next
  case False
  then show ?thesis using assms(4) by (intro exI [of _ 0] exI [of _ table] exI [of _ m] exI [of _ "[]"]) (simp add: cf_scan_def)
qed

lemma compress_fragment_ok:
  assumes "input \<noteq> []" "length input \<le> kblock_size" "8 \<le> p" "p \<le> 14" "table_ok (2 ^ p) 1 table"
    and space: "6 * op + 7 * length input + 125 \<le> 6 * length m"
  obtains m' bs t where "compress_fragment input (m, op) table (2 ^ p) = Some ((m', op + length bs), t)"
    "emits (m, op) bs (m', op + length bs)" "\<And>pre. extends bs pre (pre @ input)" "length t = length table"
    "6 * length bs \<le> 7 * length input + (if length input < 6 then 5 else 0)"
proof -
  note ts = table_sizes [OF assms(3,4)]
  have "hashes_below (32 - p) (2 ^ p)" using assms(4) by (intro hashes_below_power) simp
  from fragment_main [OF assms(2) this assms(5), of op m] space
  obtain ne t m1 bs where main: "cf_scan input (32 - p) table (m, op) = Some (ne, t, m1, op + length bs)"
    "emits (m, op) bs (m1, op + length bs)" "\<forall>pre. extends bs pre (pre @ take ne input)" "ne \<le> length input" "length t = length table"
    "ne = 0 \<and> bs = [] \<or> 6 * length bs + 5 \<le> 7 * ne" by auto
  let ?L = "length input - ne" and ?lit = "drop ne input"
  have step: "compress_fragment input (m, op) table (2 ^ p) =
    (if ne < length input then map_option (\<lambda>ob. (ob, t)) (emit_literal (m1, op + length bs) input ne ?L False)
     else Some ((m1, op + length bs), t))"
    using assms(2) ts main(1) by (simp add: compress_fragment_def Let_def map_option_case split: option.splits)
  show thesis
  proof (cases "ne < length input")
    case True
    have m1: "length m1 = length m" using main(2) by (simp add: emits_def)
    obtain ob where ob: "emit_literal (m1, op + length bs) input ne ?L False = Some ob"
      "emits (m1, op + length bs) (lit_header ?L @ take ?L ?lit) ob"
      by (rule emit_literal_emits [of ?L ne input False "op + length bs" m1])
        (use True main(6) space m1 assms(2) in \<open>auto simp: kblock_size_def\<close>)
    then obtain m2 where m2: "emit_literal (m1, op + length bs) input ne ?L False = Some (m2, op + length (bs @ lit_header ?L @ ?lit))"
      "emits (m, op) (bs @ lit_header ?L @ ?lit) (m2, op + length (bs @ lit_header ?L @ ?lit))"
      using emits_trans [OF main(2) ob(2)] ob by (cases ob) (simp add: emits_def add.assoc)
    have "extends (bs @ lit_header ?L @ ?lit) pre (pre @ input)" for pre
      using extends_append [OF spec [OF main(3)] extends_literal [of ?lit "pre @ take ne input"]] True assms(2) by (simp add: kblock_size_def)
    moreover have "6 * length (bs @ lit_header ?L @ ?lit) \<le> 7 * length input + (if length input < 6 then 5 else 0)"
      using literal_size [of ?L] main(6) True by (cases "ne = 0") auto
    ultimately show thesis using that [OF _ m2(2)] step True m2(1) main(5) by simp
  next
    case False
    then have "ne = length input" using main(4) by simp
    then show thesis using that [OF _ main(2)] step main assms(1) by auto
  qed
qed

section \<open>The whole input\<close>

definition env_ok :: "snappy_env \<Rightarrow> bool" where
  "env_ok env \<longleftrightarrow> length (hash_table env) = kmax_hash_table_size"

lemma get_hash_table_ok:
  assumes "env_ok env"
  obtains table p where "get_hash_table env n = Some (table, 2 ^ p)" "8 \<le> p" "p \<le> 14" "table_ok (2 ^ p) 1 table"
    "length table = kmax_hash_table_size"
proof -
  obtain p where p: "8 \<le> p" "p \<le> 14" "hash_size 256 n = 2 ^ p" using hash_size_power [of 8 n] by auto
  note ts = table_sizes [OF p(1,2)]
  show thesis
    using that [of "replicate (2 ^ p) 0 @ drop (2 ^ p) (hash_table env)" p] assms p ts(1,2)
    by (simp add: get_hash_table_def env_ok_def kmax_hash_table_size_def table_ok_def nth_append Let_def)
qed

lemma compress_blocks_ok:
  assumes "env_ok env" "6 * op + 7 * length reader + 125 \<le> 6 * length m"
  shows "\<exists>env' m' bs. compress_blocks env reader (m, op) (int (length reader)) = Some (0, env', m', op + length bs) \<and> env_ok env' \<and>
    emits (m, op) bs (m', op + length bs) \<and> (\<forall>pre. extends bs pre (pre @ reader)) \<and> 6 * length bs \<le> 7 * length reader + 5"
  using assms
proof (induction "length reader" arbitrary: env reader m op rule: less_induct)
  case less
  show ?case
  proof (cases "reader = []")
    case True
    then show ?thesis using less.prems
      by (intro exI [of _ env] exI [of _ m] exI [of _ "[]"]) (simp add: compress_blocks.simps)
  next
    case False
    define n where "n = min (length reader) kblock_size"
    have n: "0 < n" "n \<le> length reader" "n \<le> kblock_size" "n = length reader \<or> 6 \<le> n"
      using False by (auto simp: n_def kblock_size_def)
    obtain table p where t: "get_hash_table env n = Some (table, 2 ^ p)" "8 \<le> p" "p \<le> 14" "table_ok (2 ^ p) 1 table"
      "length table = kmax_hash_table_size" using get_hash_table_ok [OF less.prems(1)] by metis
    obtain m1 bs t' where f: "compress_fragment (take n reader) (m, op) table (2 ^ p) = Some ((m1, op + length bs), t')"
      "emits (m, op) bs (m1, op + length bs)" "\<And>pre. extends bs pre (pre @ take n reader)" "length t' = length table"
      "6 * length bs \<le> 7 * length (take n reader) + (if length (take n reader) < 6 then 5 else 0)"
      by (rule compress_fragment_ok [of "take n reader" p table op m]) (use n t less.prems(2) in auto)
    have e: "env_ok (env\<lparr>hash_table := t'\<rparr>)" using f(4) t(5) by (simp add: env_ok_def)
    have num: "nat (min (int (length reader)) (int kblock_size)) = n" "int (length reader) - int n = int (length (drop n reader))"
      using n by (auto simp: n_def)
    have step: "compress_blocks env reader (m, op) (int (length reader)) =
      compress_blocks (env\<lparr>hash_table := t'\<rparr>) (drop n reader) (m1, op + length bs) (int (length (drop n reader)))"
      using False n(2) t(1) f(1) by (subst compress_blocks.simps) (simp add: num Let_def del: length_drop)
    show ?thesis
    proof (cases "n = length reader")
      case True
      then have "compress_blocks env reader (m, op) (int (length reader)) = Some (0, env\<lparr>hash_table := t'\<rparr>, m1, op + length bs)"
        using step by (simp add: compress_blocks.simps)
      then show ?thesis using e f True
        by (intro exI [of _ "env\<lparr>hash_table := t'\<rparr>"] exI [of _ m1] exI [of _ bs]) (auto split: if_splits)
    next
      case more: False
      have sz: "6 * length bs \<le> 7 * n" using f(5) n more by auto
      have "6 * (op + length bs) + 7 * length (drop n reader) + 125 \<le> 6 * length m1"
        using sz less.prems(2) n(2) f(2) by (simp add: emits_def)
      from less.hyps [OF _ e this] n(1) False obtain env' m2 cs where
        *: "compress_blocks (env\<lparr>hash_table := t'\<rparr>) (drop n reader) (m1, op + length bs) (int (length (drop n reader))) =
            Some (0, env', m2, op + length bs + length cs)" "env_ok env'"
        "emits (m1, op + length bs) cs (m2, op + length bs + length cs)" "\<forall>pre. extends cs pre (pre @ drop n reader)"
        "6 * length cs \<le> 7 * length (drop n reader) + 5" by auto
      have "extends (bs @ cs) pre (pre @ reader)" for pre
        using extends_append [OF f(3) spec [OF *(4), of "pre @ take n reader"]] by simp
      then show ?thesis using step * emits_trans [OF f(2) *(3)] sz n(2)
        by (intro exI [of _ env'] exI [of _ m2] exI [of _ "bs @ cs"]) (simp add: add.assoc)
    qed
  qed
qed

lemma varint_size: "length (varint_encode32 v) \<le> 5"
  by (simp add: varint_encode32_def)

lemma decode_block_extends:
  assumes "varint_parse32_with_limit bs = Some (of_nat (length out), rest)" "length out < 2 ^ 32" "extends rest [] out"
  shows "decode_block bs = Some out"
proof -
  have "unat (of_nat (length out) :: u32) = length out" using assms(2) by (simp add: unat_of_nat)
  then show ?thesis using assms(1) extends_decode [OF assms(3)] by (simp add: decode_block_def)
qed

text \<open>The output of the compressor, in a buffer of the documented size.\<close>

lemma snappy_compress_ok:
  assumes "env_ok env" "length input < 2 ^ 31" "snappy_max_compressed_length (length input) \<le> length compressed"
  obtains env' m k rest where "snappy_compress env input compressed = Some (0, env', m, k)" "env_ok env'"
    "length m = length compressed" "k \<le> snappy_max_compressed_length (length input)"
    "varint_parse32_with_limit (take k m) = Some (of_nat (length input), rest)" "extends rest [] input"
proof -
  let ?N = "of_nat (length input) :: u32" and ?n = "length input"
  let ?u = "varint_encode32 ?N"
  let ?m = "upd compressed 0 ?u"
  have cap: "6 * length compressed \<ge> 7 * ?n + 187" "6 * snappy_max_compressed_length ?n \<ge> 7 * ?n + 187"
    using assms(3) by (simp_all add: snappy_max_compressed_length_def)
  have u: "length ?u \<le> 5" by (rule varint_size)
  have em: "emits (compressed, 0) ?u (?m, length ?u)" using emits_store [of 0 ?u compressed] u cap by simp
  then have lm: "length ?m = length compressed" by (simp add: emits_def)
  have N: "sint ?N = int ?n" using assms(2) by (simp add: sint_uint uint_nat unat_of_nat signed_take_bit_int_eq_self)
  obtain env' m bs where *: "compress_blocks env input (?m, length ?u) (int ?n) = Some (0, env', m, length ?u + length bs)" "env_ok env'"
    "emits (?m, length ?u) bs (m, length ?u + length bs)" "\<forall>pre. extends bs pre (pre @ input)" "6 * length bs \<le> 7 * ?n + 5"
    using compress_blocks_ok [OF assms(1), of "length ?u" input ?m] u cap lm by auto
  have "take (length ?u + length bs) m = ?u @ bs" using emits_trans [OF em *(3)] by (simp add: emits_def)
  then have "varint_parse32_with_limit (take (length ?u + length bs) m) = Some (?N, bs)" using varint_roundtrip by simp
  moreover have "snappy_compress env input compressed = Some (0, env', m, length ?u + length bs)"
    using *(1) N u cap by (simp add: snappy_compress_def compress_source_def mem)
  moreover have "length ?u + length bs \<le> snappy_max_compressed_length ?n" using *(5) u cap by linarith
  moreover have "extends bs [] input" using spec [OF *(4), of "[]"] by simp
  moreover have "length m = length compressed" using *(3) lm by (simp add: emits_def)
  ultimately show thesis using that *(2) by blast
qed

section \<open>The table that is left over\<close>

text \<open>
  An environment is used for one call after the other. The part of the table that a block uses is
  cleared first, so nothing that an earlier call left behind changes the output: two runs with
  tables that agree on that part agree step by step.
\<close>

definition same :: "nat \<Rightarrow> u16 list \<Rightarrow> u16 list \<Rightarrow> bool" where
  "same ts t u \<longleftrightarrow> length t = kmax_hash_table_size \<and> length u = kmax_hash_table_size \<and> take ts u = take ts t"

fun same_search :: "nat \<Rightarrow> search \<Rightarrow> search \<Rightarrow> bool" where
  "same_search ts (Remainder t) (Remainder u) \<longleftrightarrow> same ts t u"
| "same_search ts (Match i c t) (Match j d u) \<longleftrightarrow> i = j \<and> c = d \<and> same ts t u"
| "same_search ts _ _ \<longleftrightarrow> False"

lemma rel_bind:
  assumes "rel_option R a b" "\<And>x y. a = Some x \<Longrightarrow> R x y \<Longrightarrow> rel_option S (f x) (g y)"
  shows "rel_option S (a \<bind> f) (b \<bind> g)"
  using assms by (cases a; cases b) auto

lemma rel_bind_same: "(\<And>x. a = Some x \<Longrightarrow> rel_option S (f x) (g x)) \<Longrightarrow> rel_option S (a \<bind> f) (a \<bind> g)"
  by (cases a) auto

lemma same_get: "same ts t u \<Longrightarrow> unat h < ts \<Longrightarrow> table_get u h = table_get t h"
  unfolding same_def table_get_def by (metis nth_take)

lemma same_put: "same ts t u \<Longrightarrow> unat h < ts \<Longrightarrow> rel_option (same ts) (table_put t h p) (table_put u h p)"
  by (simp add: same_def table_put_def take_update_swap)

lemma hash_bytes_of: "hash m p shift = Some h \<Longrightarrow> hashes_below shift ts \<Longrightarrow> unat h < ts"
  by (auto simp: hash_def hashes_below_def split: bind_splits)

lemma cf_search_same:
  assumes "same ts t u" "hashes_below shift ts" "unat hval < ts"
  shows "rel_option (same_search ts) (cf_search k input shift lim skip ip hval t)
    (cf_search k input shift lim skip ip hval u)"
  using assms(1,3)
proof (induction k arbitrary: skip ip hval t u)
  case (Suc k)
  note put = same_put [OF Suc.prems] and get = same_get [OF Suc.prems]
  show ?case unfolding cf_search.simps Let_def
    by (auto intro!: rel_bind_same rel_bind [OF put] Suc.IH Suc.prems simp: get hash_bytes_of [OF _ assms(2)])
qed simp

definition same_hash :: "nat \<Rightarrow> u32 option \<Rightarrow> u32 option \<Rightarrow> bool" where
  "same_hash ts h g \<longleftrightarrow> h = g \<and> (\<forall>x. h = Some x \<longrightarrow> unat x < ts)"

lemma same_hash_simps [simp]:
  "same_hash ts None None" "same_hash ts (Some h) (Some g) \<longleftrightarrow> h = g \<and> unat h < ts"
  by (auto simp: same_hash_def)

lemma cf_copies_same:
  assumes "same ts t u" "hashes_below shift ts"
  shows "rel_option (rel_prod (=) (rel_prod (same_hash ts) (rel_prod (same ts) (=))))
    (cf_copies k input shift lim base cand t ob) (cf_copies k input shift lim base cand u ob)"
  using assms(1)
proof (induction k arbitrary: base cand t u ob)
  case (Suc k)
  have h: "unat (hash_bytes w shift) < ts" for w using assms(2) by (simp add: hashes_below_def)
  note put = same_put [OF _ h] and get = same_get [OF _ h]
  show ?case unfolding cf_copies.simps Let_def
    by (auto intro!: rel_bind_same rel_bind [OF put] Suc.IH Suc.prems simp: get h)
qed simp

lemma cf_main_same:
  assumes "same ts t u" "hashes_below shift ts" "unat next_hash < ts"
  shows "rel_option (rel_prod (=) (rel_prod (same ts) (=)))
    (cf_main k input shift lim ip next_hash next_emit t ob) (cf_main k input shift lim ip next_hash next_emit u ob)"
  using assms(1,3)
proof (induction k arbitrary: ip next_hash next_emit t u ob)
  case (Suc k)
  note search = cf_search_same [OF _ assms(2)] and copies = cf_copies_same [OF _ assms(2)]
  show ?case unfolding cf_main.simps
    by (auto intro!: rel_bind_same rel_bind [OF search] rel_bind [OF copies] Suc.IH Suc.prems
        elim!: same_search.elims split: option.split simp: same_hash_def)
qed simp

lemma cf_scan_same:
  assumes "same ts t u" "hashes_below shift ts"
  shows "rel_option (rel_prod (=) (rel_prod (same ts) (=))) (cf_scan input shift t ob) (cf_scan input shift u ob)"
  unfolding cf_scan_def Let_def using assms
  by (auto intro!: rel_bind_same cf_main_same simp: hash_bytes_of)

lemma compress_fragment_same:
  assumes "same (2 ^ p) t u" "8 \<le> p" "p \<le> 14"
  shows "rel_option (rel_prod (=) (same (2 ^ p))) (compress_fragment input ob t (2 ^ p)) (compress_fragment input ob u (2 ^ p))"
  unfolding compress_fragment_def Let_def table_sizes(3) [OF assms(2,3)]
  using assms by (auto intro!: rel_bind_same rel_bind [OF cf_scan_same] hashes_below_power)

lemma same_env: "same ts t u \<Longrightarrow> env_ok (env\<lparr>hash_table := t\<rparr>) \<and> env_ok (env'\<lparr>hash_table := u\<rparr>)"
  by (simp add: same_def env_ok_def)

lemma get_hash_table_same:
  assumes "env_ok env" "env_ok env'"
  obtains p t u where "8 \<le> p" "p \<le> 14" "get_hash_table env n = Some (t, 2 ^ p)"
    "get_hash_table env' n = Some (u, 2 ^ p)" "same (2 ^ p) t u"
proof -
  obtain p where p: "8 \<le> p" "p \<le> 14" "hash_size 256 n = 2 ^ p" using hash_size_power [of 8 n] by auto
  note ts = table_sizes [OF p(1,2)]
  show thesis
    using that [OF p(1,2)] assms ts(1,2) p(3) by (simp add: get_hash_table_def env_ok_def kmax_hash_table_size_def same_def Let_def)
qed

lemma compress_blocks_same:
  assumes "env_ok env" "env_ok env'"
  shows "rel_option (rel_prod (=) (rel_prod (\<lambda>e e'. env_ok e \<and> env_ok e') (=)))
    (compress_blocks env reader ob N) (compress_blocks env' reader ob N)"
  using assms
proof (induction env reader ob N arbitrary: env' rule: compress_blocks.induct)
  case (1 env reader ob N)
  let ?n = "nat (min N (int kblock_size))"
  obtain p t u where p: "8 \<le> p" "p \<le> 14" and get: "get_hash_table env ?n = Some (t, 2 ^ p)"
    "get_hash_table env' ?n = Some (u, 2 ^ p)" and same: "same (2 ^ p) t u"
    by (rule get_hash_table_same [OF "1.prems"])
  show ?case
  proof (cases "N > 0 \<and> reader \<noteq> []")
    case True
    have IH: "rel_option (rel_prod (=) (rel_prod (\<lambda>e e'. env_ok e \<and> env_ok e') (=)))
        (compress_blocks (env\<lparr>hash_table := a\<rparr>) (drop ?n reader) oc (N - int ?n))
        (compress_blocks (env'\<lparr>hash_table := b\<rparr>) (drop ?n reader) oc (N - int ?n))" 
      if "?n \<le> length reader" "compress_fragment (take ?n reader) ob t (2 ^ p) = Some (oc, a)" "same (2 ^ p) a b" for a b oc
      using True that(1,2) get(1) same_env [OF that(3)] by (intro "1.IH" [OF _ _ refl, of _ _ t "2 ^ p"]) auto
    then show ?thesis using True
      by (subst (1 2) compress_blocks.simps)
        (auto simp: get Let_def intro!: rel_bind_same rel_bind [OF compress_fragment_same [OF same p]])
  qed (use "1.prems" in \<open>auto simp: compress_blocks.simps\<close>)
qed

text \<open>What the compressor returns does not depend on what earlier calls left in the table.\<close>

lemma snappy_compress_same:
  assumes "env_ok env" "env_ok env'"
  shows "map_option (\<lambda>(rc, _, out). (rc, out)) (snappy_compress env' input buf) =
    map_option (\<lambda>(rc, _, out). (rc, out)) (snappy_compress env input buf)"
proof -
  have "rel_option (rel_prod (=) (rel_prod (\<lambda>e e'. env_ok e \<and> env_ok e') (=))) (snappy_compress env input buf)
      (snappy_compress env' input buf)"
    unfolding snappy_compress_def compress_source_def Let_def case_prod_conv
    by (rule rel_bind, rule rel_bind_same, rule compress_blocks_same [OF assms]) auto
  then show ?thesis by (cases "snappy_compress env input buf"; cases "snappy_compress env' input buf") auto
qed

end
