(* ===== verification/Snappy_Uncompress.thy ===== *)
theory Snappy_Uncompress
  imports Snappy_Memory
begin

text \<open>
  The decompressor of \<open>lib/snappy-c/snappy.c\<close>, in the build without \<open>SG\<close>. It must be safe on every
  input: the compressed data may be damaged.

  A pointer into the compressed data or into the scratch buffer is the rest of the object it points
  into, so that reading past the end is seen; \<open>d_left\<close> is the distance to \<open>ip_limit\<close>. The source is the
  list of bytes that have not been skipped. The writer's buffer is the whole uncompressed buffer, its
  base is index 0.
\<close>

unbundle bit_operations_syntax

section \<open>Definitions\<close>

subsection \<open>The source\<close>

definition skip :: "bytes \<Rightarrow> nat \<Rightarrow> bytes option" where
  "skip s n = (if n \<le> length s then Some (drop n s) else None)"

subsection \<open>The writer\<close>

record writer =
  w_buf :: bytes
  w_op :: nat
  w_op_limit :: nat

definition writer_set_expected_length :: "writer \<Rightarrow> nat \<Rightarrow> writer" where
  "writer_set_expected_length w len = w\<lparr>w_op_limit := w_op w + len\<rparr>"

definition writer_check_length :: "writer \<Rightarrow> bool" where
  "writer_check_length w \<longleftrightarrow> w_op w = w_op_limit w"

text \<open>The difference of two pointers, stored in an \<open>int\<close>.\<close>

definition space_left :: "writer \<Rightarrow> u32" where
  "space_left w = of_int (int (w_op_limit w) - int (w_op w))"

fun incremental_copy :: "bytes \<Rightarrow> nat \<Rightarrow> nat \<Rightarrow> nat \<Rightarrow> bytes option" where
  "incremental_copy m src op 0 = None"
| "incremental_copy m src op (Suc n) = do {
     b \<leftarrow> load8 m src;
     m \<leftarrow> store m op [b];
     if n = 0 then Some m else incremental_copy m (src + 1) (op + 1) n
   }"

text \<open>The first loop doubles the distance; it would not end when the pointers were equal.\<close>

partial_function (option) icf_expand :: "bytes \<Rightarrow> nat \<Rightarrow> nat \<Rightarrow> int \<Rightarrow> (bytes \<times> nat \<times> int) option" where
  "icf_expand m src op len =
     (if int op - int src < 8 then do {
        m \<leftarrow> copy64 m src m op;
        icf_expand m src (op + (op - src)) (len - int (op - src))
      } else Some (m, op, len))"

declare icf_expand.simps [code]

function icf_copy :: "bytes \<Rightarrow> nat \<Rightarrow> nat \<Rightarrow> int \<Rightarrow> bytes option" where
  "icf_copy m src op len =
     (if len > 0 then do {m \<leftarrow> copy64 m src m op; icf_copy m (src + 8) (op + 8) (len - 8)} else Some m)"
  by pat_completeness auto
termination by (relation "measure (\<lambda>(_, _, _, len). nat len)") auto

declare icf_copy.simps [simp del]

definition incremental_copy_fast_path :: "bytes \<Rightarrow> nat \<Rightarrow> nat \<Rightarrow> int \<Rightarrow> bytes option" where
  "incremental_copy_fast_path m src op len = do {(m, op, len) \<leftarrow> icf_expand m src op len; icf_copy m src op len}"

definition kmax_increment_copy_overflow :: u32 where
  "kmax_increment_copy_overflow = 10"

definition writer_append_from_self :: "writer \<Rightarrow> u32 \<Rightarrow> u32 \<Rightarrow> (bool \<times> writer) option" where
  "writer_append_from_self w offset len =
     (let m = w_buf w; op = w_op w; src = op - unat offset
      in if op \<le> unat (offset - 1) then Some (False, w)
         else if len \<le> 16 \<and> offset \<ge> 8 \<and> 16 \<le> sint (space_left w) then do {
           m \<leftarrow> copy64 m src m op;
           m \<leftarrow> copy64 m (src + 8) m (op + 8);
           Some (True, w\<lparr>w_buf := m, w_op := op + unat len\<rparr>)
         }
         else if space_left w \<ge> len + kmax_increment_copy_overflow then do {
           m \<leftarrow> incremental_copy_fast_path m src op (sint len);
           Some (True, w\<lparr>w_buf := m, w_op := op + unat len\<rparr>)
         }
         else if space_left w < len then Some (False, w)
         else do {
           m \<leftarrow> incremental_copy m src op (unat len);
           Some (True, w\<lparr>w_buf := m, w_op := op + unat len\<rparr>)
         })"

definition writer_append :: "writer \<Rightarrow> bytes \<Rightarrow> u32 \<Rightarrow> (bool \<times> writer) option" where
  "writer_append w ip len =
     (if space_left w < len then Some (False, w)
      else do {
        bs \<leftarrow> load_bytes ip 0 (unat len);
        m \<leftarrow> store (w_buf w) (w_op w) bs;
        Some (True, w\<lparr>w_buf := m, w_op := w_op w + unat len\<rparr>)
      })"

definition writer_try_fast_append :: "writer \<Rightarrow> bytes \<Rightarrow> u32 \<Rightarrow> u32 \<Rightarrow> (bool \<times> writer) option" where
  "writer_try_fast_append w ip available len =
     (if len \<le> 16 \<and> available \<ge> 16 \<and> 16 \<le> sint (space_left w) then do {
        m \<leftarrow> copy64 ip 0 (w_buf w) (w_op w);
        m \<leftarrow> copy64 ip 8 m (w_op w + 8);
        Some (True, w\<lparr>w_buf := m, w_op := w_op w + unat len\<rparr>)
      } else Some (False, w))"

subsection \<open>The tables\<close>

definition wordmask :: "u32 list" where
  "wordmask = [0, 0xff, 0xffff, 0xffffff, 0xffffffff]"

definition char_table :: "u16 list" where
  "char_table =
    [0x0001, 0x0804, 0x1001, 0x2001, 0x0002, 0x0805, 0x1002, 0x2002, 0x0003, 0x0806, 0x1003, 0x2003, 0x0004, 0x0807, 0x1004, 0x2004,
     0x0005, 0x0808, 0x1005, 0x2005, 0x0006, 0x0809, 0x1006, 0x2006, 0x0007, 0x080a, 0x1007, 0x2007, 0x0008, 0x080b, 0x1008, 0x2008,
     0x0009, 0x0904, 0x1009, 0x2009, 0x000a, 0x0905, 0x100a, 0x200a, 0x000b, 0x0906, 0x100b, 0x200b, 0x000c, 0x0907, 0x100c, 0x200c,
     0x000d, 0x0908, 0x100d, 0x200d, 0x000e, 0x0909, 0x100e, 0x200e, 0x000f, 0x090a, 0x100f, 0x200f, 0x0010, 0x090b, 0x1010, 0x2010,
     0x0011, 0x0a04, 0x1011, 0x2011, 0x0012, 0x0a05, 0x1012, 0x2012, 0x0013, 0x0a06, 0x1013, 0x2013, 0x0014, 0x0a07, 0x1014, 0x2014,
     0x0015, 0x0a08, 0x1015, 0x2015, 0x0016, 0x0a09, 0x1016, 0x2016, 0x0017, 0x0a0a, 0x1017, 0x2017, 0x0018, 0x0a0b, 0x1018, 0x2018,
     0x0019, 0x0b04, 0x1019, 0x2019, 0x001a, 0x0b05, 0x101a, 0x201a, 0x001b, 0x0b06, 0x101b, 0x201b, 0x001c, 0x0b07, 0x101c, 0x201c,
     0x001d, 0x0b08, 0x101d, 0x201d, 0x001e, 0x0b09, 0x101e, 0x201e, 0x001f, 0x0b0a, 0x101f, 0x201f, 0x0020, 0x0b0b, 0x1020, 0x2020,
     0x0021, 0x0c04, 0x1021, 0x2021, 0x0022, 0x0c05, 0x1022, 0x2022, 0x0023, 0x0c06, 0x1023, 0x2023, 0x0024, 0x0c07, 0x1024, 0x2024,
     0x0025, 0x0c08, 0x1025, 0x2025, 0x0026, 0x0c09, 0x1026, 0x2026, 0x0027, 0x0c0a, 0x1027, 0x2027, 0x0028, 0x0c0b, 0x1028, 0x2028,
     0x0029, 0x0d04, 0x1029, 0x2029, 0x002a, 0x0d05, 0x102a, 0x202a, 0x002b, 0x0d06, 0x102b, 0x202b, 0x002c, 0x0d07, 0x102c, 0x202c,
     0x002d, 0x0d08, 0x102d, 0x202d, 0x002e, 0x0d09, 0x102e, 0x202e, 0x002f, 0x0d0a, 0x102f, 0x202f, 0x0030, 0x0d0b, 0x1030, 0x2030,
     0x0031, 0x0e04, 0x1031, 0x2031, 0x0032, 0x0e05, 0x1032, 0x2032, 0x0033, 0x0e06, 0x1033, 0x2033, 0x0034, 0x0e07, 0x1034, 0x2034,
     0x0035, 0x0e08, 0x1035, 0x2035, 0x0036, 0x0e09, 0x1036, 0x2036, 0x0037, 0x0e0a, 0x1037, 0x2037, 0x0038, 0x0e0b, 0x1038, 0x2038,
     0x0039, 0x0f04, 0x1039, 0x2039, 0x003a, 0x0f05, 0x103a, 0x203a, 0x003b, 0x0f06, 0x103b, 0x203b, 0x003c, 0x0f07, 0x103c, 0x203c,
     0x0801, 0x0f08, 0x103d, 0x203d, 0x1001, 0x0f09, 0x103e, 0x203e, 0x1801, 0x0f0a, 0x103f, 0x203f, 0x2001, 0x0f0b, 0x1040, 0x2040]"

definition table_entry :: "u8 \<Rightarrow> u32" where
  "table_entry c = ucast (char_table ! unat c)"

subsection \<open>The decompressor\<close>

record snappy_decompressor =
  reader :: bytes
  d_ip :: bytes
  d_left :: nat
  peeked :: u32
  eof :: bool
  d_scratch :: bytes

text \<open>The scratch buffer is not initialised.\<close>

definition init_snappy_decompressor :: "bytes \<Rightarrow> bytes \<Rightarrow> snappy_decompressor" where
  "init_snappy_decompressor garbage r =
     \<lparr>reader = r, d_ip = [], d_left = 0, peeked = 0, eof = False, d_scratch = garbage\<rparr>"

definition exit_snappy_decompressor :: "snappy_decompressor \<Rightarrow> bytes option" where
  "exit_snappy_decompressor d = skip (reader d) (unat (peeked d))"

function read_length :: "nat \<Rightarrow> u32 \<Rightarrow> bytes \<Rightarrow> (u32 \<times> bytes) option" where
  "read_length shift result r =
     (if shift \<ge> 32 then None
      else case r of
        [] \<Rightarrow> None
      | c # r \<Rightarrow>
          (let result = result OR push_bit shift (ucast (c AND 0x7f))
           in if c < 128 then Some (result, r) else read_length (shift + 7) result r))"
  by pat_completeness auto
termination by (relation "measure (\<lambda>(shift, _, _). 32 - shift)") auto

declare read_length.simps [simp del]

definition read_uncompressed_length :: "bytes \<Rightarrow> (u32 \<times> bytes) option" where
  "read_uncompressed_length r = read_length 0 0 r"

definition advance :: "nat \<Rightarrow> snappy_decompressor \<Rightarrow> snappy_decompressor option" where
  "advance n d = (if n \<le> d_left d then Some (d\<lparr>d_ip := drop n (d_ip d), d_left := d_left d - n\<rparr>) else None)"

text \<open>A new fragment from the reader.\<close>

definition fetch :: "snappy_decompressor \<Rightarrow> snappy_decompressor option" where
  "fetch d = do {
     r \<leftarrow> skip (reader d) (unat (peeked d));
     Some (d\<lparr>reader := r, d_ip := r, d_left := length r, peeked := of_nat (length r)\<rparr>)
   }"

text \<open>Bytes from the reader behind the \<open>nbuf\<close> bytes in the scratch buffer, until there are enough.\<close>

function stitch :: "nat \<Rightarrow> nat \<Rightarrow> snappy_decompressor \<Rightarrow> (bool \<times> snappy_decompressor) option" where
  "stitch needed nbuf d =
     (if nbuf < needed then
        if reader d = [] then Some (False, d)
        else do {
          let to_add = min (needed - nbuf) (length (reader d));
          s \<leftarrow> store (d_scratch d) nbuf (take to_add (reader d));
          r \<leftarrow> skip (reader d) to_add;
          stitch needed (nbuf + to_add) (d\<lparr>d_scratch := s, reader := r\<rparr>)
        }
      else do {
        DCHECK (nbuf = needed);
        Some (True, d\<lparr>d_ip := d_scratch d, d_left := needed\<rparr>)
      })"
  by pat_completeness auto
termination by (relation "measure (\<lambda>(needed, nbuf, _). needed - nbuf)") (auto simp: min_def intro!: diff_less_mono2)

declare stitch.simps [simp del]

definition to_scratch :: "nat \<Rightarrow> snappy_decompressor \<Rightarrow> snappy_decompressor option" where
  "to_scratch nbuf d = do {
     bs \<leftarrow> load_bytes (d_ip d) 0 nbuf;
     s \<leftarrow> store (d_scratch d) 0 bs;
     r \<leftarrow> skip (reader d) (unat (peeked d));
     Some (d\<lparr>d_scratch := s, reader := r, peeked := 0\<rparr>)
   }"

definition refill_tag :: "snappy_decompressor \<Rightarrow> (bool \<times> snappy_decompressor) option" where
  "refill_tag d0 = do {
     d \<leftarrow> (if d_left d0 = 0 then fetch d0 else Some d0);
     if d_left d = 0 then Some (False, d\<lparr>eof := True\<rparr>)
     else do {
       c \<leftarrow> load8 (d_ip d) 0;
       let needed = unat (drop_bit 11 (table_entry c)) + 1;
       DCHECK (needed \<le> 5);
       let nbuf = unat (of_nat (d_left d) :: u32);
       if nbuf < needed then do {
         d \<leftarrow> to_scratch nbuf d;
         stitch needed nbuf d
       } else if nbuf < 5 then do {
         d \<leftarrow> to_scratch nbuf d;
         Some (True, d\<lparr>d_ip := d_scratch d, d_left := nbuf\<rparr>)
       } else Some (True, d)
     }
   }"

definition maybe_refill :: "snappy_decompressor \<Rightarrow> (bool \<times> snappy_decompressor) option" where
  "maybe_refill d = (if d_left d < 5 then refill_tag d else Some (True, d))"

text \<open>The loop that copies a literal from several fragments; the boolean of the result is false when
  the decompressor returns.\<close>

function literal_loop ::
  "u32 \<Rightarrow> u32 \<Rightarrow> snappy_decompressor \<Rightarrow> writer \<Rightarrow> (bool \<times> u32 \<times> snappy_decompressor \<times> writer) option" where
  "literal_loop avail literal_length d w =
     (if avail < literal_length then do {
        (ok, w) \<leftarrow> writer_append w (d_ip d) avail;
        if \<not> ok then Some (False, literal_length, d, w)
        else do {
          d \<leftarrow> fetch d;
          let n = (of_nat (length (reader d)) :: u32);
          if n = 0 then Some (False, literal_length - avail, d, w)
          else literal_loop n (literal_length - avail) (d\<lparr>d_left := unat n\<rparr>) w
        }
      } else Some (True, literal_length, d, w))"
  by pat_completeness auto
termination
proof (relation "measure (\<lambda>(a, l, _). 2 * unat l + (if a = 0 then 1 else 0))", goal_cases)
  case (2 avail l d w x ok w1 d1 n)
  then have "unat (l - avail) = unat l - unat avail" "unat avail < unat l" "avail = 0 \<or> 0 < unat avail"
    by (auto simp: unat_sub_if' word_less_nat_alt unat_gt_0)
  then show ?case using 2 by auto
qed simp

declare literal_loop.simps [simp del]

definition copy_literal ::
  "u32 \<Rightarrow> snappy_decompressor \<Rightarrow> writer \<Rightarrow> (bool \<times> snappy_decompressor \<times> writer) option" where
  "copy_literal literal_length d w = do {
     (more, literal_length, d, w) \<leftarrow> literal_loop (of_nat (d_left d)) literal_length d w;
     if \<not> more then Some (False, d, w)
     else do {
       (ok, w) \<leftarrow> writer_append w (d_ip d) literal_length;
       if \<not> ok then Some (False, d, w)
       else do {
         d \<leftarrow> advance (unat literal_length) d;
         Some (True, d, w)
       }
     }
   }"

definition decompress_literal ::
  "u8 \<Rightarrow> snappy_decompressor \<Rightarrow> writer \<Rightarrow> (bool \<times> snappy_decompressor \<times> writer) option" where
  "decompress_literal c d w = do {
     let literal_length = (ucast (drop_bit 2 c) + 1 :: u32);
     (fast, w) \<leftarrow> writer_try_fast_append w (d_ip d) (of_nat (d_left d)) literal_length;
     if fast then do {
       DCHECK (literal_length < 61);
       d \<leftarrow> advance (unat literal_length) d;
       Some (True, d, w)
     } else do {
       (literal_length, d) \<leftarrow>
         (if literal_length \<ge> 61 then do {
            let literal_ll = literal_length - 60;
            v \<leftarrow> load32 (d_ip d) 0;
            d \<leftarrow> advance (unat literal_ll) d;
            Some ((v AND wordmask ! unat literal_ll) + 1, d)
          } else Some (literal_length, d));
       copy_literal literal_length d w
     }
   }"

definition decompress_copy ::
  "u8 \<Rightarrow> snappy_decompressor \<Rightarrow> writer \<Rightarrow> (bool \<times> snappy_decompressor \<times> writer) option" where
  "decompress_copy c d w = do {
     let entry = table_entry c;
     v \<leftarrow> load32 (d_ip d) 0;
     let trailer = v AND wordmask ! unat (drop_bit 11 entry);
     let length = entry AND 0xff;
     d \<leftarrow> advance (unat (drop_bit 11 entry)) d;
     let copy_offset = entry AND 0x700;
     (ok, w) \<leftarrow> writer_append_from_self w (copy_offset + trailer) length;
     Some (ok, d, w)
   }"

fun decompress_tags :: "nat \<Rightarrow> snappy_decompressor \<Rightarrow> writer \<Rightarrow> (snappy_decompressor \<times> writer) option" where
  "decompress_tags 0 d w = None"
| "decompress_tags (Suc k) d w = do {
     (more, d) \<leftarrow> maybe_refill d;
     if \<not> more then Some (d, w)
     else do {
       c \<leftarrow> load8 (d_ip d) 0;
       d \<leftarrow> advance 1 d;
       (ok, d, w) \<leftarrow> (if c AND 0x3 = 0 then decompress_literal c d w else decompress_copy c d w);
       if \<not> ok then Some (d, w)
       else do {
         (more, d) \<leftarrow> maybe_refill d;
         if \<not> more then Some (d, w) else decompress_tags k d w
       }
     }
   }"

text \<open>Every round uses up a byte of the input.\<close>

definition decompress_all_tags :: "snappy_decompressor \<Rightarrow> writer \<Rightarrow> (snappy_decompressor \<times> writer) option" where
  "decompress_all_tags d w = do {
     (more, d) \<leftarrow> maybe_refill d;
     if \<not> more then Some (d, w) else decompress_tags (Suc (length (reader d) + d_left d)) d w
   }"

definition internal_uncompress :: "bytes \<Rightarrow> bytes \<Rightarrow> writer \<Rightarrow> u32 \<Rightarrow> (int \<times> writer) option" where
  "internal_uncompress garbage r w max_len =
     (case read_uncompressed_length r of
        None \<Rightarrow> Some (- 5, w)
      | Some (uncompressed_len, r) \<Rightarrow>
          if uncompressed_len > max_len then Some (- 5, w)
          else do {
            (d, w) \<leftarrow> decompress_all_tags (init_snappy_decompressor garbage r)
                         (writer_set_expected_length w (unat uncompressed_len));
            exit_snappy_decompressor d;
            Some (if eof d \<and> writer_check_length w then 0 else - 5, w)
          })"

definition snappy_uncompress :: "bytes \<Rightarrow> bytes \<Rightarrow> bytes \<Rightarrow> (int \<times> bytes) option" where
  "snappy_uncompress garbage compressed uncompressed = do {
     (rc, w) \<leftarrow> internal_uncompress garbage compressed \<lparr>w_buf = uncompressed, w_op = 0, w_op_limit = 0\<rparr> 0xffffffff;
     Some (rc, w_buf w)
   }"

end
