(* ===== verification/Snappy_Decode.thy ===== *)
theory Snappy_Decode
  imports Snappy_Uncompress
begin

text \<open>
  The decompressor implements the format: on every input it returns, stays inside of its buffers and
  the announced length, succeeds exactly when the data can be decoded, and then has written what the
  format says.
\<close>

unbundle bit_operations_syntax

section \<open>Copying inside of the output\<close>

text \<open>From \<open>src\<close> to \<open>q\<close> the buffer repeats its first \<open>off\<close> bytes.\<close>

definition cyc :: "bytes \<Rightarrow> nat \<Rightarrow> nat \<Rightarrow> nat \<Rightarrow> bool" where
  "cyc m src off q \<longleftrightarrow> (\<forall>i. src \<le> i \<and> i < q \<longrightarrow> m ! i = m ! (src + (i - src) mod off))"

lemma cyc_start: "0 < off \<Longrightarrow> cyc m src off (src + off)"
  unfolding cyc_def by auto

lemma cyc_less: "cyc m src off q \<Longrightarrow> q' \<le> q \<Longrightarrow> cyc m src off q'"
  unfolding cyc_def by auto

text \<open>Storing bytes from a multiple of the period before.\<close>

lemma cyc_store:
  assumes "cyc m src off q" "0 < off" "src + off \<le> q" "src \<le> s" "s + d = q" "d mod off = 0" "n \<le> d" "n \<le> length bs"
    and "\<And>i. i < n \<Longrightarrow> bs ! i = m ! (s + i)" and len: "q + length bs \<le> length m"
  shows "cyc (upd m q bs) src off (q + n)"
  unfolding cyc_def
proof (intro allI impI)
  fix i assume i: "src \<le> i \<and> i < q + n"
  let ?c = "src + (i - src) mod off"
  have "(i - src) mod off < off" using assms(2) by simp
  then have c: "?c < q" using assms(3) by linarith
  have low: "upd m q bs ! j = m ! j" if "j < q" for j using that len by (simp add: nth_upd)
  show "upd m q bs ! i = upd m q bs ! ?c"
  proof (cases "i < q")
    case True
    then have "m ! i = m ! ?c" using assms(1) i unfolding cyc_def by blast
    then show ?thesis using low c True by simp
  next
    case False
    define j where "j = i - q"
    have j: "j < n" "i = q + j" using False i by (auto simp: j_def)
    have "upd m q bs ! i = bs ! j" using j assms(8) len by (simp add: nth_upd)
    also have "\<dots> = m ! (s + j)" using assms(9) j by simp
    also have "\<dots> = m ! (src + (s + j - src) mod off)" 
      using assms(1) [unfolded cyc_def, rule_format, of "s + j"] assms(4,5,7) j by simp
    also have "(s + j - src) mod off = (i - src) mod off"
    proof -
      have "i - src = (s + j - src) + d" using j(2) assms(4,5) by simp
      then show ?thesis using assms(6) by (metis add.right_neutral mod_add_right_eq)
    qed
    finally show ?thesis using low c by simp
  qed
qed

lemma cyc_copy64:
  assumes "cyc m src off q" "0 < off" "src + off \<le> q" "src \<le> s" "s + d = q" "d mod off = 0" "n \<le> d" "n \<le> 8" "q + 8 \<le> length m"
  shows "copy64 m s m q = Some (upd m q (take 8 (drop s m)))" "cyc (upd m q (take 8 (drop s m))) src off (q + n)"
  using assms by (auto simp: mem intro!: cyc_store [where s = s and d = d])

text \<open>What has been copied is the self copy of the format.\<close>

lemma cyc_self_copy:
  assumes "cyc m' src off (src + off + n)" "0 < off" "take (src + off) m' = take (src + off) m" "src + off + n \<le> length m'"
  shows "take (src + off + n) m' = self_copy (take (src + off) m) off n"
proof (rule self_copy_eqI [symmetric])
  have l: "length (take (src + off) m) = src + off" using assms(3,4) by (metis add_leD1 length_take min.absorb2)
  show "off \<le> length (take (src + off) m)" "length (take (src + off + n) m') = length (take (src + off) m) + n"
    "take (length (take (src + off) m)) (take (src + off + n) m') = take (src + off) m"
    using l assms(3,4) by (auto simp: min_def)
  fix i assume "length (take (src + off) m) \<le> i" "i < length (take (src + off + n) m')"
  then have i: "src + off \<le> i" "i < src + off + n" using l by auto
  have "m' ! i = m' ! (src + (i - src) mod off)" using assms(1) i by (simp add: cyc_def)
  also have "(i - src) mod off = (i - off - src) mod off" using i(1) by (metis le_mod_geq diff_commute add_le_imp_le_diff add.commute)
  also have "m' ! (src + (i - off - src) mod off) = m' ! (i - off)"
  proof -
    have "src \<le> i - off \<and> i - off < src + off + n" using i by linarith
    then show ?thesis using assms(1) unfolding cyc_def by simp
  qed
  finally show "take (src + off + n) m' ! i = take (src + off + n) m' ! (i - off)" using i by simp
qed (rule assms(2))

section \<open>Copy routines\<close>

text \<open>What a copy of \<open>n\<close> bytes may do to a buffer: nothing before \<open>op\<close> and nothing from \<open>lim\<close> on.\<close>

definition copied :: "bytes \<Rightarrow> nat \<Rightarrow> nat \<Rightarrow> nat \<Rightarrow> nat \<Rightarrow> bytes \<Rightarrow> bool" where
  "copied m src off q lim m' \<longleftrightarrow>
     length m' = length m \<and> take (src + off) m' = take (src + off) m \<and> drop lim m' = drop lim m \<and> cyc m' src off q"

lemma copied_refl: "0 < off \<Longrightarrow> copied m src off (src + off) lim m"
  by (simp add: copied_def cyc_start)

text \<open>The bytes up to \<open>q\<close> are determined.\<close>

lemma copied_unique:
  assumes a: "copied m src off q lim a" and b: "copied m src off q lim' b" and "0 < off" "src + off \<le> q"
  shows "take q a = take q b"
proof (rule nth_equalityI)
  show "length (take q a) = length (take q b)" using a b by (simp add: copied_def)
  have t: "a ! i = b ! i" if "i < src + off" for i using a b that unfolding copied_def by (metis nth_take)
  fix i assume i: "i < length (take q a)"
  have "src + (i - src) mod off < src + off" using assms(3) by simp
  then have "a ! i = b ! i" if "src \<le> i" using a b i that t unfolding copied_def cyc_def by auto
  then show "take q a ! i = take q b ! i" using i t [of i] by (cases "src \<le> i") auto
qed

lemma upd_frame:
  assumes "q + length bs \<le> length m"
  shows "n \<le> q \<Longrightarrow> take n (upd m q bs) = take n m" "q + length bs \<le> n \<Longrightarrow> drop n (upd m q bs) = drop n m"
  using assms by (auto simp: upd_def)

lemma copied_store:
  assumes "copied m src off q lim m1" "0 < off" "src + off \<le> q" "src \<le> s" "s + d = q" "d mod off = 0" "n \<le> d" "n \<le> length bs"
    "\<And>i. i < n \<Longrightarrow> bs ! i = m1 ! (s + i)" "q + length bs \<le> lim" "lim \<le> length m"
  shows "copied m src off (q + n) lim (upd m1 q bs)"
  using assms cyc_store [of m1 src off q s d n bs] upd_frame [of q bs m1] by (simp add: copied_def mem)

lemma copied_copy64:
  assumes "copied m src off q lim m1" "0 < off" "src + off \<le> q" "src \<le> s" "s + d = q" "d mod off = 0" "n \<le> d" "n \<le> 8"
    "q + 8 \<le> lim" "lim \<le> length m"
  obtains m2 where "copy64 m1 s m1 q = Some m2" "copied m src off (q + n) lim m2"
proof
  have l: "length m1 = length m" using assms(1) by (simp add: copied_def)
  show "copy64 m1 s m1 q = Some (upd m1 q (take 8 (drop s m1)))" using assms l by (simp add: mem)
  show "copied m src off (q + n) lim (upd m1 q (take 8 (drop s m1)))"
    by (rule copied_store [OF assms(1-7)]) (use assms l in auto)
qed

lemma incremental_copy_ok:
  assumes "copied m src off q lim m1" "0 < off" "src + off \<le> q" "s + off = q" "0 < n" "q + n \<le> lim" "lim \<le> length m"
  shows "\<exists>m'. incremental_copy m1 s q n = Some m' \<and> copied m src off (q + n) lim m'"
  using assms
proof (induction n arbitrary: s q m1)
  case (Suc n)
  have l: "length m1 = length m" using Suc.prems(1) by (simp add: copied_def)
  let ?m = "upd m1 q [m1 ! s]"
  have c: "copied m src off (q + 1) lim ?m"
    by (rule copied_store [where s = s and d = off]) (use Suc.prems in auto)
  have "incremental_copy m1 s q (Suc n) = (if n = 0 then Some ?m else incremental_copy ?m (s + 1) (q + 1) n)"
    using Suc.prems l by (simp add: mem)
  then show ?case using c Suc.IH [OF c, of "s + 1"] Suc.prems by (cases "n = 0") auto
qed simp

lemma icf_copy_ok:
  assumes "copied m src off q lim m1" "0 < off" "src + off \<le> q" "src \<le> s" "s + d = q" "d mod off = 0" "8 \<le> d"
    "int q + len + 7 \<le> int lim" "lim \<le> length m"
  shows "\<exists>m' q'. icf_copy m1 s q len = Some m' \<and> copied m src off q' lim m' \<and> int q + len \<le> int q'"
  using assms
proof (induction "nat len" arbitrary: m1 s q len rule: less_induct)
  case less
  show ?case
  proof (cases "len > 0")
    case True
    obtain m2 where m2: "copy64 m1 s m1 q = Some m2" "copied m src off (q + 8) lim m2"
      by (rule copied_copy64 [OF less.prems(1-6), of 8]) (use less.prems True in auto)
    have "\<exists>m' q'. icf_copy m2 (s + 8) (q + 8) (len - 8) = Some m' \<and> copied m src off q' lim m' \<and> int (q + 8) + (len - 8) \<le> int q'"
      by (rule less.hyps [OF _ m2(2)]) (use less.prems True in auto)
    then show ?thesis using True m2(1) by (subst icf_copy.simps) simp
  next
    case False
    then show ?thesis using less.prems by (subst icf_copy.simps) auto
  qed
qed

lemma icf_expand_ok:
  assumes "copied m src off q lim m1" "0 < off" "src + d = q" "d = off \<or> d = 2 * off \<or> d = 4 * off \<or> 8 * off \<le> d" "d mod off = 0"
    "src + off + 11 \<le> lim" "lim \<le> length m"
  shows "\<exists>m' q' d'. icf_expand m1 src q len = Some (m', q', len - int (q' - q)) \<and> copied m src off q' lim m' \<and> q \<le> q' \<and>
    src + d' = q' \<and> d' mod off = 0 \<and> 8 \<le> d'"
  using assms(1,3-5)
proof (induction "8 - d" arbitrary: m1 q d len rule: less_induct)
  case less
  show ?case
  proof (cases "d < 8")
    case True
    have d: "off \<le> d" using less.prems(3) by auto
    have q8: "q + 8 \<le> lim" using True less.prems(2,3) assms(2,6) by auto
    obtain m2 where m2: "copy64 m1 src m1 q = Some m2" "copied m src off (q + d) lim m2"
      by (rule copied_copy64 [OF less.prems(1) assms(2), of src d d]) (use less.prems True d q8 assms(7) in auto)
    have dd: "(d + d) mod off = 0" using less.prems(4) by (metis add_0 mod_0 mod_add_eq)
    have "\<exists>m' q' d'. icf_expand m2 src (q + d) (len - int d) = Some (m', q', len - int d - int (q' - (q + d))) \<and>
        copied m src off q' lim m' \<and> q + d \<le> q' \<and> src + d' = q' \<and> d' mod off = 0 \<and> 8 \<le> d'"
      by (rule less.hyps [OF _ m2(2), of "d + d"]) (use True d assms(2) less.prems(2,3) dd in auto)
    then obtain m' q' d' where *: "icf_expand m2 src (q + d) (len - int d) = Some (m', q', len - int d - int (q' - (q + d)))"
      "copied m src off q' lim m'" "q + d \<le> q'" "src + d' = q'" "d' mod off = 0" "8 \<le> d'" by metis
    have "icf_expand m1 src q len = icf_expand m2 src (q + d) (len - int d)"
      using True m2(1) less.prems(2) by (subst icf_expand.simps) (auto simp: ac_simps)
    then show ?thesis using * by (intro exI [of _ m'] exI [of _ q'] exI [of _ d']) auto
  next
    case False
    then show ?thesis using less.prems by (subst icf_expand.simps) auto
  qed
qed

lemma incremental_copy_fast_path_ok:
  assumes "0 < off" "0 < n" "src + off + n + 10 \<le> lim" "lim \<le> length m"
  shows "\<exists>m'. incremental_copy_fast_path m src (src + off) (int n) = Some m' \<and> copied m src off (src + off + n) lim m'"
proof -
  obtain m1 q d where 1: "icf_expand m src (src + off) (int n) = Some (m1, q, int n - int (q - (src + off)))"
    "copied m src off q lim m1" "src + off \<le> q" "src + d = q" "d mod off = 0" "8 \<le> d"
    using icf_expand_ok [OF copied_refl [OF assms(1)] assms(1), of src off lim m "int n"] assms by fastforce
  have e: "int q + (int n - int (q - (src + off))) = int (src + off + n)" using 1(3) by simp
  obtain m' q' where 2: "icf_copy m1 src q (int n - int (q - (src + off))) = Some m'" "copied m src off q' lim m'"
    "int q + (int n - int (q - (src + off))) \<le> int q'"
    using icf_copy_ok [OF 1(2) assms(1) 1(3) order_refl 1(4-6), of "int n - int (q - (src + off))"] e assms(3,4) by auto
  then have "src + off + n \<le> q'" unfolding e by simp
  then show ?thesis using 1(1) 2(1,2) cyc_less by (auto simp: incremental_copy_fast_path_def copied_def)
qed

section \<open>The writer\<close>

definition w_out :: "writer \<Rightarrow> bytes" where
  "w_out w = take (w_op w) (w_buf w)"

text \<open>The buffer holds the announced length; what lies behind it stays as it was.\<close>

definition w_ok :: "nat \<Rightarrow> bytes \<Rightarrow> writer \<Rightarrow> bool" where
  "w_ok lim rest w \<longleftrightarrow> w_op_limit w = lim \<and> w_op w \<le> lim \<and> lim \<le> length (w_buf w) \<and> lim < 2 ^ 32 \<and> drop lim (w_buf w) = rest"

lemma length_w_out: "w_ok lim rest w \<Longrightarrow> length (w_out w) = w_op w"
  by (simp add: w_ok_def w_out_def)

lemma unat_space_left: "w_ok lim rest w \<Longrightarrow> unat (space_left w) = lim - w_op w"
proof -
  assume w: "w_ok lim rest w"
  then have "space_left w = of_nat (lim - w_op w)" by (simp add: w_ok_def space_left_def of_nat_diff)
  moreover have "lim - w_op w < 2 ^ 32" using w by (auto simp: w_ok_def)
  ultimately show ?thesis by (simp only: unat_of_nat) simp
qed

lemma sint_space_left:
  assumes "w_ok lim rest w" "16 \<le> sint (space_left w)"
  shows "w_op w + 16 \<le> lim"
proof -
  have "sint (space_left w) \<le> uint (space_left w)"
    by (simp add: sint_uint signed_take_bit_int_less_eq_self_iff order_trans [OF _ unsigned_greater_eq])
  then show ?thesis using assms(2) unat_space_left [OF assms(1)] by (simp add: uint_nat)
qed

text \<open>A store of at least the emitted bytes, inside of the announced length.\<close>

lemma w_ok_store:
  assumes "w_ok lim rest w" "w_op w + length bs \<le> lim" "n \<le> length bs"
  shows "w_ok lim rest (w\<lparr>w_buf := upd (w_buf w) (w_op w) bs, w_op := w_op w + n\<rparr>)"
    "w_out (w\<lparr>w_buf := upd (w_buf w) (w_op w) bs, w_op := w_op w + n\<rparr>) = w_out w @ take n bs"
  using assms upd_frame(2) [of "w_op w" bs "w_buf w" lim] by (auto simp: w_ok_def w_out_def mem upd_def)

lemma writer_append_ok:
  assumes "w_ok lim rest w" "unat len \<le> length ip"
  shows "\<exists>w'. writer_append w ip len = Some (w_op w + unat len \<le> lim, w') \<and> w_ok lim rest w' \<and>
    (w_op w + unat len \<le> lim \<longrightarrow> w_out w' = w_out w @ take (unat len) ip)"
proof -
  have s: "space_left w < len \<longleftrightarrow> \<not> w_op w + unat len \<le> lim"
    using unat_space_left [OF assms(1)] assms(1) by (auto simp: word_less_nat_alt w_ok_def)
  have l: "length (take (unat len) ip) = unat len" using assms(2) by simp
  show ?thesis
    using s l w_ok_store [OF assms(1), of "take (unat len) ip" "unat len"] assms
    by (cases "w_op w + unat len \<le> lim") (auto simp: writer_append_def mem w_ok_def)
qed

lemma writer_try_fast_append_ok:
  assumes "w_ok lim rest w" "unat available \<le> length ip"
  obtains w' where "writer_try_fast_append w ip available len = Some (True, w')" "w_ok lim rest w'"
      "w_out w' = w_out w @ take (unat len) ip" "unat len \<le> 16" "16 \<le> unat available" "w_op w + 16 \<le> lim"
    | "writer_try_fast_append w ip available len = Some (False, w)"
proof (cases "len \<le> 16 \<and> available \<ge> 16 \<and> 16 \<le> sint (space_left w)")
  case True
  then have h: "unat len \<le> 16" "16 \<le> unat available" "w_op w + 16 \<le> lim"
    using sint_space_left [OF assms(1)] by (auto simp: word_le_nat_alt)
  let ?w = "w\<lparr>w_buf := upd (w_buf w) (w_op w) (take 8 ip), w_op := w_op w + 8\<rparr>"
  let ?w2 = "w\<lparr>w_buf := upd (w_buf ?w) (w_op w + 8) (take 8 (drop 8 ip)), w_op := w_op w + unat len\<rparr>"
  have ab: "length (take 8 ip) = 8" "length (take 8 (drop 8 ip)) = 8" using h(2) assms(2) by auto
  note w1 = w_ok_store [OF assms(1), of "take 8 ip" 8]
  have "take 16 ip = take 8 ip @ take 8 (drop 8 ip)" using take_add [of 8 8 ip] by simp
  then have "upd (w_buf ?w) (w_op w + 8) (take 8 (drop 8 ip)) = upd (w_buf w) (w_op w) (take (8 + 8) ip)"
    using ab h(3) assms by (simp add: upd_def w_ok_def add.commute)
  then have "?w2 = w\<lparr>w_buf := upd (w_buf w) (w_op w) (take (8 + 8) ip), w_op := w_op w + unat len\<rparr>" by simp
  moreover have "writer_try_fast_append w ip available len = Some (True, ?w2)"
    using True h ab assms by (simp add: writer_try_fast_append_def mem w_ok_def)
  ultimately show thesis using that(1) [of ?w2] h w_ok_store [OF assms(1), of "take (8 + 8) ip" "unat len"] assms(2)
    by (simp add: min_def)
qed (use that(2) in \<open>auto simp: writer_try_fast_append_def\<close>)

lemma w_ok_copied:
  assumes "w_ok lim rest w" "copied (w_buf w) src off (src + off + n) lim m'" "0 < off" "w_op w = src + off" "w_op w + n \<le> lim"
  shows "w_ok lim rest (w\<lparr>w_buf := m', w_op := w_op w + n\<rparr>)"
    "w_out (w\<lparr>w_buf := m', w_op := w_op w + n\<rparr>) = self_copy (w_out w) off n"
  using assms cyc_self_copy [of m' src off n "w_buf w"] by (auto simp: copied_def w_ok_def w_out_def)

lemma copied_16:
  assumes "8 \<le> off" "src + off + 16 \<le> lim" "lim \<le> length m"
  obtains m1 m2 where "copy64 m src m (src + off) = Some m1" "copy64 m1 (src + 8) m1 (src + off + 8) = Some m2"
    "copied m src off (src + off + 16) lim m2"
proof -
  have o: "0 < off" using assms(1) by simp
  obtain m1 where 1: "copy64 m src m (src + off) = Some m1" "copied m src off (src + off + 8) lim m1"
    by (rule copied_copy64 [OF copied_refl [OF o] o, where s = src and d = off and n = 8]) (use assms in auto)
  obtain m2 where 2: "copy64 m1 (src + 8) m1 (src + off + 8) = Some m2" "copied m src off (src + off + 8 + 8) lim m2"
    by (rule copied_copy64 [OF 1(2) o, where s = "src + 8" and d = off and n = 8]) (use assms in auto)
  then show thesis using that 1(1) by (simp add: add.assoc)
qed

lemma copied_less: "copied m src off q lim m' \<Longrightarrow> q' \<le> q \<Longrightarrow> copied m src off q' lim m'"
  unfolding copied_def using cyc_less by blast

lemma writer_append_from_self_ok:
  fixes offset len :: u32
  assumes w: "w_ok lim rest w" and len: "0 < unat len" "unat len \<le> 64"
  defines "ok \<equiv> offset \<noteq> 0 \<and> unat offset \<le> w_op w \<and> w_op w + unat len \<le> lim"
  shows "\<exists>w'. writer_append_from_self w offset len = Some (ok, w') \<and> w_ok lim rest w' \<and>
    (ok \<longrightarrow> w_out w' = self_copy (w_out w) (unat offset) (unat len))"
proof -
  let ?op = "w_op w" and ?m = "w_buf w" and ?off = "unat offset" and ?n = "unat len"
  let ?src = "?op - ?off"
  have lim: "?op \<le> lim" "lim \<le> length ?m" "lim < 2 ^ 32" using w by (auto simp: w_ok_def)
  have far: "?op \<le> unat (offset - 1) \<longleftrightarrow> offset = 0 \<or> ?op < ?off"
  proof (cases "offset = 0")
    case False
    then have "unat (offset - 1) = ?off - 1" "0 < ?off" by (auto simp: unat_minus_one unat_gt_0)
    then show ?thesis using False by auto
  qed (use lim in \<open>simp add: unsigned_minus_1_eq_mask mask_eq_exp_minus_1\<close>)
  have len10: "unat (len + kmax_increment_copy_overflow) = ?n + 10"
    using len by (simp add: kmax_increment_copy_overflow_def unat_word_ariths)
  have space: "len + kmax_increment_copy_overflow \<le> space_left w \<longleftrightarrow> ?op + ?n + 10 \<le> lim" "space_left w < len \<longleftrightarrow> lim < ?op + ?n"
    unfolding word_le_nat_alt word_less_nat_alt unat_space_left [OF w] len10 using lim(1) by linarith+
  have "uint len \<le> 64" using len(2) by (metis of_nat_le_iff of_nat_numeral of_nat_unat)
  then have sl: "sint len = int ?n" by (simp add: sint_uint signed_take_bit_int_eq_self order_trans [OF _ unsigned_greater_eq])
  note def = writer_append_from_self_def Let_def far space sl
  consider "offset = 0 \<or> ?op < ?off"
    | (near) "offset \<noteq> 0" "?off \<le> ?op" "len \<le> 16 \<and> offset \<ge> 8 \<and> 16 \<le> sint (space_left w)"
    | (fast) "offset \<noteq> 0" "?off \<le> ?op" "\<not> (len \<le> 16 \<and> offset \<ge> 8 \<and> 16 \<le> sint (space_left w))" "?op + ?n + 10 \<le> lim"
    | (slow) "offset \<noteq> 0" "?off \<le> ?op" "\<not> (len \<le> 16 \<and> offset \<ge> 8 \<and> 16 \<le> sint (space_left w))" "\<not> ?op + ?n + 10 \<le> lim"
    by (metis not_less)
  then show ?thesis
  proof cases
    case 1
    then show ?thesis using w by (auto simp: def ok_def)
  next
    case near
    then have h: "?n \<le> 16" "8 \<le> ?off" "?op + 16 \<le> lim" "?src + ?off = ?op"
      using sint_space_left [OF w] by (auto simp: word_le_nat_alt)
    obtain m1 m2 where m2: "copy64 ?m ?src ?m ?op = Some m1" "copy64 m1 (?src + 8) m1 (?op + 8) = Some m2"
      "copied ?m ?src ?off (?op + 16) lim m2"
      using copied_16 [OF h(2), of ?src lim ?m] h lim by metis
    have "copied ?m ?src ?off (?src + ?off + ?n) lim m2" using copied_less [OF m2(3), of "?op + ?n"] h by simp
    from w_ok_copied [OF w this] show ?thesis using near h m2(1,2) by (simp add: def ok_def)
  next
    case fast
    have "\<exists>m'. incremental_copy_fast_path ?m ?src (?src + ?off) (int ?n) = Some m' \<and> copied ?m ?src ?off (?src + ?off + ?n) lim m'"
      by (rule incremental_copy_fast_path_ok) (use fast len lim in \<open>auto simp: unat_gt_0\<close>)
    then show ?thesis using fast w_ok_copied [OF w, of ?src ?off ?n] by (auto simp: def ok_def unat_gt_0)
  next
    case slow
    show ?thesis
    proof (cases "?op + ?n \<le> lim")
      case True
      have o: "0 < ?off" using slow(1) by (simp add: unat_gt_0)
      have "\<exists>m'. incremental_copy ?m ?src (?src + ?off) ?n = Some m' \<and> copied ?m ?src ?off (?src + ?off + ?n) lim m'"
        by (rule incremental_copy_ok [OF copied_refl [OF o] o]) (use slow len lim True in auto)
      then show ?thesis using slow True w_ok_copied [OF w, of ?src ?off ?n] o by (auto simp: def ok_def)
    next
      case False
      then show ?thesis using slow w by (auto simp: def ok_def)
    qed
  qed
qed

section \<open>Tags\<close>

text \<open>The fields of a tag byte, and the table that holds them.\<close>

definition tag_extra :: "nat \<Rightarrow> nat" where
  "tag_extra t = (if t mod 4 = 0 then t div 4 - 59 else if t mod 4 = 1 then 1 else if t mod 4 = 2 then 2 else 4)"

definition tag_len :: "nat \<Rightarrow> nat" where
  "tag_len t = (if t mod 4 = 1 then 4 + t div 4 mod 8 else t div 4 + 1)"

definition tag_high :: "nat \<Rightarrow> nat" where
  "tag_high t = (if t mod 4 = 1 then t div 4 div 8 else 0)"

text \<open>The check of the table is done on integers, which evaluate faster.\<close>

definition entry_ok :: "int \<Rightarrow> u32 \<Rightarrow> bool" where
  "entry_ok i e \<longleftrightarrow>
     uint (drop_bit 11 e) =
       (if i mod 4 = 0 then (if i div 4 < 59 then 0 else i div 4 - 59) else if i mod 4 = 1 then 1 else if i mod 4 = 2 then 2 else 4) \<and>
     ((of_int i :: u8) AND 3 = 0) = (i mod 4 = 0) \<and> drop_bit 2 (of_int i :: u8) = of_int (i div 4) \<and>
     (i mod 4 \<noteq> 0 \<longrightarrow>
        uint (e AND 0xff) = (if i mod 4 = 1 then 4 + i div 4 mod 8 else i div 4 + 1) \<and>
        uint (e AND 0x700) = 256 * (if i mod 4 = 1 then i div 4 div 8 else 0))"

lemma entries_ok: "length char_table = 256" "list_all (\<lambda>(i, e). entry_ok i (ucast e)) (zip [0..255] char_table)"
  by (simp add: char_table_def) code_simp

lemma tag_ints:
  "int (tag_extra t) = (if int t mod 4 = 0 then (if int t div 4 < 59 then 0 else int t div 4 - 59)
     else if int t mod 4 = 1 then 1 else if int t mod 4 = 2 then 2 else 4)"
  "int (tag_len t) = (if int t mod 4 = 1 then 4 + int t div 4 mod 8 else int t div 4 + 1)"
  "int (tag_high t) = (if int t mod 4 = 1 then int t div 4 div 8 else 0)"
  "int t mod 4 = 0 \<longleftrightarrow> t mod 4 = 0"
proof -
  have m: "int t mod 4 = int (t mod 4)" "int t div 4 = int (t div 4)" "int (t div 4) mod 8 = int (t div 4 mod 8)"
    "int (t div 4) div 8 = int (t div 4 div 8)" by (simp_all add: zmod_int zdiv_int)
  show "int (tag_len t) = (if int t mod 4 = 1 then 4 + int t div 4 mod 8 else int t div 4 + 1)"
    "int (tag_high t) = (if int t mod 4 = 1 then int t div 4 div 8 else 0)" "int t mod 4 = 0 \<longleftrightarrow> t mod 4 = 0"
    unfolding m tag_len_def tag_high_def by auto
  show "int (tag_extra t) = (if int t mod 4 = 0 then (if int t div 4 < 59 then 0 else int t div 4 - 59)
     else if int t mod 4 = 1 then 1 else if int t mod 4 = 2 then 2 else 4)"
    unfolding m tag_extra_def by auto
qed

lemma entry_fields:
  fixes c :: u8
  defines "t \<equiv> unat c" and "e \<equiv> table_entry c"
  shows "unat (drop_bit 11 e) = tag_extra t" "c AND 3 = 0 \<longleftrightarrow> t mod 4 = 0" "drop_bit 2 c = of_nat (t div 4)"
    "t mod 4 \<noteq> 0 \<Longrightarrow> unat (e AND 0xff) = tag_len t" "t mod 4 \<noteq> 0 \<Longrightarrow> e AND 0x700 = of_nat (256 * tag_high t)"
proof -
  have t: "t < 256" "of_int (int t) = c" using unsigned_less [of c, where 'a = nat] by (simp_all add: t_def)
  have "zip [0..255] char_table ! t = (int t, char_table ! t)" "t < length (zip [0..255] char_table)"
    using t(1) entries_ok(1) by simp_all
  then have "(int t, char_table ! t) \<in> set (zip [0..255] char_table)" by (metis nth_mem)
  then have ok: "entry_ok (int t) e" using entries_ok(2) by (auto simp: list_all_iff e_def table_entry_def t_def)
  have n: "uint w = int k \<Longrightarrow> unat w = k" for w :: u32 and k by (metis of_nat_eq_iff of_nat_unat)
  show "unat (drop_bit 11 e) = tag_extra t" by (rule n) (use ok in \<open>simp only: entry_ok_def tag_ints(1)\<close>)
  show "c AND 3 = 0 \<longleftrightarrow> t mod 4 = 0" using ok unfolding entry_ok_def t(2) tag_ints(4) by (elim conjE)
  have d: "int t div 4 = int (t div 4)" by (simp add: zdiv_int)
  have "drop_bit 2 c = of_int (int t div 4)" using ok unfolding entry_ok_def t(2) by (elim conjE)
  then show "drop_bit 2 c = of_nat (t div 4)" unfolding d of_int_of_nat_eq .
  assume "t mod 4 \<noteq> 0"
  then have h: "uint (e AND 0xff) = int (tag_len t)" "uint (e AND 0x700) = 256 * int (tag_high t)"
    using ok unfolding entry_ok_def tag_ints(2-4) by simp_all
  show "unat (e AND 0xff) = tag_len t" by (rule n [OF h(1)])
  have "unat (e AND 0x700) = 256 * tag_high t" by (rule n) (use h(2) in simp)
  from arg_cong [OF this, of "of_nat :: nat \<Rightarrow> u32"] show "e AND 0x700 = of_nat (256 * tag_high t)" by simp
qed

lemma tag_small: "tag_extra (unat c) \<le> 4" "0 < tag_len (unat c)" "tag_len (unat c) \<le> 64" for c :: u8
proof -
  have "unat c div 4 < 64" using unsigned_less [of c, where 'a = nat] by auto
  then show "tag_extra (unat c) \<le> 4" "0 < tag_len (unat c)" "tag_len (unat c) \<le> 64"
    by (auto simp: tag_extra_def tag_len_def)
qed

lemma parse_elem_tag:
  "parse_elem c bs =
     (if unat c mod 4 = 0 then parse_lit (unat c div 4) bs
      else parse_copy (tag_extra (unat c)) (tag_len (unat c)) (tag_high (unat c)) bs)"
  by (auto simp: parse_elem_def tag_extra_def tag_len_def tag_high_def Let_def)

lemma parse_elem_short: "length bs < tag_extra (unat c) \<Longrightarrow> parse_elem c bs = None"
  by (auto simp: parse_elem_tag parse_lit_def parse_copy_def tag_extra_def Let_def split: if_splits)

text \<open>The masks of the trailing bytes.\<close>

lemma masked_word:
  assumes "k \<le> 4" "4 \<le> length ip"
  shows "le_word (take 4 ip) AND wordmask ! k = (le_word (take k ip) :: u32)"
proof -
  have "wordmask ! k = (mask (8 * k) :: u32)"
    using assms(1) by (auto simp: wordmask_def mask_eq_exp_minus_1 le_Suc_eq numeral_eq_Suc)
  then have "le_word (take 4 ip) AND wordmask ! k = take_bit (8 * k) (le_word (take 4 ip) :: u32)" by (simp add: take_bit_eq_mask)
  also have "\<dots> = le_word (take k (take 4 ip))" using assms(1) by (intro le_word_take_mask) simp
  finally show ?thesis using assms(1) by (simp add: min_def)
qed

section \<open>The state of the decompressor\<close>

text \<open>Where the bytes that are left come from: the reader before the first fragment was fetched, the
  fragment, or the scratch buffer.\<close>

definition fresh :: "snappy_decompressor \<Rightarrow> bytes \<Rightarrow> bool" where
  "fresh d bs \<longleftrightarrow> d_left d = 0 \<and> peeked d = 0 \<and> bs = reader d"

definition in_fragment :: "snappy_decompressor \<Rightarrow> bytes \<Rightarrow> bool" where
  "in_fragment d bs \<longleftrightarrow>
     d_ip d = bs \<and> d_left d = length bs \<and> peeked d = of_nat (length (reader d)) \<and> length bs \<le> length (reader d)"

definition in_scratch :: "snappy_decompressor \<Rightarrow> bytes \<Rightarrow> bool" where
  "in_scratch d bs \<longleftrightarrow>
     reader d = [] \<and> peeked d = 0 \<and> d_left d \<le> length (d_ip d) \<and> bs = take (d_left d) (d_ip d) \<and> length (d_ip d) \<le> 5"

definition left_ok :: "snappy_decompressor \<Rightarrow> bool" where
  "left_ok d \<longleftrightarrow> length (reader d) < 2 ^ 32 \<and> length (d_scratch d) = 5 \<and> \<not> eof d"

definition d_inv :: "snappy_decompressor \<Rightarrow> bytes \<Rightarrow> bool" where
  "d_inv d bs \<longleftrightarrow> left_ok d \<and> (in_fragment d bs \<or> in_scratch d bs)"

text \<open>The final skip stays inside of the input.\<close>

definition exit_ok :: "snappy_decompressor \<Rightarrow> bool" where
  "exit_ok d \<longleftrightarrow> unat (peeked d) \<le> length (reader d)"

lemma unat_small: "n < 2 ^ 32 \<Longrightarrow> unat (of_nat n :: u32) = n"
  by (simp add: unat_of_nat)

lemma d_inv_left:
  assumes "d_inv d bs"
  shows "d_left d = length bs" "take (length bs) (d_ip d) = bs" "length bs \<le> length (d_ip d)" "length bs < 2 ^ 32" "exit_ok d" "\<not> eof d"
    "unat (of_nat (d_left d) :: u32) = length bs"
proof -
  show l: "d_left d = length bs" "take (length bs) (d_ip d) = bs" "length bs \<le> length (d_ip d)" "length bs < 2 ^ 32"
    "\<not> eof d" using assms by (auto simp: d_inv_def left_ok_def in_fragment_def in_scratch_def min_def)
  show "exit_ok d" using assms by (auto simp: d_inv_def left_ok_def in_fragment_def in_scratch_def exit_ok_def unat_small)
  show "unat (of_nat (d_left d) :: u32) = length bs" using l(1,4) by (simp add: unat_small)
qed

lemma fetch_ok:
  assumes "left_ok d" "fresh d bs \<or> in_fragment d [] \<and> bs = [] \<or> in_scratch d [] \<and> bs = []"
  obtains d' where "fetch d = Some d'" "d_inv d' bs" "in_fragment d' bs" "exit_ok d'"
proof -
  have s: "skip (reader d) (unat (peeked d)) = Some bs"
    using assms by (auto simp: left_ok_def fresh_def in_fragment_def in_scratch_def skip_def unat_small)
  have l: "length bs < 2 ^ 32" using assms by (auto simp: left_ok_def fresh_def)
  show thesis using that s l assms(1)
    by (auto simp: fetch_def d_inv_def left_ok_def in_fragment_def exit_ok_def unat_small)
qed

lemma to_scratch_ok:
  assumes "d_inv d bs" "length bs < 5"
  obtains d' where "to_scratch (length bs) d = Some d'" "left_ok d'" "reader d' = []" "peeked d' = 0"
    "take (length bs) (d_scratch d') = bs"
proof -
  have s: "skip (reader d) (unat (peeked d)) = Some []"
    using assms(1) by (auto simp: d_inv_def left_ok_def in_fragment_def in_scratch_def skip_def unat_small)
  have l: "load_bytes (d_ip d) 0 (length bs) = Some bs" using d_inv_left [OF assms(1)] by (simp add: mem)
  have sc: "length (d_scratch d) = 5" "\<not> eof d" using assms(1) by (auto simp: d_inv_def left_ok_def)
  have "take (length bs) (upd (d_scratch d) 0 bs) = bs" using take_upd [of 0 "d_scratch d" bs] by simp
  then show thesis using that s l sc assms(2) by (simp add: to_scratch_def mem left_ok_def)
qed

text \<open>After a successful refill the tag and its trailing bytes can be read.\<close>

definition ready :: "snappy_decompressor \<Rightarrow> u8 \<Rightarrow> bytes \<Rightarrow> bool" where
  "ready d c bs \<longleftrightarrow> d_inv d (c # bs) \<and> 5 \<le> length (d_ip d) \<and> tag_extra (unat c) \<le> length bs"

lemma refill_tag_more:
  assumes "d_inv d (c # bs)"
  shows "\<exists>d'. refill_tag d = Some (tag_extra (unat c) \<le> length bs, d') \<and>
    exit_ok d' \<and> \<not> eof d' \<and> (tag_extra (unat c) \<le> length bs \<longrightarrow> ready d' c bs)"
proof -
  note i = d_inv_left [OF assms]
  have e: "tag_extra (unat c) \<le> 4" by (rule tag_small)
  have c: "load8 (d_ip d) 0 = Some c" using i(2,3) by (cases "d_ip d") (auto simp: load8_def)
  note head = refill_tag_def Let_def stitch.simps entry_fields(1) [of c] c
  show ?thesis
  proof (cases "length (c # bs) < 5")
    case False
    then show ?thesis using assms i e by (auto simp: ready_def head)
  next
    case True
    obtain d' where d': "to_scratch (length (c # bs)) d = Some d'" "left_ok d'" "reader d' = []" "peeked d' = 0"
      "take (length (c # bs)) (d_scratch d') = c # bs" using to_scratch_ok [OF assms True] by metis
    have ex: "exit_ok d'" "\<not> eof d'" using d'(2-4) by (auto simp: exit_ok_def left_ok_def)
    have step: "refill_tag d = (if tag_extra (unat c) \<le> length bs
        then Some (True, d'\<lparr>d_ip := d_scratch d', d_left := length (c # bs)\<rparr>) else Some (False, d'))"
      using i e d'(1,3) True by (simp add: head)
    have "ready (d'\<lparr>d_ip := d_scratch d', d_left := length (c # bs)\<rparr>) c bs" if "tag_extra (unat c) \<le> length bs"
      using that d'(2-5) True by (auto simp: ready_def d_inv_def left_ok_def in_scratch_def)
    then show ?thesis using step ex by (auto simp: exit_ok_def)
  qed
qed

definition d_any :: "snappy_decompressor \<Rightarrow> bytes \<Rightarrow> bool" where
  "d_any d bs \<longleftrightarrow> d_inv d bs \<or> left_ok d \<and> fresh d bs"

lemma maybe_refill_end:
  assumes "d_any d []"
  shows "\<exists>d'. maybe_refill d = Some (False, d') \<and> exit_ok d' \<and> eof d'"
proof -
  have l: "d_left d = 0" using assms d_inv_left(1) [of d "[]"] by (auto simp: d_any_def fresh_def)
  obtain d' where "fetch d = Some d'" "d_inv d' []" "exit_ok d'"
    using fetch_ok [of d "[]"] assms by (auto simp: d_any_def d_inv_def)
  then show ?thesis using l d_inv_left(1) [of d' "[]"] by (auto simp: maybe_refill_def refill_tag_def exit_ok_def)
qed

lemma maybe_refill_more:
  assumes "d_any d (c # bs)"
  shows "\<exists>d'. maybe_refill d = Some (tag_extra (unat c) \<le> length bs, d') \<and>
    exit_ok d' \<and> \<not> eof d' \<and> (tag_extra (unat c) \<le> length bs \<longrightarrow> ready d' c bs)"
proof (cases "d_inv d (c # bs)")
  case True
  note i = d_inv_left [OF True]
  show ?thesis
  proof (cases "length (c # bs) < 5")
    case True
    then show ?thesis using refill_tag_more [OF \<open>d_inv d (c # bs)\<close>] i(1) by (simp add: maybe_refill_def)
  next
    case False
    then show ?thesis using i tag_small(1) [of c] \<open>d_inv d (c # bs)\<close> by (auto simp: maybe_refill_def ready_def)
  qed
next
  case False
  then have f: "left_ok d" "fresh d (c # bs)" using assms by (auto simp: d_any_def)
  obtain d1 where d1: "fetch d = Some d1" "d_inv d1 (c # bs)" using fetch_ok [OF f(1)] f(2) by metis
  have "maybe_refill d = refill_tag d1"
    using d1 d_inv_left(1) [OF d1(2)] f(2) by (simp add: maybe_refill_def refill_tag_def fresh_def)
  then show ?thesis using refill_tag_more [OF d1(2)] by simp
qed

section \<open>Elements\<close>

text \<open>One element by the format.\<close>

definition elem_step :: "nat \<Rightarrow> bytes \<Rightarrow> u8 \<Rightarrow> bytes \<Rightarrow> (bytes \<times> bytes) option" where
  "elem_step lim out c bs =
     (case parse_elem c bs of None \<Rightarrow> None | Some (e, rest) \<Rightarrow> map_option (\<lambda>out. (out, rest)) (apply_elem lim out e))"

lemma decode_step:
  "decode lim out (c # bs) = (case elem_step lim out c bs of None \<Rightarrow> None | Some (out, rest) \<Rightarrow> decode lim out rest)"
  by (auto simp: elem_step_def decode.simps(2) split: option.splits)

declare decode.simps(2) [simp del] decompress_tags.simps(2) [simp del]

lemma advance_ok:
  assumes "d_inv d bs" "n \<le> length bs"
  obtains d' where "advance n d = Some d'" "d_inv d' (drop n bs)" "d_ip d' = drop n (d_ip d)"
proof
  let ?d = "d\<lparr>d_ip := drop n (d_ip d), d_left := d_left d - n\<rparr>"
  show "advance n d = Some ?d" using assms(2) d_inv_left(1) [OF assms(1)] by (simp add: advance_def)
  have "in_fragment d bs \<Longrightarrow> in_fragment ?d (drop n bs)" by (auto simp: in_fragment_def)
  moreover have "in_scratch d bs \<Longrightarrow> in_scratch ?d (drop n bs)" by (auto simp: in_scratch_def drop_take)
  ultimately show "d_inv ?d (drop n bs)" using assms(1) by (auto simp: d_inv_def left_ok_def)
qed simp

text \<open>What a step of the code does.\<close>

definition implements :: "nat \<Rightarrow> bytes \<Rightarrow> bytes \<Rightarrow> u8 \<Rightarrow> bytes \<Rightarrow> (bool \<times> snappy_decompressor \<times> writer) option \<Rightarrow> bool" where
  "implements lim tail out c bs r \<longleftrightarrow>
     (\<exists>ok d w. r = Some (ok, d, w) \<and> w_ok lim tail w \<and> exit_ok d \<and> \<not> eof d \<and>
        (if ok then \<exists>rest. elem_step lim out c bs = Some (w_out w, rest) \<and> d_inv d rest \<and> length rest \<le> length bs
         else elem_step lim out c bs = None))"

lemma decompress_copy_ok:
  assumes "d_inv d bs" "4 \<le> length (d_ip d)" "tag_extra (unat c) \<le> length bs" "c AND 3 \<noteq> 0" "w_ok lim tail w"
  shows "implements lim tail (w_out w) c bs (decompress_copy c d w)"
proof -
  let ?t = "unat c"
  note i = d_inv_left [OF assms(1)] and e = entry_fields [of c]
  have t: "?t mod 4 \<noteq> 0" using e(2) assms(4) by simp
  have k: "tag_extra ?t \<le> 4" by (rule tag_small)
  have "take (tag_extra ?t) (d_ip d) = take (tag_extra ?t) bs"
    using i(2,3) assms(3) by (metis min.absorb1 take_take)
  then have v: "load32 (d_ip d) 0 = Some (le_word (take 4 (d_ip d)))"
    "le_word (take 4 (d_ip d)) AND wordmask ! tag_extra ?t = (le_word (take (tag_extra ?t) bs) :: u32)"
    using masked_word [OF k assms(2)] assms(2) by (simp_all add: mem)
  obtain d' where d': "advance (tag_extra ?t) d = Some d'" "d_inv d' (drop (tag_extra ?t) bs)"
    using advance_ok [OF assms(1,3)] by metis
  let ?off = "of_nat (256 * tag_high ?t) + le_word (take (tag_extra ?t) bs) :: u32"
  have len: "unat (table_entry c AND 0xff) = tag_len ?t" using e(4) [OF t] .
  obtain w' where w': "writer_append_from_self w ?off (table_entry c AND 0xff) =
      Some (?off \<noteq> 0 \<and> unat ?off \<le> w_op w \<and> w_op w + tag_len ?t \<le> lim, w')" "w_ok lim tail w'"
    "?off \<noteq> 0 \<and> unat ?off \<le> w_op w \<and> w_op w + tag_len ?t \<le> lim \<longrightarrow> w_out w' = self_copy (w_out w) (unat ?off) (tag_len ?t)"
    using writer_append_from_self_ok [OF assms(5), of "table_entry c AND 0xff" ?off] tag_small [of c] len by auto
  have "decompress_copy c d w = Some (?off \<noteq> 0 \<and> unat ?off \<le> w_op w \<and> w_op w + tag_len ?t \<le> lim, d', w')"
    using v d'(1) w'(1) e(1,5) t by (simp add: decompress_copy_def Let_def)
  moreover have "elem_step lim (w_out w) c bs =
    (if ?off \<noteq> 0 \<and> unat ?off \<le> w_op w \<and> w_op w + tag_len ?t \<le> lim
     then Some (self_copy (w_out w) (unat ?off) (tag_len ?t), drop (tag_extra ?t) bs) else None)"
    using t assms(3) length_w_out [OF assms(5)] by (auto simp: elem_step_def parse_elem_tag parse_copy_def unat_eq_0)
  ultimately show ?thesis using w'(2,3) d'(2) d_inv_left(5,6) [OF d'(2)] by (auto simp: implements_def)
qed

lemma literal_loop_enough:
  "\<not> avail < l \<Longrightarrow> literal_loop avail l d w = Some (True, l, d, w)"
  by (subst literal_loop.simps) simp

text \<open>A literal longer than the input: the loop finds no further fragment.\<close>

lemma literal_loop_short:
  assumes "d_inv d bs" "w_ok lim tail w" "length bs < unat l"
  shows "\<exists>l' d' w'. literal_loop (of_nat (d_left d)) l d w = Some (False, l', d', w') \<and> w_ok lim tail w' \<and> exit_ok d' \<and> \<not> eof d'"
proof -
  note i = d_inv_left [OF assms(1)]
  have less: "of_nat (d_left d) < l" using assms(3) i(7) by (simp add: word_less_nat_alt)
  have n: "unat (of_nat (d_left d) :: u32) \<le> length (d_ip d)" using i(3,7) by simp
  obtain w' where w': "writer_append w (d_ip d) (of_nat (d_left d)) = Some (w_op w + length bs \<le> lim, w')" "w_ok lim tail w'"
    using writer_append_ok [OF assms(2) n] i(7) by auto
  have "skip (reader d) (unat (peeked d)) = Some []"
    using assms(1) by (auto simp: d_inv_def left_ok_def in_fragment_def in_scratch_def skip_def unat_small)
  then obtain d' where d': "fetch d = Some d'" "reader d' = []" "peeked d' = 0" "eof d' = eof d" by (simp add: fetch_def)
  show ?thesis using less w' d' i(5,6) by (subst literal_loop.simps) (auto simp: exit_ok_def)
qed

lemma copy_literal_ok:
  assumes "d_inv d bs" "w_ok lim tail w"
  shows "\<exists>d' w'. copy_literal l d w = Some (unat l \<le> length bs \<and> w_op w + unat l \<le> lim, d', w') \<and>
    w_ok lim tail w' \<and> exit_ok d' \<and> \<not> eof d' \<and>
    (unat l \<le> length bs \<and> w_op w + unat l \<le> lim \<longrightarrow> d_inv d' (drop (unat l) bs) \<and> w_out w' = w_out w @ take (unat l) bs)"
proof (cases "unat l \<le> length bs")
  case False
  then show ?thesis using literal_loop_short [OF assms(1,2), of l] by (auto simp: copy_literal_def)
next
  case True
  note i = d_inv_left [OF assms(1)]
  have ll: "literal_loop (of_nat (d_left d)) l d w = Some (True, l, d, w)"
    by (rule literal_loop_enough) (use True i(7) in \<open>simp add: word_less_nat_alt\<close>)
  have n: "unat l \<le> length (d_ip d)" using True i(3) by simp
  obtain w' where w': "writer_append w (d_ip d) l = Some (w_op w + unat l \<le> lim, w')" "w_ok lim tail w'"
    "w_op w + unat l \<le> lim \<longrightarrow> w_out w' = w_out w @ take (unat l) (d_ip d)" using writer_append_ok [OF assms(2) n] by auto
  obtain d' where d': "advance (unat l) d = Some d'" "d_inv d' (drop (unat l) bs)" using advance_ok [OF assms(1) True] by metis
  have "take (unat l) (d_ip d) = take (unat l) bs" using i(2) True by (metis min.absorb1 take_take)
  then show ?thesis using True ll w' d' i(5,6) d_inv_left(5,6) [OF d'(2)] by (auto simp: copy_literal_def)
qed

lemma decompress_literal_ok:
  assumes "d_inv d bs" "4 \<le> length (d_ip d)" "tag_extra (unat c) \<le> length bs" "c AND 3 = 0" "w_ok lim tail w"
  shows "implements lim tail (w_out w) c bs (decompress_literal c d w)"
proof -
  let ?n = "unat c div 4" and ?l = "ucast (drop_bit 2 c) + 1 :: u32"
  note i = d_inv_left [OF assms(1)] and e = entry_fields [of c]
  have t: "unat c mod 4 = 0" using e(2) assms(4) by simp
  have n: "?n < 64" using unsigned_less [of c, where 'a = nat] by auto
  have "unat (drop_bit 2 c) = ?n" using n unfolding e(3) unat_of_nat8 by simp
  then have u: "unat (ucast (drop_bit 2 c) :: u32) = ?n" using n by (simp add: unsigned_ucast_eq take_bit_nat_eq_self)
  have l: "unat ?l = ?n + 1" using n u by (simp add: unat_word_ariths)
  have av: "unat (of_nat (d_left d) :: u32) \<le> length (d_ip d)" using i(3,7) by simp
  have step: "elem_step lim (w_out w) c bs =
    (if length bs < ?n - 59 + lit_len ?n bs \<or> lim < w_op w + lit_len ?n bs then None
     else Some (w_out w @ take (lit_len ?n bs) (drop (?n - 59) bs), drop (?n - 59 + lit_len ?n bs) bs))"
    using t length_w_out [OF assms(5)] by (auto simp: elem_step_def parse_elem_tag parse_lit_def Let_def)
  show ?thesis
    using writer_try_fast_append_ok [OF assms(5) av, of ?l]
  proof cases
    case (1 w')
    then have f: "?n < 16" "16 \<le> length bs" "lit_len ?n bs = ?n + 1" using l i(7) by (auto simp: lit_len_def)
    then have le: "unat ?l \<le> length bs" using l by simp
    obtain d' where d': "advance (unat ?l) d = Some d'" "d_inv d' (drop (unat ?l) bs)" using advance_ok [OF assms(1) le] by metis
    have "take (unat ?l) (d_ip d) = take (unat ?l) bs" using i(2) le by (metis min.absorb1 take_take)
    moreover have "?l < 61" using l f(1) by (simp add: word_less_nat_alt)
    ultimately show ?thesis
      using 1 d' f l step d_inv_left(5,6) [OF d'(2)] by (auto simp: implements_def decompress_literal_def)
  next
    case 2
    show ?thesis
    proof (cases "?n < 60")
      case True
      then have "\<not> 61 \<le> ?l" "lit_len ?n bs = unat ?l" using l by (auto simp: word_le_nat_alt lit_len_def)
      moreover from this have "decompress_literal c d w = copy_literal ?l d w" using 2 by (simp add: decompress_literal_def Let_def)
      ultimately show ?thesis using copy_literal_ok [OF assms(1,5), of ?l] step True
        by (auto simp: implements_def split: if_splits)
    next
      case False
      have k: "unat (?l - 60) = ?n - 59" "tag_extra (unat c) = ?n - 59" "?n - 59 \<le> 4"
        using u False n t by (auto simp: unat_sub_if' tag_extra_def)
      obtain d' where d': "advance (?n - 59) d = Some d'" "d_inv d' (drop (?n - 59) bs)" using advance_ok [OF assms(1)] assms(3) k(2) by metis
      let ?L = "le_word (take (?n - 59) bs) + 1 :: u32"
      have "take (?n - 59) (d_ip d) = take (?n - 59) bs" using i(2,3) assms(3) k(2) by (metis min.absorb1 take_take)
      then have "decompress_literal c d w = copy_literal ?L d' w"
        using 2 l False k masked_word [OF k(3) assms(2)] assms(2) d'(1) by (simp add: decompress_literal_def word_le_nat_alt mem Let_def)
      moreover have L: "lit_len ?n bs = unat ?L" using False by (simp add: lit_len_def)
      have "elem_step lim (w_out w) c bs =
        (if unat ?L \<le> length (drop (?n - 59) bs) \<and> w_op w + unat ?L \<le> lim
         then Some (w_out w @ take (unat ?L) (drop (?n - 59) bs), drop (unat ?L) (drop (?n - 59) bs)) else None)"
        using assms(3) k(2) unfolding step L drop_drop by (simp add: add.commute) linarith
      moreover obtain d2 w2 where "copy_literal ?L d' w = Some (unat ?L \<le> length (drop (?n - 59) bs) \<and> w_op w + unat ?L \<le> lim, d2, w2)"
        "w_ok lim tail w2" "exit_ok d2" "\<not> eof d2" "unat ?L \<le> length (drop (?n - 59) bs) \<and> w_op w + unat ?L \<le> lim \<longrightarrow>
          d_inv d2 (drop (unat ?L) (drop (?n - 59) bs)) \<and> w_out w2 = w_out w @ take (unat ?L) (drop (?n - 59) bs)"
        using copy_literal_ok [OF d'(2) assms(5), of ?L] by metis
      ultimately show ?thesis unfolding implements_def
        by (intro exI [of _ "unat ?L \<le> length (drop (?n - 59) bs) \<and> w_op w + unat ?L \<le> lim"] exI [of _ d2] exI [of _ w2]) simp
    qed
  qed
qed

section \<open>The whole input\<close>

lemma tag_step:
  assumes "ready d c bs" "w_ok lim tail w"
  obtains d1 where "load8 (d_ip d) 0 = Some c" "advance 1 d = Some d1"
    "implements lim tail (w_out w) c bs (if c AND 0x3 = 0 then decompress_literal c d1 w else decompress_copy c d1 w)"
proof -
  have r: "d_inv d (c # bs)" "5 \<le> length (d_ip d)" "tag_extra (unat c) \<le> length bs" using assms(1) by (auto simp: ready_def)
  note i = d_inv_left [OF r(1)]
  have c: "load8 (d_ip d) 0 = Some c" using i(2,3) by (cases "d_ip d") (auto simp: load8_def)
  obtain d1 where d1: "advance 1 d = Some d1" "d_inv d1 (drop 1 (c # bs))" "d_ip d1 = drop 1 (d_ip d)"
    using advance_ok [OF r(1), of 1] by auto
  then have "d_inv d1 bs" "4 \<le> length (d_ip d1)" using r(2) by auto
  then show thesis using that [OF c d1(1)] decompress_literal_ok decompress_copy_ok r(3) assms(2) by simp
qed

lemma d_any_inv: "d_inv d bs \<Longrightarrow> d_any d bs"
  by (simp add: d_any_def)

lemma maybe_refill_ready: "ready d c bs \<Longrightarrow> \<exists>d'. maybe_refill d = Some (True, d') \<and> ready d' c bs"
  using maybe_refill_more [of d c bs] by (auto simp: ready_def d_any_inv)

lemma decompress_tags_ok:
  assumes "ready d c bs" "w_ok lim tail w" "length bs < k"
  shows "\<exists>d' w'. decompress_tags k d w = Some (d', w') \<and> w_ok lim tail w' \<and> exit_ok d' \<and>
    decode lim (w_out w) (c # bs) = (if eof d' then Some (w_out w') else None)"
  using assms
proof (induction k arbitrary: d c bs w)
  case (Suc k)
  obtain d0 where d0: "maybe_refill d = Some (True, d0)" "ready d0 c bs" using maybe_refill_ready [OF Suc.prems(1)] by auto
  obtain d1 where d1: "load8 (d_ip d0) 0 = Some c" "advance 1 d0 = Some d1"
    "implements lim tail (w_out w) c bs (if c AND 0x3 = 0 then decompress_literal c d1 w else decompress_copy c d1 w)"
    by (rule tag_step [OF d0(2) Suc.prems(2)])
  then obtain ok d2 w2 where 2: "(if c AND 0x3 = 0 then decompress_literal c d1 w else decompress_copy c d1 w) = Some (ok, d2, w2)"
    "w_ok lim tail w2" "exit_ok d2" "\<not> eof d2"
    "if ok then \<exists>rest. elem_step lim (w_out w) c bs = Some (w_out w2, rest) \<and> d_inv d2 rest \<and> length rest \<le> length bs
     else elem_step lim (w_out w) c bs = None" unfolding implements_def by blast
  have step: "decompress_tags (Suc k) d w =
    (if \<not> ok then Some (d2, w2)
     else do {(more, d) \<leftarrow> maybe_refill d2; if \<not> more then Some (d, w2) else decompress_tags k d w2})"
    using d0(1) d1(1,2) 2(1) by (simp add: decompress_tags.simps(2))
  show ?case
  proof (cases ok)
    case False
    then show ?thesis using step 2 by (simp add: decode_step)
  next
    case True
    then obtain rest where r: "elem_step lim (w_out w) c bs = Some (w_out w2, rest)" "d_inv d2 rest" "length rest \<le> length bs"
      using 2(5) by auto
    then have dec: "decode lim (w_out w) (c # bs) = decode lim (w_out w2) rest" by (simp add: decode_step)
    show ?thesis
    proof (cases rest)
      case Nil
      then obtain d' where "maybe_refill d2 = Some (False, d')" "exit_ok d'" "eof d'" using maybe_refill_end r(2) d_any_inv by blast
      then show ?thesis using step True dec Nil 2(2) by simp
    next
      case (Cons c' bs')
      then obtain d' where d': "maybe_refill d2 = Some (tag_extra (unat c') \<le> length bs', d')" "exit_ok d'" "\<not> eof d'"
        "tag_extra (unat c') \<le> length bs' \<longrightarrow> ready d' c' bs'" using maybe_refill_more r(2) d_any_inv by blast
      show ?thesis
      proof (cases "tag_extra (unat c') \<le> length bs'")
        case True
        then show ?thesis using Suc.IH [of d' c' bs' w2] d' 2(2) step \<open>ok\<close> dec Cons r(3) Suc.prems(3) by simp
      next
        case False
        then have "decode lim (w_out w2) rest = None" using Cons parse_elem_short [of bs' c'] by (simp add: decode.simps(2))
        then show ?thesis using False d' step \<open>ok\<close> dec 2(2) by simp
      qed
    qed
  qed
qed simp

lemma decompress_all_tags_ok:
  assumes "left_ok d" "fresh d bs" "w_ok lim tail w"
  shows "\<exists>d' w'. decompress_all_tags d w = Some (d', w') \<and> w_ok lim tail w' \<and> exit_ok d' \<and>
    decode lim (w_out w) bs = (if eof d' then Some (w_out w') else None)"
proof -
  have a: "d_any d bs" using assms(1,2) by (simp add: d_any_def)
  show ?thesis
  proof (cases bs)
    case Nil
    then obtain d' where "maybe_refill d = Some (False, d')" "exit_ok d'" "eof d'" using maybe_refill_end a by blast
    then show ?thesis using assms(3) Nil by (simp add: decompress_all_tags_def)
  next
    case (Cons c bs')
    then obtain d' where d': "maybe_refill d = Some (tag_extra (unat c) \<le> length bs', d')" "exit_ok d'" "\<not> eof d'"
      "tag_extra (unat c) \<le> length bs' \<longrightarrow> ready d' c bs'" using maybe_refill_more a by blast
    show ?thesis
    proof (cases "tag_extra (unat c) \<le> length bs'")
      case True
      then have "d_left d' = length (c # bs')" using d'(4) d_inv_left(1) by (auto simp: ready_def)
      then show ?thesis using True d' assms(3) Cons decompress_tags_ok [of d' c bs' lim tail w "Suc (length (reader d') + d_left d')"]
        by (simp add: decompress_all_tags_def)
    next
      case False
      then show ?thesis using d' assms(3) Cons parse_elem_short [of bs' c] by (simp add: decompress_all_tags_def decode.simps(2))
    qed
  qed
qed

section \<open>The length prefix\<close>

text \<open>The decompressor reads every length that \<open>snappy_uncompressed_length\<close> accepts. It is less strict
  with the fifth byte.\<close>

fun read_steps :: "nat \<Rightarrow> (nat \<times> u32) list \<Rightarrow> bool" where
  "read_steps s [] = True"
| "read_steps s ((shift, bound) # steps) \<longleftrightarrow> shift = s \<and> s < 32 \<and> bound \<le> 128 \<and> (steps = [] \<or> bound = 128) \<and> read_steps (s + 7) steps"

lemma read_length_steps:
  "varint_steps steps result bs = Some (v, rest) \<Longrightarrow> read_steps s steps \<Longrightarrow> read_length s result bs = Some (v, rest)"
proof (induction steps result bs arbitrary: s rule: varint_steps.induct)
  case (3 shift bound steps result c bs)
  have u: "ucast (c AND 0x7f) = (ucast c AND 127 :: u32)"
    by (rule bit_word_eqI) (auto simp: bit_simps dest: bit_imp_le_length)
  have "unat c < 2 ^ 32" using unsigned_less [of c, where 'a = nat] by simp
  then have less: "c < 128 \<longleftrightarrow> (ucast c :: u32) < 128" by (simp add: word_less_nat_alt unsigned_ucast_eq take_bit_nat_eq_self)
  have s: "shift = s" "s < 32" "bound \<le> 128" "steps = [] \<or> bound = 128" "read_steps (s + 7) steps" using "3.prems"(2) by auto
  show ?case
  proof (cases "(ucast c :: u32) < bound")
    case True
    then have "(ucast c :: u32) < 128" using s(3) by (rule less_le_trans)
    then show ?thesis using True "3.prems"(1) s(1,2) u less by (subst read_length.simps) (simp add: Let_def)
  next
    case False
    then have "varint_steps steps (result OR push_bit shift (ucast c AND 127)) bs = Some (v, rest)"
      using "3.prems"(1) by (simp add: Let_def)
    moreover from this have "bound = 128" using s(4) by auto
    ultimately show ?thesis using "3.IH" [OF refl refl] False s u less by (subst read_length.simps) (simp add: Let_def)
  qed
qed simp_all

lemma read_uncompressed_length_ok:
  "varint_parse32_with_limit bs = Some (v, rest) \<Longrightarrow> read_uncompressed_length bs = Some (v, rest)"
  unfolding varint_parse32_with_limit_def read_uncompressed_length_def by (rule read_length_steps) auto

lemma varint_steps_shorter: "varint_steps steps result bs = Some (v, rest) \<Longrightarrow> length rest < length bs"
  by (induction steps result bs rule: varint_steps.induct)
    (auto simp: Let_def less_Suc_eq simp del: push_bit_and split: if_splits)

lemma snappy_uncompress_ok:
  assumes "snappy_uncompressed_length z = Some n" "length z < 2 ^ 32" "length garbage = 5" "n \<le> length buf"
  obtains buf' where "snappy_uncompress garbage z buf = Some (if decode_block z = None then - 5 else 0, buf')"
    "length buf' = length buf" "drop n buf' = drop n buf" "\<forall>out. decode_block z = Some out \<longrightarrow> take n buf' = out"
proof -
  obtain v rest where v: "varint_parse32_with_limit z = Some (v, rest)" "n = unat v"
    using assms(1) by (auto simp: snappy_uncompressed_length_def)
  let ?w = "writer_set_expected_length \<lparr>w_buf = buf, w_op = 0, w_op_limit = 0\<rparr> n" and ?d = "init_snappy_decompressor garbage rest"
  have r: "length rest < 2 ^ 32" using varint_steps_shorter v(1) assms(2) unfolding varint_parse32_with_limit_def by fastforce
  have "n < 2 ^ 32" using v(2) unsigned_less [of v, where 'a = nat] by simp
  then have w: "w_ok n (drop n buf) ?w" "w_out ?w = []" using assms(4) by (auto simp: w_ok_def w_out_def writer_set_expected_length_def)
  have d: "left_ok ?d" "fresh ?d rest" using r assms(3) by (auto simp: left_ok_def fresh_def init_snappy_decompressor_def)
  obtain d' w' where 1: "decompress_all_tags ?d ?w = Some (d', w')" "w_ok n (drop n buf) w'" "exit_ok d'"
    "decode n [] rest = (if eof d' then Some (w_out w') else None)"
    using decompress_all_tags_ok [OF d w(1)] w(2) by auto
  have e: "exit_snappy_decompressor d' \<noteq> None" using 1(3) by (simp add: exit_snappy_decompressor_def skip_def exit_ok_def)
  have "v \<le> 0xffffffff" using unsigned_less [of v, where 'a = nat] by (simp add: word_le_nat_alt)
  then have res: "snappy_uncompress garbage z buf = Some (if eof d' \<and> writer_check_length w' then 0 else - 5, w_buf w')"
    using read_uncompressed_length_ok [OF v(1)] 1(1) e v(2) by (auto simp: snappy_uncompress_def internal_uncompress_def not_less)
  have dec: "decode_block z = (if eof d' \<and> writer_check_length w' then Some (w_out w') else None)"
    using v 1(2,4) length_w_out [OF 1(2)] by (auto simp: decode_block_def writer_check_length_def w_ok_def)
  have "length (drop n (w_buf w')) = length (drop n buf)" "n \<le> length (w_buf w')" using 1(2) by (auto simp: w_ok_def)
  then have "length (w_buf w') = length buf" using assms(4) by simp
  then show thesis using that [of "w_buf w'"] res dec 1(2) by (auto simp: w_ok_def w_out_def writer_check_length_def)
qed

end
