(* ===== verification/Snappy.thy ===== *)
theory Snappy
  imports Types Snappy_Blocks Snappy_Decode
begin

text \<open>
  The compressor \<open>lib/snappy-c/snappy.c\<close> as a whole, and as the path repository and the property
  storage use it: what is proved of its two halves is put together here, and \<open>codec_snappy\<close> is shown
  to keep the promise that those components rely on.
\<close>

section \<open>The compressor behind the stores\<close>

text \<open>
  \<open>path_repo_commit\<close> and \<open>property_store\<close> allocate the maximal length and compress into it;
  \<open>pr_reconstruct\<close> and \<open>property_load\<close> ask for the length, allocate it and uncompress. The
  environment stays the same for all calls, which is faithful since the output does not depend on the
  content of its table (\<open>snappy_pack_same\<close>). \<open>None\<close> is the error branch of the caller.
\<close>

definition to_bytes :: "string \<Rightarrow> bytes" where
  "to_bytes s = map of_char s"

definition of_bytes :: "bytes \<Rightarrow> string" where
  "of_bytes bs = map (\<lambda>b. char_of (unat b)) bs"

definition snappy_pack :: "snappy_env \<Rightarrow> string \<Rightarrow> string option" where
  "snappy_pack env d =
     (case snappy_compress env (to_bytes d) (replicate (snappy_max_compressed_length (length d)) 0) of
        Some (rc, _, dptr, dsize) \<Rightarrow> if rc \<noteq> 0 then None else Some (of_bytes (take dsize dptr))
      | None \<Rightarrow> None)"

definition snappy_unpack :: "string \<Rightarrow> string option" where
  "snappy_unpack val =
     (case snappy_uncompressed_length (to_bytes val) of
        None \<Rightarrow> None
      | Some dsize \<Rightarrow>
          (case snappy_uncompress (replicate 5 0) (to_bytes val) (replicate dsize 0) of
             Some (rc, dptr) \<Rightarrow> if rc \<noteq> 0 then None else Some (of_bytes dptr)
           | None \<Rightarrow> None))"

definition codec_snappy :: "snappy_env \<Rightarrow> codec" where
  "codec_snappy env = \<lparr>compress = snappy_pack env, uncompress = snappy_unpack\<rparr>"

lemma snappy_pack_same:
  assumes "env_ok env" "env_ok env'"
  shows "snappy_pack env' d = snappy_pack env d"
  using snappy_compress_same [OF assms, of "to_bytes d" "replicate (snappy_max_compressed_length (length d)) 0"]
  unfolding snappy_pack_def
  by (cases "snappy_compress env (to_bytes d) (replicate (snappy_max_compressed_length (length d)) 0)";
      cases "snappy_compress env' (to_bytes d) (replicate (snappy_max_compressed_length (length d)) 0)") auto

lemma to_of_bytes [simp]: "to_bytes (of_bytes bs) = bs"
proof -
  have "(of_char (char_of (unat b)) :: u8) = b" for b :: u8
  proof -
    have "(of_char (char_of (unat b)) :: u8) = of_nat (of_char (char_of (unat b)))" by (simp only: of_nat_of_char)
    also have "\<dots> = of_nat (unat b mod 256)" by (simp only: of_char_of)
    also have "unat b mod 256 = unat b" using unsigned_less [of b, where 'a = nat] by simp
    finally show ?thesis by simp
  qed
  then show ?thesis by (simp add: to_bytes_def of_bytes_def o_def)
qed

lemma of_to_bytes [simp]: "of_bytes (to_bytes s) = s"
  by (simp add: to_bytes_def of_bytes_def o_def)

lemma length_to_bytes [simp]: "length (to_bytes s) = length s"
  by (simp add: to_bytes_def)

section \<open>Both halves together\<close>

lemma snappy_max_small: "n < 2 ^ 31 \<Longrightarrow> snappy_max_compressed_length n < 2 ^ 32"
  by (simp add: snappy_max_compressed_length_def)

text \<open>What is compressed is uncompressed to the input, into any buffer that is long enough.\<close>

lemma snappy_compress_uncompress:
  assumes "env_ok env" "length input < 2 ^ 31" "snappy_max_compressed_length (length input) \<le> length compressed"
  obtains env' m k where "snappy_compress env input compressed = Some (0, env', m, k)" "env_ok env'"
    "length m = length compressed" "k \<le> snappy_max_compressed_length (length input)"
    "snappy_uncompressed_length (take k m) = Some (length input)" "decode_block (take k m) = Some input"
    "\<And>garbage buf. length garbage = 5 \<Longrightarrow> length input \<le> length buf \<Longrightarrow>
       snappy_uncompress garbage (take k m) buf = Some (0, input @ drop (length input) buf)"
proof -
  let ?n = "length input"
  obtain env' m k rest where c: "snappy_compress env input compressed = Some (0, env', m, k)" "env_ok env'"
    "length m = length compressed" "k \<le> snappy_max_compressed_length ?n"
    and z: "varint_parse32_with_limit (take k m) = Some (of_nat ?n, rest)" "extends rest [] input"
    by (rule snappy_compress_ok [OF assms])
  have n: "unat (of_nat ?n :: u32) = ?n" using assms(2) by (simp add: unat_of_nat)
  have len: "snappy_uncompressed_length (take k m) = Some ?n" using z(1) n by (simp add: snappy_uncompressed_length_def)
  have dec: "decode_block (take k m) = Some input" using assms(2) by (intro decode_block_extends [OF z(1) _ z(2)]) simp
  have k: "length (take k m) < 2 ^ 32" using c(4) snappy_max_small [OF assms(2)] by simp
  have "snappy_uncompress garbage (take k m) buf = Some (0, input @ drop ?n buf)"
    if buf: "length garbage = 5" "?n \<le> length buf" for garbage buf
  proof -
    obtain buf' where "snappy_uncompress garbage (take k m) buf = Some (0, buf')" "drop ?n buf' = drop ?n buf"
      "take ?n buf' = input"
      by (rule snappy_uncompress_ok [OF len k buf]) (use dec in simp)
    then show ?thesis using append_take_drop_id [of ?n buf'] by metis
  qed
  then show thesis using that c len dec by blast
qed

section \<open>Properties\<close>

definition demo_senv :: snappy_env where
  "demo_senv = \<lparr>hash_table = replicate kmax_hash_table_size 0\<rparr>"

definition demo_large :: bytes where
  "demo_large = replicate (2 ^ 31) 0"

lemma demo_senv_ok: "env_ok demo_senv"
  by (simp add: env_ok_def demo_senv_def)

text \<open>
  C5. Compressing any input below 2 GiB, with any environment and into a buffer of the documented
  maximal length, succeeds without leaving a buffer, running into a failing assertion or looping;
  the output is no longer than that length, announces the length of the input, and uncompressing
  it gives the input back and writes nothing behind it.
\<close>

theorem snappy_roundtrip:
  assumes "env_ok env" "length input < 2 ^ 31" "snappy_max_compressed_length (length input) \<le> length compressed"
    "length garbage = 5" "length input \<le> length buf"
  shows "\<exists>env' m k. snappy_compress env input compressed = Some (0, env', m, k) \<and> env_ok env' \<and>
    length m = length compressed \<and> k \<le> snappy_max_compressed_length (length input) \<and>
    snappy_uncompressed_length (take k m) = Some (length input) \<and>
    snappy_uncompress garbage (take k m) buf = Some (0, input @ drop (length input) buf)"
  using snappy_compress_uncompress [OF assms(1-3)] assms(4,5) by metis

theorem snappy_roundtrip_witness:
  "\<exists>env' m k. snappy_compress demo_senv [1, 2, 3] (replicate 40 0) = Some (0, env', m, k) \<and>
     snappy_uncompress (replicate 5 7) (take k m) [9, 9, 9, 9] = Some (0, [1, 2, 3, 9])"
  using snappy_roundtrip [OF demo_senv_ok, of "[1, 2, 3]" "replicate 40 0" "replicate 5 7" "[9, 9, 9, 9]"]
  by (auto simp: snappy_max_compressed_length_def)

text \<open>
  C6. Uncompressing arbitrary data, corrupt data included, ends without reading or writing outside of
  its buffers and without a failing assertion. It succeeds exactly when the data is a compressed block by
  the format (a length, then literals and copies that stay inside what is there and give
  exactly that many bytes), the output is then what the block stands for, and nothing behind the announced
  length is touched in any case.
\<close>

theorem snappy_uncompress_correct:
  assumes "snappy_uncompressed_length z = Some n" "length z < 2 ^ 32" "length garbage = 5" "n \<le> length buf"
  shows "\<exists>rc buf'. snappy_uncompress garbage z buf = Some (rc, buf') \<and> (rc = 0 \<longleftrightarrow> decode_block z \<noteq> None) \<and>
    rc \<in> {0, - 5} \<and> length buf' = length buf \<and> drop n buf' = drop n buf \<and>
    (\<forall>out. decode_block z = Some out \<longrightarrow> take n buf' = out)"
  by (rule snappy_uncompress_ok [OF assms]) auto

theorem snappy_uncompress_correct_witness:
  "\<exists>buf'. snappy_uncompress (replicate 5 0) [3, 4, 65, 66] (replicate 8 0) = Some (- 5, buf') \<and>
     drop 3 buf' = replicate 5 0"
proof -
  have len: "snappy_uncompressed_length [3, 4, 65, 66] = Some 3"
    by (simp add: snappy_uncompressed_length_def varint_parse32_with_limit_def)
  have "decode_block [3, 4, 65, 66] = None"
    by (simp add: decode_block_def varint_parse32_with_limit_def parse_elem_def parse_lit_def lit_len_def)
  then show ?thesis
    using snappy_uncompress_correct [OF len, of "replicate 5 0" "replicate 8 0"] by auto
qed

text \<open>
  C36. Finding the length of a match by comparing 64-bit words, and by 32-bit words on machines of either
  byte order, gives the same number: the length of the longest common part of the two positions
  before the limit. Both only read below the limit.
\<close>

theorem find_match_length_equiv:
  assumes "s1 \<le> s2" "s2 \<le> lim" "lim \<le> length m"
  shows "\<exists>n. find_match_length m s1 s2 lim = Some n \<and> find_match_length_generic le m s1 s2 lim = Some n \<and>
    s2 + n \<le> lim \<and> (\<forall>i < n. m ! (s1 + i) = m ! (s2 + i)) \<and> (s2 + n < lim \<longrightarrow> m ! (s1 + n) \<noteq> m ! (s2 + n))"
proof -
  obtain n where n: "find_match_length m s1 s2 lim = Some n" "longest_match m s1 s2 lim n"
    by (rule find_match_length_longest [OF assms])
  obtain k where "find_match_length_generic le m s1 s2 lim = Some k" "longest_match m s1 s2 lim k"
    using match_words32_longest [of s1 s2 0 lim m le] assms by (auto simp: find_match_length_generic_def)
  then show ?thesis using n longest_match_unique by (auto simp: longest_match_def)
qed

theorem find_match_length_equiv_witness:
  "find_match_length [1, 2, 3, 1, 2, 4] 0 3 6 = Some 2 \<and> find_match_length_generic False [1, 2, 3, 1, 2, 4] 0 3 6 = Some 2"
proof -
  obtain n where n: "find_match_length [1, 2, 3, 1, 2, 4] 0 3 6 = Some n"
    "find_match_length_generic False [1, 2, 3, 1, 2, 4] 0 3 6 = Some n" "3 + n \<le> 6"
    "\<forall>i < n. [1, 2, 3, 1, 2, 4 :: u8] ! i = [1, 2, 3, 1, 2, 4] ! (3 + i)"
    "3 + n < 6 \<longrightarrow> [1, 2, 3, 1, 2, 4 :: u8] ! n \<noteq> [1, 2, 3, 1, 2, 4] ! (3 + n)"
    using find_match_length_equiv [of 0 3 6 "[1, 2, 3, 1, 2, 4]" False] by auto
  then have "n = 2"
    by (cases "n < 2"; cases "n = 3") (auto simp: less_2_cases_iff numeral_3_eq_3 dest: spec [of _ 2])
  then show ?thesis using n(1,2) by simp
qed

text \<open>
  C35. Snappy is a compressor as the path repository and the property storage need it: for all data below
  2 GiB compression succeeds and decompression undoes it, whatever earlier calls left in the environment.
\<close>

theorem codec_snappy_ok:
  assumes "env_ok env"
  shows "codec_ok (codec_snappy env) {d. length d < 2 ^ 31}"
  unfolding codec_ok_def
proof
  fix d :: string assume "d \<in> {d. length d < 2 ^ 31}"
  then have "length (to_bytes d) < 2 ^ 31" by simp
  then obtain env' m k where c: "snappy_compress env (to_bytes d) (replicate (snappy_max_compressed_length (length d)) 0) = Some (0, env', m, k)"
    "snappy_uncompressed_length (take k m) = Some (length d)"
    "snappy_uncompress (replicate 5 0) (take k m) (replicate (length d) 0) = Some (0, to_bytes d)"
    by (rule snappy_compress_uncompress [OF assms, where compressed = "replicate (snappy_max_compressed_length (length d)) 0"]) auto
  then have "compress (codec_snappy env) d = Some (of_bytes (take k m))"
    "uncompress (codec_snappy env) (of_bytes (take k m)) = Some d"
    by (simp_all add: codec_snappy_def snappy_pack_def snappy_unpack_def)
  then show "\<exists>z. compress (codec_snappy env) d = Some z \<and> uncompress (codec_snappy env) z = Some d" by blast
qed

theorem codec_snappy_ok_witness:
  "\<exists>z. compress (codec_snappy demo_senv) ''trunk'' = Some z \<and> uncompress (codec_snappy demo_senv) z = Some ''trunk''"
  using codec_snappy_ok [OF demo_senv_ok] by (auto simp: codec_ok_def)

text \<open>
  C37. The fast copy, which moves eight bytes at a time and first doubles the distance of short patterns,
  puts the same bytes into place as the copy byte by byte, for every distance and length, overlapping
  ones included. It may write up to ten bytes more, which the caller has room for, and no others.
\<close>

theorem incremental_copy_equiv:
  assumes "0 < off" "0 < n" "src + off + n + 10 \<le> length m"
  shows "\<exists>m1 m2. incremental_copy m src (src + off) n = Some m1 \<and>
    incremental_copy_fast_path m src (src + off) (int n) = Some m2 \<and>
    take (src + off + n) m2 = take (src + off + n) m1 \<and> take (src + off) m2 = take (src + off) m \<and>
    drop (src + off + n) m1 = drop (src + off + n) m \<and>
    drop (src + off + n + 10) m2 = drop (src + off + n + 10) m"
proof -
  obtain m1 where m1: "incremental_copy m src (src + off) n = Some m1"
    "copied m src off (src + off + n) (src + off + n) m1"
    using incremental_copy_ok [OF copied_refl [OF assms(1), of m src "src + off + n"] assms(1), of src n] assms by auto
  obtain m2 where m2: "incremental_copy_fast_path m src (src + off) (int n) = Some m2"
    "copied m src off (src + off + n) (src + off + n + 10) m2"
    using incremental_copy_fast_path_ok [OF assms(1,2) order_refl assms(3)] by blast
  have "take (src + off + n) m2 = take (src + off + n) m1" by (rule copied_unique [OF m2(2) m1(2) assms(1)]) simp
  then show ?thesis using m1 m2 by (simp add: copied_def)
qed

theorem incremental_copy_equiv_witness:
  "\<exists>m1 m2. incremental_copy (replicate 20 7) 0 3 5 = Some m1 \<and>
     incremental_copy_fast_path (replicate 20 7) 0 3 5 = Some m2 \<and> take 8 m2 = take 8 m1 \<and>
     drop 18 m2 = drop 18 (replicate 20 7)"
  using incremental_copy_equiv [of 3 5 0 "replicate 20 7"] by auto

text \<open>
  The length is kept in an \<open>int\<close>, which is negative from 2 GiB on: the compressor then reports
  success with nothing but the length written, and the data cannot be uncompressed again.
\<close>

lemma snappy_compress_wraps:
  assumes "2 ^ 31 \<le> length input" "length input < 2 ^ 32" "5 \<le> length compressed"
  shows "\<exists>m. snappy_compress env input compressed = Some (0, env, m, 5) \<and> decode_block (take 5 m) = None"
proof -
  let ?N = "of_nat (length input) :: u32"
  have n: "unat ?N = length input" using assms(2) by (simp add: unat_of_nat)
  then have "\<not> ?N < 2 ^ 28" using assms(1) by (simp add: word_less_nat_alt)
  then have u: "length (varint_encode32 ?N) = 5"
    by (simp add: varint_encode32_def word_less_nat_alt)
  have "int (length input) div 2 ^ 31 = 1" using assms(1,2) by (intro int_div_pos_eq [of _ _ _ "int (length input) - 2 ^ 31"]) auto
  then have s: "sint ?N < 0" using n by (simp add: sint_uint uint_nat signed_take_bit_negative_iff bit_iff_odd)
  let ?m = "upd compressed 0 (varint_encode32 ?N)"
  have "snappy_compress env input compressed = Some (0, env, ?m, 5)"
    using s u assms(3) by (simp add: snappy_compress_def compress_source_def Let_def mem compress_blocks.simps)
  moreover have "take 5 ?m = varint_encode32 ?N" using u assms(3) by (simp add: upd_def)
  moreover have "decode_block (varint_encode32 ?N) = None"
    using varint_roundtrip [of ?N "[]"] n assms(1) by (auto simp: decode_block_def)
  ultimately show ?thesis by auto
qed

lemma snappy_compress_wraps_example:
  "\<exists>m. snappy_compress demo_senv demo_large (replicate 5 0) = Some (0, demo_senv, m, 5) \<and> decode_block (take 5 m) = None"
proof -
  have "length demo_large = 2 ^ 31" unfolding demo_large_def by (rule length_replicate)
  then show ?thesis using snappy_compress_wraps [of demo_large "replicate 5 0" demo_senv] by simp
qed

end
