(* ===== verification/Memcmp.thy ===== *)
theory Memcmp
  imports Snappy_Memory
begin

text \<open>
  The replacement of \<open>memcmp\<close> in \<open>lib/memcmp.c\<close>. It compares 64-bit words where it can: single bytes
  until the second block is aligned, then words, shifted together from two words where the first block
  is not aligned, then the bytes that are left. The loops over words are unrolled four times and entered
  in the middle, depending on the number of words.

  Memory is a function from 64-bit addresses to bytes, \<open>None\<close> where nothing is mapped; reading such a byte,
  or a word from an address that is not aligned, makes the result \<open>None\<close>. Pointers are \<open>uintptr_t\<close>: they
  wrap, and may leave the block for a while. The labels \<open>do3\<close>, \<open>do2\<close>, \<open>do1\<close> and \<open>do0\<close> of the source are
  functions; \<open>again\<close> is the next round of the loop around them, which has fuel for every word.
\<close>

unbundle bit_operations_syntax

type_synonym memory = "u64 \<Rightarrow> u8 option"

section \<open>The code\<close>

definition OPSIZ :: u64 where "OPSIZ = 8"
definition OP_T_THRES :: u64 where "OP_T_THRES = 16"

text \<open>\<open>((byte *) p)[0]\<close>, converted to \<open>op_t\<close>, and \<open>((op_t *) p)[i]\<close>.\<close>

definition byte_at :: "memory \<Rightarrow> u64 \<Rightarrow> u64 option" where
  "byte_at mem p = map_option ucast (mem p)"

definition op_at :: "memory \<Rightarrow> u64 \<Rightarrow> nat \<Rightarrow> u64 option" where
  "op_at mem p i = do {
     DCHECK (p mod OPSIZ = 0);
     bs \<leftarrow> those (map (\<lambda>k. mem (p + of_nat (8 * i) + of_nat k)) [0..<8]);
     Some (le_word bs)
   }"

text \<open>The conversion of an \<open>op_t\<close> to the \<open>int\<close> that is returned.\<close>

definition to_int :: "u64 \<Rightarrow> int" where
  "to_int w = sint (ucast w :: u32)"

definition MERGE :: "u64 \<Rightarrow> nat \<Rightarrow> u64 \<Rightarrow> nat \<Rightarrow> u64" where
  "MERGE w0 sh_1 w1 sh_2 = (drop_bit sh_1 w0 OR push_bit sh_2 w1)"

definition op_bytes :: "u64 \<Rightarrow> bytes" where
  "op_bytes a = map (\<lambda>k. ucast (drop_bit (8 * k) a)) [0..<8]"

fun mb_loop :: "bytes \<Rightarrow> bytes \<Rightarrow> u64 option" where
  "mb_loop (a0 # srcp1) (b0 # srcp2) = (if a0 = b0 then mb_loop srcp1 srcp2 else Some (ucast a0 - ucast b0))"
| "mb_loop _ _ = None"

definition memcmp_bytes :: "u64 \<Rightarrow> u64 \<Rightarrow> int option" where
  "memcmp_bytes a b = map_option to_int (mb_loop (op_bytes a) (op_bytes b))"

subsection \<open>Both blocks aligned\<close>

definition ca_do0 :: "u64 \<Rightarrow> u64 \<Rightarrow> int option" where
  "ca_do0 a1 b1 = (if a1 \<noteq> b1 then memcmp_bytes a1 b1 else Some 0)"

definition ca_do1 ::
  "memory \<Rightarrow> (u64 \<Rightarrow> u64 \<Rightarrow> u64 \<Rightarrow> u64 \<Rightarrow> u64 \<Rightarrow> int option) \<Rightarrow> u64 \<Rightarrow> u64 \<Rightarrow> u64 \<Rightarrow> u64 \<Rightarrow> u64 \<Rightarrow> int option" where
  "ca_do1 mem again a0 b0 srcp1 srcp2 len = do {
     a1 \<leftarrow> op_at mem srcp1 3;
     b1 \<leftarrow> op_at mem srcp2 3;
     if a0 \<noteq> b0 then memcmp_bytes a0 b0
     else (let srcp1 = srcp1 + 4 * OPSIZ; srcp2 = srcp2 + 4 * OPSIZ; len = len - 4
           in if len \<noteq> 0 then again a1 b1 srcp1 srcp2 len else ca_do0 a1 b1)
   }"

definition ca_do2 ::
  "memory \<Rightarrow> (u64 \<Rightarrow> u64 \<Rightarrow> u64 \<Rightarrow> u64 \<Rightarrow> u64 \<Rightarrow> int option) \<Rightarrow> u64 \<Rightarrow> u64 \<Rightarrow> u64 \<Rightarrow> u64 \<Rightarrow> u64 \<Rightarrow> int option" where
  "ca_do2 mem again a1 b1 srcp1 srcp2 len = do {
     a0 \<leftarrow> op_at mem srcp1 2;
     b0 \<leftarrow> op_at mem srcp2 2;
     if a1 \<noteq> b1 then memcmp_bytes a1 b1 else ca_do1 mem again a0 b0 srcp1 srcp2 len
   }"

definition ca_do3 ::
  "memory \<Rightarrow> (u64 \<Rightarrow> u64 \<Rightarrow> u64 \<Rightarrow> u64 \<Rightarrow> u64 \<Rightarrow> int option) \<Rightarrow> u64 \<Rightarrow> u64 \<Rightarrow> u64 \<Rightarrow> u64 \<Rightarrow> u64 \<Rightarrow> int option" where
  "ca_do3 mem again a0 b0 srcp1 srcp2 len = do {
     a1 \<leftarrow> op_at mem srcp1 1;
     b1 \<leftarrow> op_at mem srcp2 1;
     if a0 \<noteq> b0 then memcmp_bytes a0 b0 else ca_do2 mem again a1 b1 srcp1 srcp2 len
   }"

fun ca_loop :: "nat \<Rightarrow> memory \<Rightarrow> u64 \<Rightarrow> u64 \<Rightarrow> u64 \<Rightarrow> u64 \<Rightarrow> u64 \<Rightarrow> int option" where
  "ca_loop 0 mem a1 b1 srcp1 srcp2 len = None"
| "ca_loop (Suc k) mem a1 b1 srcp1 srcp2 len = do {
     a0 \<leftarrow> op_at mem srcp1 0;
     b0 \<leftarrow> op_at mem srcp2 0;
     if a1 \<noteq> b1 then memcmp_bytes a1 b1 else ca_do3 mem (ca_loop k mem) a0 b0 srcp1 srcp2 len
   }"

definition memcmp_common_alignment :: "memory \<Rightarrow> u64 \<Rightarrow> u64 \<Rightarrow> u64 \<Rightarrow> int option" where
  "memcmp_common_alignment mem srcp1 srcp2 len =
     (let again = ca_loop (unat len) mem
      in if len mod 4 = 3 then do {
           a1 \<leftarrow> op_at mem srcp1 0;
           b1 \<leftarrow> op_at mem srcp2 0;
           ca_do2 mem again a1 b1 (srcp1 - OPSIZ) (srcp2 - OPSIZ) (len + 1)
         }
         else if len mod 4 = 0 then
           if OP_T_THRES \<le> 3 * OPSIZ \<and> len = 0 then Some 0
           else do {
             a0 \<leftarrow> op_at mem srcp1 0;
             b0 \<leftarrow> op_at mem srcp2 0;
             ca_do3 mem again a0 b0 srcp1 srcp2 len
           }
         else if len mod 4 = 1 then do {
           a1 \<leftarrow> op_at mem srcp1 0;
           b1 \<leftarrow> op_at mem srcp2 0;
           if OP_T_THRES \<le> 3 * OPSIZ \<and> len - 1 = 0 then ca_do0 a1 b1
           else again a1 b1 (srcp1 + OPSIZ) (srcp2 + OPSIZ) (len - 1)
         }
         else do {
           a0 \<leftarrow> op_at mem srcp1 0;
           b0 \<leftarrow> op_at mem srcp2 0;
           ca_do1 mem again a0 b0 (srcp1 - 2 * OPSIZ) (srcp2 - 2 * OPSIZ) (len + 2)
         })"

subsection \<open>The first block not aligned\<close>

text \<open>\<open>merge\<close> is \<open>MERGE\<close> with the two shifts.\<close>

definition na_do0 :: "(u64 \<Rightarrow> u64 \<Rightarrow> u64) \<Rightarrow> u64 \<Rightarrow> u64 \<Rightarrow> u64 \<Rightarrow> int option" where
  "na_do0 merge a2 a3 b3 = (let x = merge a2 a3 in if x \<noteq> b3 then memcmp_bytes x b3 else Some 0)"

definition na_do1 ::
  "memory \<Rightarrow> (u64 \<Rightarrow> u64 \<Rightarrow> u64) \<Rightarrow> (u64 \<Rightarrow> u64 \<Rightarrow> u64 \<Rightarrow> u64 \<Rightarrow> u64 \<Rightarrow> u64 \<Rightarrow> int option) \<Rightarrow>
     u64 \<Rightarrow> u64 \<Rightarrow> u64 \<Rightarrow> u64 \<Rightarrow> u64 \<Rightarrow> u64 \<Rightarrow> int option" where
  "na_do1 mem merge again a1 a2 b2 srcp1 srcp2 len = do {
     a3 \<leftarrow> op_at mem srcp1 3;
     b3 \<leftarrow> op_at mem srcp2 3;
     let x = merge a1 a2;
     if x \<noteq> b2 then memcmp_bytes x b2
     else (let srcp1 = srcp1 + 4 * OPSIZ; srcp2 = srcp2 + 4 * OPSIZ; len = len - 4
           in if len \<noteq> 0 then again a2 a3 b3 srcp1 srcp2 len else na_do0 merge a2 a3 b3)
   }"

definition na_do2 ::
  "memory \<Rightarrow> (u64 \<Rightarrow> u64 \<Rightarrow> u64) \<Rightarrow> (u64 \<Rightarrow> u64 \<Rightarrow> u64 \<Rightarrow> u64 \<Rightarrow> u64 \<Rightarrow> u64 \<Rightarrow> int option) \<Rightarrow>
     u64 \<Rightarrow> u64 \<Rightarrow> u64 \<Rightarrow> u64 \<Rightarrow> u64 \<Rightarrow> u64 \<Rightarrow> int option" where
  "na_do2 mem merge again a0 a1 b1 srcp1 srcp2 len = do {
     a2 \<leftarrow> op_at mem srcp1 2;
     b2 \<leftarrow> op_at mem srcp2 2;
     let x = merge a0 a1;
     if x \<noteq> b1 then memcmp_bytes x b1 else na_do1 mem merge again a1 a2 b2 srcp1 srcp2 len
   }"

definition na_do3 ::
  "memory \<Rightarrow> (u64 \<Rightarrow> u64 \<Rightarrow> u64) \<Rightarrow> (u64 \<Rightarrow> u64 \<Rightarrow> u64 \<Rightarrow> u64 \<Rightarrow> u64 \<Rightarrow> u64 \<Rightarrow> int option) \<Rightarrow>
     u64 \<Rightarrow> u64 \<Rightarrow> u64 \<Rightarrow> u64 \<Rightarrow> u64 \<Rightarrow> u64 \<Rightarrow> int option" where
  "na_do3 mem merge again a3 a0 b0 srcp1 srcp2 len = do {
     a1 \<leftarrow> op_at mem srcp1 1;
     b1 \<leftarrow> op_at mem srcp2 1;
     let x = merge a3 a0;
     if x \<noteq> b0 then memcmp_bytes x b0 else na_do2 mem merge again a0 a1 b1 srcp1 srcp2 len
   }"

fun na_loop :: "nat \<Rightarrow> memory \<Rightarrow> (u64 \<Rightarrow> u64 \<Rightarrow> u64) \<Rightarrow> u64 \<Rightarrow> u64 \<Rightarrow> u64 \<Rightarrow> u64 \<Rightarrow> u64 \<Rightarrow> u64 \<Rightarrow> int option" where
  "na_loop 0 mem merge a2 a3 b3 srcp1 srcp2 len = None"
| "na_loop (Suc k) mem merge a2 a3 b3 srcp1 srcp2 len = do {
     a0 \<leftarrow> op_at mem srcp1 0;
     b0 \<leftarrow> op_at mem srcp2 0;
     let x = merge a2 a3;
     if x \<noteq> b3 then memcmp_bytes x b3 else na_do3 mem merge (na_loop k mem merge) a3 a0 b0 srcp1 srcp2 len
   }"

definition memcmp_not_common_alignment :: "memory \<Rightarrow> u64 \<Rightarrow> u64 \<Rightarrow> u64 \<Rightarrow> int option" where
  "memcmp_not_common_alignment mem srcp1 srcp2 len =
     (let shl = 8 * unat (srcp1 mod OPSIZ); shr = 64 - shl;
          srcp1 = srcp1 AND - OPSIZ;
          merge = (\<lambda>w0 w1. MERGE w0 shl w1 shr);
          again = na_loop (unat len) mem merge
      in if len mod 4 = 3 then do {
           a0 \<leftarrow> op_at mem srcp1 0;
           a1 \<leftarrow> op_at mem srcp1 1;
           b1 \<leftarrow> op_at mem srcp2 0;
           na_do2 mem merge again a0 a1 b1 srcp1 (srcp2 - OPSIZ) (len + 1)
         }
         else if len mod 4 = 0 then
           if OP_T_THRES \<le> 3 * OPSIZ \<and> len = 0 then Some 0
           else do {
             a3 \<leftarrow> op_at mem srcp1 0;
             a0 \<leftarrow> op_at mem srcp1 1;
             b0 \<leftarrow> op_at mem srcp2 0;
             na_do3 mem merge again a3 a0 b0 (srcp1 + OPSIZ) srcp2 len
           }
         else if len mod 4 = 1 then do {
           a2 \<leftarrow> op_at mem srcp1 0;
           a3 \<leftarrow> op_at mem srcp1 1;
           b3 \<leftarrow> op_at mem srcp2 0;
           if OP_T_THRES \<le> 3 * OPSIZ \<and> len - 1 = 0 then na_do0 merge a2 a3 b3
           else again a2 a3 b3 (srcp1 + 2 * OPSIZ) (srcp2 + OPSIZ) (len - 1)
         }
         else do {
           a1 \<leftarrow> op_at mem srcp1 0;
           a2 \<leftarrow> op_at mem srcp1 1;
           b2 \<leftarrow> op_at mem srcp2 0;
           na_do1 mem merge again a1 a2 b2 (srcp1 - OPSIZ) (srcp2 - 2 * OPSIZ) (len + 2)
         })"

subsection \<open>The whole comparison\<close>

text \<open>The loop that aligns the second block runs at most seven times. A result \<open>Inl\<close> is returned.\<close>

fun align_loop :: "nat \<Rightarrow> memory \<Rightarrow> u64 \<Rightarrow> u64 \<Rightarrow> u64 \<Rightarrow> (int + u64 \<times> u64 \<times> u64) option" where
  "align_loop 0 mem srcp1 srcp2 len = None"
| "align_loop (Suc k) mem srcp1 srcp2 len =
     (if srcp2 mod OPSIZ \<noteq> 0 then do {
        a0 \<leftarrow> byte_at mem srcp1;
        b0 \<leftarrow> byte_at mem srcp2;
        let res = a0 - b0;
        if res \<noteq> 0 then Some (Inl (to_int res)) else align_loop k mem (srcp1 + 1) (srcp2 + 1) (len - 1)
      }
      else Some (Inr (srcp1, srcp2, len)))"

function tail_loop :: "memory \<Rightarrow> u64 \<Rightarrow> u64 \<Rightarrow> u64 \<Rightarrow> int option" where
  "tail_loop mem srcp1 srcp2 len =
     (if len \<noteq> 0 then do {
        a0 \<leftarrow> byte_at mem srcp1;
        b0 \<leftarrow> byte_at mem srcp2;
        let res = a0 - b0;
        if res \<noteq> 0 then Some (to_int res) else tail_loop mem (srcp1 + 1) (srcp2 + 1) (len - 1)
      }
      else Some 0)"
  by pat_completeness auto
termination by (relation "measure (\<lambda>(_, _, _, len). unat len)") (auto simp: unat_minus_one unat_gt_0)

declare tail_loop.simps [simp del]

definition rpl_memcmp :: "memory \<Rightarrow> u64 \<Rightarrow> u64 \<Rightarrow> u64 \<Rightarrow> int option" where
  "rpl_memcmp mem s1 s2 len =
     (if len \<ge> OP_T_THRES then do {
        r \<leftarrow> align_loop 8 mem s1 s2 len;
        case r of
          Inl res \<Rightarrow> Some res
        | Inr (srcp1, srcp2, len) \<Rightarrow> do {
            res \<leftarrow> (if srcp1 mod OPSIZ = 0 then memcmp_common_alignment mem srcp1 srcp2 (len div OPSIZ)
                   else memcmp_not_common_alignment mem srcp1 srcp2 (len div OPSIZ));
            let res = (of_int res :: u64);
            if res \<noteq> 0 then Some (to_int res)
            else tail_loop mem (srcp1 + (len AND - OPSIZ)) (srcp2 + (len AND - OPSIZ)) (len mod OPSIZ)
          }
      }
      else tail_loop mem s1 s2 len)"

section \<open>Comparing bytes\<close>

text \<open>What \<open>memcmp\<close> means: the difference of the first bytes that differ, 0 if there are none.\<close>

fun byte_diff :: "bytes \<Rightarrow> bytes \<Rightarrow> int" where
  "byte_diff (x # xs) (y # ys) = (if x = y then byte_diff xs ys else uint x - uint y)"
| "byte_diff _ _ = 0"

lemma byte_diff_zero: "length xs = length ys \<Longrightarrow> byte_diff xs ys = 0 \<longleftrightarrow> xs = ys"
  by (induction xs ys rule: list_induct2) (auto simp: word_uint_eq_iff)

lemma byte_diff_append:
  "length xs = length ys \<Longrightarrow> byte_diff (xs @ xs') (ys @ ys') = (if xs = ys then byte_diff xs' ys' else byte_diff xs ys)"
  by (induction xs ys rule: list_induct2) auto

lemma u8_diff: "- 255 \<le> uint (x :: u8) - uint (y :: u8)" "uint x - uint y \<le> 255"
proof -
  have "0 \<le> uint x" "uint x < 256" "0 \<le> uint y" "uint y < 256" using uint_lt2p [of x] uint_lt2p [of y] by simp_all
  then show "- 255 \<le> uint x - uint y" "uint x - uint y \<le> 255" by linarith+
qed

lemma byte_diff_range: "- 255 \<le> byte_diff xs ys \<and> byte_diff xs ys \<le> 255"
proof (induction xs ys rule: byte_diff.induct)
  case (1 x xs y ys)
  then show ?case using u8_diff [of x y] by auto
qed auto

lemma to_int_small: "- 255 \<le> i \<Longrightarrow> i \<le> 255 \<Longrightarrow> to_int (of_int i) = i"
proof -
  assume i: "- 255 \<le> i" "i \<le> 255"
  have "(ucast (of_int i :: u64) :: u32) = of_int i" by (rule bit_word_eqI) (auto simp: bit_simps)
  then show ?thesis using i by (simp add: to_int_def signed_of_int signed_take_bit_int_eq_self)
qed

lemma byte_difference:
  fixes x y :: u8
  shows "to_int (ucast x - ucast y) = uint x - uint y" "(ucast x :: u64) = ucast y \<longleftrightarrow> x = y"
proof -
  have "(ucast x - ucast y :: u64) = of_int (uint x - uint y)" by (simp only: ucast_eq of_int_diff)
  then show d: "to_int (ucast x - ucast y) = uint x - uint y"
    using to_int_small [OF u8_diff, of x y] by simp
  have "uint x = uint y" if "(ucast x :: u64) = ucast y" using d that by (simp add: to_int_def)
  then show "(ucast x :: u64) = ucast y \<longleftrightarrow> x = y" using word_uint_eqI [of x y] by auto
qed

lemma mb_loop_diff: "length xs = length ys \<Longrightarrow> xs \<noteq> ys \<Longrightarrow> map_option to_int (mb_loop xs ys) = Some (byte_diff xs ys)"
  by (induction xs ys rule: list_induct2) (auto simp: byte_difference)

lemma op_bytes_le_word: "length xs = 8 \<Longrightarrow> op_bytes (le_word xs) = xs"
  by (intro nth_equalityI bit_word_eqI) (auto simp: op_bytes_def bit_simps bit_le_word)

lemma memcmp_bytes_diff:
  "length xs = 8 \<Longrightarrow> length ys = 8 \<Longrightarrow> xs \<noteq> ys \<Longrightarrow> memcmp_bytes (le_word xs) (le_word ys) = Some (byte_diff xs ys)"
  by (simp add: memcmp_bytes_def op_bytes_le_word mb_loop_diff)

section \<open>Addresses\<close>

lemma and_opsiz: "(x :: u64) AND - 8 = x - x mod 8" "(x AND - 8) mod 8 = 0"
proof -
  have "(x AND NOT (mask 3)) = push_bit 3 (drop_bit 3 x)" by (rule bit_eqI) (auto simp: bit_simps)
  then have "x AND - 8 = x - take_bit 3 x" using bits_ident [of 3 x] by (simp add: mask_eq_exp_minus_1 not_eq_complement algebra_simps)
  then show "x AND - 8 = x - x mod 8" by (simp add: take_bit_eq_mod)
  have "take_bit 3 (x AND NOT (mask 3)) = 0" by (rule bit_eqI) (auto simp: bit_simps)
  then show "(x AND - 8) mod 8 = 0" by (simp add: take_bit_eq_mod mask_eq_exp_minus_1 not_eq_complement)
qed

lemma unat_mod_8: "unat (((x :: u64) + of_nat k) mod 8) = (unat x + k) mod 8"
proof -
  have "unat ((x + of_nat k) mod 8) = (unat x + k mod 2 ^ 64) mod 2 ^ 64 mod 8"
    by (simp only: unat_mod_distrib unat_word_ariths unat_of_nat) simp
  also have "\<dots> = (unat x + k mod 2 ^ 64) mod 8" by (rule mod_mod_cancel) simp
  also have "\<dots> = (unat x + k mod 2 ^ 64 mod 8) mod 8" by (simp only: mod_simps)
  also have "k mod 2 ^ 64 mod 8 = k mod 8" by (rule mod_mod_cancel) simp
  finally show ?thesis by (simp only: mod_simps)
qed

lemma mod_add_small: "(x :: u64) mod 8 = 0 \<Longrightarrow> k < 8 \<Longrightarrow> (x + of_nat k) mod 8 = of_nat k"
proof -
  assume x: "x mod 8 = 0" and k: "k < 8"
  have "unat x mod 8 = 0" using unat_mod_8 [of x 0] x by simp
  then have "unat ((x + of_nat k) mod 8) = unat (of_nat k :: u64)"
    using k unat_mod_8 [of x k] by (simp add: unat_of_nat mod_add_left_eq [symmetric])
  then show ?thesis by (rule unsigned_word_eqI)
qed

lemma aligned_base: "(x :: u64) mod 8 = 0 \<Longrightarrow> k < 8 \<Longrightarrow> (x + of_nat k) AND - 8 = x"
  by (simp add: and_opsiz(1) mod_add_small)

lemma mod_words [simp]: "((x :: u64) + of_nat (8 * n)) mod 8 = x mod 8"
  using unat_mod_8 [of x "8 * n"] unat_mod_8 [of x 0] by (intro unsigned_word_eqI [where 'a = nat]) simp

lemma mod_words_mult [simp]: "((x :: u64) + 8 * of_nat n) mod 8 = x mod 8"
  using mod_words [of x n] by simp

lemma unaligned:
  assumes "(s :: u64) mod 8 \<noteq> 0"
  shows "unat (s mod 8) < 8" "0 < unat (s mod 8)" "s = (s AND - 8) + of_nat (unat (s mod 8))"
proof -
  show "unat (s mod 8) < 8" by (simp add: unat_mod_distrib)
  show "0 < unat (s mod 8)" using assms unat_gt_0 by blast
  show "s = (s AND - 8) + of_nat (unat (s mod 8))" by (simp add: and_opsiz(1) del: unat_mod_distrib)
qed

section \<open>Blocks in memory\<close>

text \<open>Whole words are mapped: every aligned word that has a byte of the block.\<close>

definition readable :: "memory \<Rightarrow> u64 \<Rightarrow> nat \<Rightarrow> bool" where
  "readable mem s n \<longleftrightarrow> (\<forall>i < n. \<forall>k < 8. mem (((s + of_nat i) AND - 8) + of_nat k) \<noteq> None)"

definition block :: "memory \<Rightarrow> u64 \<Rightarrow> nat \<Rightarrow> bytes" where
  "block mem s n = map (\<lambda>i. the (mem (s + of_nat i))) [0..<n]"

lemma length_block [simp]: "length (block mem s n) = n" by (simp add: block_def)

lemma block_0 [simp]: "block mem s 0 = []" by (simp add: block_def)

lemma block_append: "block mem s (m + n) = block mem s m @ block mem (s + of_nat m) n"
proof -
  have "[m..<m + n] = map (\<lambda>i. i + m) [0..<n]" by (simp add: map_add_upt add.commute)
  then show ?thesis unfolding block_def upt_add_eq_append [OF le0] by (simp add: algebra_simps)
qed

lemma block_Suc: "block mem s (Suc n) = the (mem s) # block mem (s + 1) n"
  using block_append [of mem s 1 n] by (simp add: block_def)

lemma readable_byte: "readable mem s n \<Longrightarrow> i < n \<Longrightarrow> mem (s + of_nat i) = Some (the (mem (s + of_nat i)))"
proof -
  assume r: "readable mem s n" and i: "i < n"
  let ?x = "s + of_nat i"
  have "?x mod 8 = of_nat (unat (?x mod 8))" by simp
  moreover have "unat (?x mod 8) < 8" by (simp add: unat_mod_distrib)
  ultimately have "mem ((?x AND - 8) + ?x mod 8) \<noteq> None" using r i unfolding readable_def by metis
  then show ?thesis by (simp add: and_opsiz(1))
qed

lemma readable_drop: "readable mem s (m + n) \<Longrightarrow> readable mem (s + of_nat m) n"
  unfolding readable_def by (metis (no_types, lifting) add.assoc add_less_cancel_left of_nat_add)

lemma those_Some: "(\<And>x. x \<in> set xs \<Longrightarrow> f x = Some (g x)) \<Longrightarrow> those (map f xs) = Some (map g xs)"
  by (induction xs) auto

text \<open>An aligned word with a byte of the block.\<close>

lemma op_at_word:
  assumes "readable mem s n" "i < n" "p + of_nat (8 * j) = (s + of_nat i) AND - 8"
  shows "op_at mem p j = Some (le_word (block mem (p + of_nat (8 * j)) 8))"
proof -
  have "p mod 8 = (p + of_nat (8 * j)) mod 8" by (rule mod_words [symmetric])
  also have "\<dots> = 0" unfolding assms(3) by (rule and_opsiz(2))
  finally have "p mod 8 = 0" .
  moreover have "those (map (\<lambda>k. mem (p + of_nat (8 * j) + of_nat k)) [0..<8]) = Some (block mem (p + of_nat (8 * j)) 8)"
    unfolding block_def using assms by (intro those_Some) (auto simp: readable_def)
  ultimately show ?thesis by (simp add: op_at_def OPSIZ_def)
qed

section \<open>The unrolled loops\<close>

text \<open>Words one after the other: the difference of the first that differ.\<close>

primrec scan :: "(nat \<Rightarrow> u64) \<Rightarrow> (nat \<Rightarrow> u64) \<Rightarrow> nat \<Rightarrow> nat \<Rightarrow> int option" where
  "scan A B 0 j = Some 0"
| "scan A B (Suc r) j = (if A j \<noteq> B j then memcmp_bytes (A j) (B j) else scan A B r (Suc j))"

lemma scan_pos: "r = Suc r' \<Longrightarrow> scan A B r j = (if A j \<noteq> B j then memcmp_bytes (A j) (B j) else scan A B r' (Suc j))"
  by simp

definition words :: "memory \<Rightarrow> u64 \<Rightarrow> nat \<Rightarrow> (nat \<Rightarrow> u64) \<Rightarrow> bool" where
  "words mem p n A \<longleftrightarrow> (\<forall>q k j. j < n \<longrightarrow> q + of_nat (8 * k) = p + of_nat (8 * j) \<longrightarrow> op_at mem q k = Some (A j))"

lemma wordsD: "words mem p n A \<Longrightarrow> q + of_nat (8 * k) = p + of_nat (8 * j) \<Longrightarrow> j < n \<Longrightarrow> op_at mem q k = Some (A j)"
  by (simp add: words_def)

text \<open>The next round, with word \<open>j\<close> still to be compared and \<open>4 * m\<close> words behind it.\<close>

definition resumes ::
  "(u64 \<Rightarrow> u64 \<Rightarrow> u64 \<Rightarrow> u64 \<Rightarrow> u64 \<Rightarrow> int option) \<Rightarrow> (nat \<Rightarrow> u64) \<Rightarrow> (nat \<Rightarrow> u64) \<Rightarrow> u64 \<Rightarrow> u64 \<Rightarrow> nat \<Rightarrow> nat \<Rightarrow> bool" where
  "resumes again A B p1 p2 m j \<longleftrightarrow> (m \<noteq> 0 \<longrightarrow>
     again (A j) (B j) (p1 + of_nat (8 * Suc j)) (p2 + of_nat (8 * Suc j)) (of_nat (4 * m)) = scan A B (4 * m + 1) j)"

lemma of_nat_zero_iff: "n < 2 ^ 64 \<Longrightarrow> (of_nat n :: u64) = 0 \<longleftrightarrow> n = 0"
  using nat_dvd_not_less [of n "2 ^ 64"] by (auto simp: word_of_nat_eq_0_iff)

lemma ca_do1_scan:
  assumes w: "words mem p1 n A" "words mem p2 n B" and "Suc j + 4 * m < n" "n < 2 ^ 63"
    and q: "q1 + of_nat (8 * 3) = p1 + of_nat (8 * Suc j)" "q2 + of_nat (8 * 3) = p2 + of_nat (8 * Suc j)"
    and again: "resumes again A B p1 p2 m (Suc j)"
  shows "ca_do1 mem again (A j) (B j) q1 q2 (of_nat (4 * Suc m)) = scan A B (4 * m + 2) j"
proof -
  have "op_at mem q1 3 = Some (A (Suc j))" "op_at mem q2 3 = Some (B (Suc j))"
    using wordsD [OF w(1) q(1)] wordsD [OF w(2) q(2)] assms(3) by simp_all
  moreover have "q1 + 4 * OPSIZ = p1 + of_nat (8 * Suc (Suc j))" "q2 + 4 * OPSIZ = p2 + of_nat (8 * Suc (Suc j))"
    using q by (simp_all add: OPSIZ_def algebra_simps)
  moreover have "(of_nat (4 * Suc m) - 4 :: u64) = of_nat (4 * m)" by simp
  moreover have "(of_nat (4 * m) :: u64) = 0 \<longleftrightarrow> m = 0" using of_nat_zero_iff [of "4 * m"] assms(3,4) by simp
  ultimately show ?thesis using again
    by (cases "m = 0") (auto simp add: ca_do1_def ca_do0_def Let_def resumes_def simp del: of_nat_mult of_nat_Suc)
qed

lemma ca_do2_scan:
  assumes w: "words mem p1 n A" "words mem p2 n B" and "Suc (Suc j) + 4 * m < n" "n < 2 ^ 63"
    and q: "q1 + of_nat (8 * 2) = p1 + of_nat (8 * Suc j)" "q2 + of_nat (8 * 2) = p2 + of_nat (8 * Suc j)"
    and again: "resumes again A B p1 p2 m (Suc (Suc j))"
  shows "ca_do2 mem again (A j) (B j) q1 q2 (of_nat (4 * Suc m)) = scan A B (4 * m + 3) j"
proof -
  have "op_at mem q1 2 = Some (A (Suc j))" "op_at mem q2 2 = Some (B (Suc j))"
    using wordsD [OF w(1) q(1)] wordsD [OF w(2) q(2)] assms(3) by simp_all
  moreover have "ca_do1 mem again (A (Suc j)) (B (Suc j)) q1 q2 (of_nat (4 * Suc m)) = scan A B (4 * m + 2) (Suc j)"
    using q by (intro ca_do1_scan [OF w assms(3,4) _ _ again]) (simp_all add: algebra_simps)
  ultimately show ?thesis by (simp add: ca_do2_def numeral_3_eq_3 del: of_nat_mult of_nat_Suc)
qed

lemma ca_do3_scan:
  assumes w: "words mem p1 n A" "words mem p2 n B" and "Suc (Suc (Suc j)) + 4 * m < n" "n < 2 ^ 63"
    and q: "q1 + of_nat (8 * 1) = p1 + of_nat (8 * Suc j)" "q2 + of_nat (8 * 1) = p2 + of_nat (8 * Suc j)"
    and again: "resumes again A B p1 p2 m (Suc (Suc (Suc j)))"
  shows "ca_do3 mem again (A j) (B j) q1 q2 (of_nat (4 * Suc m)) = scan A B (4 * m + 4) j"
proof -
  have "op_at mem q1 1 = Some (A (Suc j))" "op_at mem q2 1 = Some (B (Suc j))"
    using wordsD [OF w(1) q(1)] wordsD [OF w(2) q(2)] assms(3) by simp_all
  moreover have "ca_do2 mem again (A (Suc j)) (B (Suc j)) q1 q2 (of_nat (4 * Suc m)) = scan A B (4 * m + 3) (Suc j)"
    using q by (intro ca_do2_scan [OF w assms(3,4) _ _ again]) (simp_all add: algebra_simps)
  moreover note scan_pos [of "4 * m + 4" "4 * m + 3" A B j]
  ultimately show ?thesis by (simp add: ca_do3_def del: of_nat_mult of_nat_Suc)
qed

lemma ca_loop_scan:
  assumes w: "words mem p1 n A" "words mem p2 n B" and "n < 2 ^ 63"
  shows "m \<le> k \<Longrightarrow> j + 4 * m < n \<Longrightarrow> resumes (ca_loop k mem) A B p1 p2 m j"
proof (induction k arbitrary: m j)
  case (Suc k)
  show ?case
  proof (cases m)
    case (Suc m')
    let ?q1 = "p1 + of_nat (8 * Suc j)" and ?q2 = "p2 + of_nat (8 * Suc j)"
    have "op_at mem ?q1 0 = Some (A (Suc j))" "op_at mem ?q2 0 = Some (B (Suc j))"
      using wordsD [OF w(1), of ?q1 0 "Suc j"] wordsD [OF w(2), of ?q2 0 "Suc j"] Suc.prems Suc by simp_all
    moreover have "ca_do3 mem (ca_loop k mem) (A (Suc j)) (B (Suc j)) ?q1 ?q2 (of_nat (4 * Suc m')) = scan A B (4 * m' + 4) (Suc j)"
      using Suc.prems Suc by (intro ca_do3_scan [OF w _ assms(3)] Suc.IH) (simp_all add: algebra_simps)
    moreover note scan_pos [of "4 * m + 1" "4 * m' + 4" A B j]
    ultimately show ?thesis by (simp add: resumes_def Suc del: of_nat_mult of_nat_Suc)
  qed (simp add: resumes_def)
qed (simp add: resumes_def)

lemma count_cases:
  obtains "n = 0" | (zero) m where "n = 4 * Suc m" | (one) m where "n = 4 * m + 1" | (two) m where "n = 4 * m + 2"
  | (three) m where "n = 4 * m + 3"
proof -
  have n: "n = 4 * (n div 4) + n mod 4" by simp
  have "n mod 4 = 0 \<or> n mod 4 = 1 \<or> n mod 4 = 2 \<or> n mod 4 = 3" by presburger
  then consider "n mod 4 = 0" "n div 4 = 0" | k where "n mod 4 = 0" "n div 4 = Suc k" | "n mod 4 = 1" | "n mod 4 = 2" | "n mod 4 = 3"
    by (cases "n div 4") auto
  then show thesis
  proof cases
    case 2
    then show thesis using n that(2) by simp
  qed (use n that in fastforce)+
qed

lemma of_nat_mod_4: "n < 2 ^ 61 \<Longrightarrow> (of_nat n :: u64) mod 4 = of_nat (n mod 4)"
  by (simp add: unat_of_nat word_unat_eq_iff unat_mod_distrib del: of_nat_mod)

lemma memcmp_common_alignment_scan:
  assumes w: "words mem p1 n A" "words mem p2 n B" and n: "n < 2 ^ 61"
  shows "memcmp_common_alignment mem p1 p2 (of_nat n) = scan A B n 0"
proof -
  let ?len = "of_nat n :: u64"
  have len: "unat ?len = n" "?len mod 4 = of_nat (n mod 4)" using n of_nat_mod_4 by (simp_all add: unat_of_nat)
  have n63: "n < 2 ^ 63" using n by simp
  have again: "resumes (ca_loop n mem) A B p1 p2 m' j" if "j + 4 * m' < n" for m' j
    using that by (intro ca_loop_scan [OF w n63]) simp_all
  have first: "op_at mem p1 0 = Some (A 0)" "op_at mem p2 0 = Some (B 0)" if "0 < n"
    using wordsD [OF w(1), of p1 0 0] wordsD [OF w(2), of p2 0 0] that by simp_all
  note defs = memcmp_common_alignment_def OP_T_THRES_def OPSIZ_def Let_def
  show ?thesis
  proof (cases n rule: count_cases)
    case (zero m)
    have "ca_do3 mem (ca_loop n mem) (A 0) (B 0) p1 p2 (of_nat (4 * Suc m)) = scan A B (4 * m + 4) 0"
      using zero by (intro ca_do3_scan [OF w _ n63] again) simp_all
    moreover have "?len \<noteq> 0" using of_nat_zero_iff [of n] n zero by simp
    moreover have "4 * m + 4 = n" using zero by simp
    moreover have "?len mod 4 = 0" "0 < n" "?len = of_nat (4 * Suc m)" using zero len(2) by simp_all
    ultimately show ?thesis unfolding defs len(1) by (simp add: first del: of_nat_mult of_nat_Suc scan.simps)
  next
    case (one m)
    have "(of_nat (4 * m) :: u64) = 0 \<longleftrightarrow> m = 0" using of_nat_zero_iff [of "4 * m"] n one by simp
    moreover have "?len - 1 = of_nat (4 * m)" using one by simp
    ultimately show ?thesis using one first len again [of 0 m] unfolding defs resumes_def
      by (cases "m = 0") (simp_all add: ca_do0_def)
  next
    case (two m)
    have "ca_do1 mem (ca_loop n mem) (A 0) (B 0) (p1 - 2 * 8) (p2 - 2 * 8) (of_nat (4 * Suc m)) = scan A B (4 * m + 2) 0"
      using two by (intro ca_do1_scan [OF w _ n63] again) simp_all
    moreover have "n mod 4 = 2" using two by presburger
    then have "?len mod 4 = 2" using len(2) by simp
    moreover have "?len + 2 = of_nat (4 * Suc m)" "0 < n" "4 * m + 2 = n" using two by simp_all
    ultimately show ?thesis unfolding defs len(1) by (simp add: first del: of_nat_mult of_nat_Suc scan.simps)
  next
    case (three m)
    have "ca_do2 mem (ca_loop n mem) (A 0) (B 0) (p1 - 8) (p2 - 8) (of_nat (4 * Suc m)) = scan A B (4 * m + 3) 0"
      using three by (intro ca_do2_scan [OF w _ n63] again) simp_all
    moreover have "n mod 4 = 3" using three by presburger
    then have "?len mod 4 = 3" using len(2) by simp
    moreover have "?len + 1 = of_nat (4 * Suc m)" "0 < n" "4 * m + 3 = n" using three by simp_all
    ultimately show ?thesis unfolding defs len(1) by (simp add: first del: of_nat_mult of_nat_Suc scan.simps)
  qed (simp add: defs)
qed

text \<open>The same with the words of the first block merged from two.\<close>

definition na_resumes ::
  "(u64 \<Rightarrow> u64 \<Rightarrow> u64 \<Rightarrow> u64 \<Rightarrow> u64 \<Rightarrow> u64 \<Rightarrow> int option) \<Rightarrow> (u64 \<Rightarrow> u64 \<Rightarrow> u64) \<Rightarrow> (nat \<Rightarrow> u64) \<Rightarrow> (nat \<Rightarrow> u64) \<Rightarrow>
     u64 \<Rightarrow> u64 \<Rightarrow> nat \<Rightarrow> nat \<Rightarrow> bool" where
  "na_resumes again merge W B p1 p2 m j \<longleftrightarrow> (m \<noteq> 0 \<longrightarrow>
     again (W j) (W (Suc j)) (B j) (p1 + of_nat (8 * Suc (Suc j))) (p2 + of_nat (8 * Suc j)) (of_nat (4 * m)) =
       scan (\<lambda>i. merge (W i) (W (Suc i))) B (4 * m + 1) j)"

lemma na_do1_scan:
  assumes w: "words mem p1 (Suc n) W" "words mem p2 n B" and "Suc j + 4 * m < n" "n < 2 ^ 63"
    and q: "q1 + of_nat (8 * 3) = p1 + of_nat (8 * Suc (Suc j))" "q2 + of_nat (8 * 3) = p2 + of_nat (8 * Suc j)"
    and again: "na_resumes again merge W B p1 p2 m (Suc j)"
  shows "na_do1 mem merge again (W j) (W (Suc j)) (B j) q1 q2 (of_nat (4 * Suc m)) =
    scan (\<lambda>i. merge (W i) (W (Suc i))) B (4 * m + 2) j"
proof -
  have "op_at mem q1 3 = Some (W (Suc (Suc j)))" "op_at mem q2 3 = Some (B (Suc j))"
    using wordsD [OF w(1) q(1)] wordsD [OF w(2) q(2)] assms(3) by simp_all
  moreover have "q1 + 4 * OPSIZ = p1 + of_nat (8 * Suc (Suc (Suc j)))" "q2 + 4 * OPSIZ = p2 + of_nat (8 * Suc (Suc j))"
    using q by (simp_all add: OPSIZ_def algebra_simps)
  moreover have "(of_nat (4 * Suc m) - 4 :: u64) = of_nat (4 * m)" by simp
  moreover have "(of_nat (4 * m) :: u64) = 0 \<longleftrightarrow> m = 0" using of_nat_zero_iff [of "4 * m"] assms(3,4) by simp
  ultimately show ?thesis using again
    by (cases "m = 0") (auto simp add: na_do1_def na_do0_def Let_def na_resumes_def simp del: of_nat_mult of_nat_Suc)
qed

lemma na_do2_scan:
  assumes w: "words mem p1 (Suc n) W" "words mem p2 n B" and "Suc (Suc j) + 4 * m < n" "n < 2 ^ 63"
    and q: "q1 + of_nat (8 * 2) = p1 + of_nat (8 * Suc (Suc j))" "q2 + of_nat (8 * 2) = p2 + of_nat (8 * Suc j)"
    and again: "na_resumes again merge W B p1 p2 m (Suc (Suc j))"
  shows "na_do2 mem merge again (W j) (W (Suc j)) (B j) q1 q2 (of_nat (4 * Suc m)) =
    scan (\<lambda>i. merge (W i) (W (Suc i))) B (4 * m + 3) j"
proof -
  let ?X = "\<lambda>i. merge (W i) (W (Suc i))"
  have "op_at mem q1 2 = Some (W (Suc (Suc j)))" "op_at mem q2 2 = Some (B (Suc j))"
    using wordsD [OF w(1) q(1)] wordsD [OF w(2) q(2)] assms(3) by simp_all
  moreover have "na_do1 mem merge again (W (Suc j)) (W (Suc (Suc j))) (B (Suc j)) q1 q2 (of_nat (4 * Suc m)) = scan ?X B (4 * m + 2) (Suc j)"
    using q by (intro na_do1_scan [OF w assms(3,4) _ _ again]) (simp_all add: algebra_simps)
  ultimately show ?thesis by (simp add: na_do2_def numeral_3_eq_3 Let_def del: of_nat_mult of_nat_Suc)
qed

lemma na_do3_scan:
  assumes w: "words mem p1 (Suc n) W" "words mem p2 n B" and "Suc (Suc (Suc j)) + 4 * m < n" "n < 2 ^ 63"
    and q: "q1 + of_nat (8 * 1) = p1 + of_nat (8 * Suc (Suc j))" "q2 + of_nat (8 * 1) = p2 + of_nat (8 * Suc j)"
    and again: "na_resumes again merge W B p1 p2 m (Suc (Suc (Suc j)))"
  shows "na_do3 mem merge again (W j) (W (Suc j)) (B j) q1 q2 (of_nat (4 * Suc m)) =
    scan (\<lambda>i. merge (W i) (W (Suc i))) B (4 * m + 4) j"
proof -
  let ?X = "\<lambda>i. merge (W i) (W (Suc i))"
  have "op_at mem q1 1 = Some (W (Suc (Suc j)))" "op_at mem q2 1 = Some (B (Suc j))"
    using wordsD [OF w(1) q(1)] wordsD [OF w(2) q(2)] assms(3) by simp_all
  moreover have "na_do2 mem merge again (W (Suc j)) (W (Suc (Suc j))) (B (Suc j)) q1 q2 (of_nat (4 * Suc m)) = scan ?X B (4 * m + 3) (Suc j)"
    using q by (intro na_do2_scan [OF w assms(3,4) _ _ again]) (simp_all add: algebra_simps)
  moreover note scan_pos [of "4 * m + 4" "4 * m + 3" ?X B j]
  ultimately show ?thesis by (simp add: na_do3_def Let_def del: of_nat_mult of_nat_Suc)
qed

lemma na_loop_scan:
  assumes w: "words mem p1 (Suc n) W" "words mem p2 n B" and "n < 2 ^ 63"
  shows "m \<le> k \<Longrightarrow> j + 4 * m < n \<Longrightarrow> na_resumes (na_loop k mem merge) merge W B p1 p2 m j"
proof (induction k arbitrary: m j)
  case (Suc k)
  let ?X = "\<lambda>i. merge (W i) (W (Suc i))"
  show ?case
  proof (cases m)
    case (Suc m')
    let ?q1 = "p1 + of_nat (8 * Suc (Suc j))" and ?q2 = "p2 + of_nat (8 * Suc j)"
    have "op_at mem ?q1 0 = Some (W (Suc (Suc j)))" "op_at mem ?q2 0 = Some (B (Suc j))"
      using wordsD [OF w(1), of ?q1 0 "Suc (Suc j)"] wordsD [OF w(2), of ?q2 0 "Suc j"] Suc.prems Suc by simp_all
    moreover have "na_do3 mem merge (na_loop k mem merge) (W (Suc j)) (W (Suc (Suc j))) (B (Suc j)) ?q1 ?q2 (of_nat (4 * Suc m')) =
        scan ?X B (4 * m' + 4) (Suc j)"
      using Suc.prems Suc by (intro na_do3_scan [OF w _ assms(3)] Suc.IH) (simp_all add: algebra_simps)
    moreover note scan_pos [of "4 * m + 1" "4 * m' + 4" ?X B j]
    ultimately show ?thesis by (simp add: na_resumes_def Suc Let_def del: of_nat_mult of_nat_Suc)
  qed (simp add: na_resumes_def)
qed (simp add: na_resumes_def)

lemma memcmp_not_common_alignment_scan:
  fixes s1 p2 :: u64
  assumes w: "words mem (s1 AND - 8) (Suc n) W" "words mem p2 n B" and n: "n < 2 ^ 61"
  defines "merge \<equiv> \<lambda>w0 w1. MERGE w0 (8 * unat (s1 mod 8)) w1 (64 - 8 * unat (s1 mod 8))"
  shows "memcmp_not_common_alignment mem s1 p2 (of_nat n) = scan (\<lambda>i. merge (W i) (W (Suc i))) B n 0"
proof -
  let ?len = "of_nat n :: u64" and ?p = "s1 AND - 8" and ?X = "\<lambda>i. merge (W i) (W (Suc i))"
  have len: "unat ?len = n" "?len mod 4 = of_nat (n mod 4)" using n of_nat_mod_4 by (simp_all add: unat_of_nat)
  have n63: "n < 2 ^ 63" using n by simp
  have again: "na_resumes (na_loop n mem merge) merge W B ?p p2 m' j" if "j + 4 * m' < n" for m' j
    using that by (intro na_loop_scan [OF w n63]) simp_all
  have first: "op_at mem ?p 0 = Some (W 0)" "op_at mem ?p (Suc 0) = Some (W (Suc 0))" "op_at mem p2 0 = Some (B 0)" if "0 < n"
    using wordsD [OF w(1), of ?p 0 0] wordsD [OF w(1), of ?p 1 1] wordsD [OF w(2), of p2 0 0] that by simp_all
  have defs: "memcmp_not_common_alignment mem s1 p2 ?len =
    (if ?len mod 4 = 3 then do {a0 \<leftarrow> op_at mem ?p 0; a1 \<leftarrow> op_at mem ?p 1; b1 \<leftarrow> op_at mem p2 0;
        na_do2 mem merge (na_loop n mem merge) a0 a1 b1 ?p (p2 - 8) (?len + 1)}
     else if ?len mod 4 = 0 then if ?len = 0 then Some 0
       else do {a3 \<leftarrow> op_at mem ?p 0; a0 \<leftarrow> op_at mem ?p 1; b0 \<leftarrow> op_at mem p2 0;
         na_do3 mem merge (na_loop n mem merge) a3 a0 b0 (?p + 8) p2 ?len}
     else if ?len mod 4 = 1 then do {a2 \<leftarrow> op_at mem ?p 0; a3 \<leftarrow> op_at mem ?p 1; b3 \<leftarrow> op_at mem p2 0;
         if ?len - 1 = 0 then na_do0 merge a2 a3 b3 else na_loop n mem merge a2 a3 b3 (?p + 2 * 8) (p2 + 8) (?len - 1)}
     else do {a1 \<leftarrow> op_at mem ?p 0; a2 \<leftarrow> op_at mem ?p 1; b2 \<leftarrow> op_at mem p2 0;
         na_do1 mem merge (na_loop n mem merge) a1 a2 b2 (?p - 8) (p2 - 2 * 8) (?len + 2)})"
    unfolding memcmp_not_common_alignment_def Let_def OP_T_THRES_def OPSIZ_def merge_def len(1) by simp
  show ?thesis
  proof (cases n rule: count_cases)
    case (zero m)
    have "na_do3 mem merge (na_loop n mem merge) (W 0) (W (Suc 0)) (B 0) (?p + 8) p2 (of_nat (4 * Suc m)) = scan ?X B (4 * m + 4) 0"
      using zero by (intro na_do3_scan [OF w _ n63] again) simp_all
    moreover have "?len \<noteq> 0" using of_nat_zero_iff [of n] n zero by simp
    moreover have "4 * m + 4 = n" using zero by simp
    moreover have "?len mod 4 = 0" "0 < n" "?len = of_nat (4 * Suc m)" using zero len(2) by simp_all
    ultimately show ?thesis unfolding defs len(1) by (simp add: first del: of_nat_mult of_nat_Suc scan.simps)
  next
    case (one m)
    have "(of_nat (4 * m) :: u64) = 0 \<longleftrightarrow> m = 0" using of_nat_zero_iff [of "4 * m"] n one by simp
    moreover have "?len - 1 = of_nat (4 * m)" using one by simp
    ultimately show ?thesis using one first len again [of 0 m] unfolding defs na_resumes_def
      by (cases "m = 0") (simp_all add: na_do0_def)
  next
    case (two m)
    have "na_do1 mem merge (na_loop n mem merge) (W 0) (W (Suc 0)) (B 0) (?p - 8) (p2 - 2 * 8) (of_nat (4 * Suc m)) = scan ?X B (4 * m + 2) 0"
      using two by (intro na_do1_scan [OF w _ n63] again) simp_all
    moreover have "n mod 4 = 2" using two by presburger
    then have "?len mod 4 = 2" using len(2) by simp
    moreover have "?len + 2 = of_nat (4 * Suc m)" "0 < n" "4 * m + 2 = n" using two by simp_all
    ultimately show ?thesis unfolding defs len(1) by (simp add: first del: of_nat_mult of_nat_Suc scan.simps)
  next
    case (three m)
    have "na_do2 mem merge (na_loop n mem merge) (W 0) (W (Suc 0)) (B 0) ?p (p2 - 8) (of_nat (4 * Suc m)) = scan ?X B (4 * m + 3) 0"
      using three by (intro na_do2_scan [OF w _ n63] again) simp_all
    moreover have "n mod 4 = 3" using three by presburger
    then have "?len mod 4 = 3" using len(2) by simp
    moreover have "?len + 1 = of_nat (4 * Suc m)" "0 < n" "4 * m + 3 = n" using three by simp_all
    ultimately show ?thesis unfolding defs len(1) by (simp add: first del: of_nat_mult of_nat_Suc scan.simps)
  qed (use defs in simp)
qed

section \<open>Words as bytes\<close>

lemma scan_bytes:
  "scan (\<lambda>i. le_word (block mem (p1 + of_nat (8 * i)) 8)) (\<lambda>i. le_word (block mem (p2 + of_nat (8 * i)) 8)) r j =
     Some (byte_diff (block mem (p1 + of_nat (8 * j)) (8 * r)) (block mem (p2 + of_nat (8 * j)) (8 * r)))"
proof (induction r arbitrary: j)
  case (Suc r)
  let ?x = "block mem (p1 + of_nat (8 * j)) 8" and ?y = "block mem (p2 + of_nat (8 * j)) 8"
  have split: "block mem (p + of_nat (8 * j)) (8 * Suc r) = block mem (p + of_nat (8 * j)) 8 @ block mem (p + of_nat (8 * Suc j)) (8 * r)" for p
    using block_append [of mem "p + of_nat (8 * j)" 8 "8 * r"] by (simp add: algebra_simps)
  have "le_word ?x = (le_word ?y :: u64) \<longleftrightarrow> ?x = ?y" by (intro le_word_inj) simp_all
  then show ?case
    unfolding split scan.simps Suc.IH by (simp add: byte_diff_append memcmp_bytes_diff del: of_nat_mult of_nat_Suc)
qed simp

lemma merge_words:
  fixes s :: u64
  assumes "s = q + of_nat k" "0 < k" "k < 8"
  shows "MERGE (le_word (block mem q 8)) (8 * k) (le_word (block mem (q + 8) 8)) (64 - 8 * k) = le_word (block mem s 8)"
proof (rule bit_word_eqI)
  fix n assume n: "n < LENGTH(64)"
  define a where "a = n div 8"
  define b where "b = n mod 8"
  have n': "n = 8 * a + b" "b < 8" "a < 8" using n by (simp_all add: a_def b_def)
  have f: "block mem q 8 ! i = the (mem (q + of_nat i))" "block mem s 8 ! i = the (mem (q + of_nat (k + i)))"
    "block mem (q + 8) 8 ! i = the (mem (q + of_nat (8 + i)))" if "i < 8" for i
    using that assms(1) by (simp_all add: block_def algebra_simps)
  show "bit (MERGE (le_word (block mem q 8)) (8 * k) (le_word (block mem (q + 8) 8)) (64 - 8 * k)) n = bit (le_word (block mem s 8) :: u64) n"
  proof (cases "a + k < 8")
    case True
    then have "(8 * k + n) div 8 = a + k" "(8 * k + n) mod 8 = b" "8 * k + n < 64" "\<not> 64 - 8 * k \<le> n"
      using n' by auto
    then show ?thesis using True n' f [of a] f [of "a + k"] unfolding MERGE_def
      by (simp add: bit_simps bit_le_word add.commute)
  next
    case False
    then obtain c where c: "a + k = 8 + c" using le_Suc_ex [of 8 "a + k"] by auto
    then have e: "n - (64 - 8 * k) = 8 * c + b" "\<not> 8 * k + n < 64" "64 - 8 * k \<le> n" "c < 8" "8 * c + b < 64"
      using n' assms(3) by arith+
    have "block mem s 8 ! a = block mem (q + 8) 8 ! c"
      using f(2) [OF n'(3)] f(3) [OF e(4)] c by (simp only: add.commute [of k a])
    moreover have "n div 8 = a" "n mod 8 = b" "n < 64" using n by (simp_all add: a_def b_def)
    moreover have "(8 * c + b) div 8 = c" "(8 * c + b) mod 8 = b" using n'(2) by simp_all
    ultimately show ?thesis unfolding MERGE_def using n'(3) e by (simp add: bit_simps bit_le_word)
  qed
qed

section \<open>The whole comparison\<close>

text \<open>The words of a block, aligned or not, and of the aligned words around it.\<close>

lemma aligned_words:
  assumes "readable mem s (8 * n)" "s mod 8 = 0"
  shows "words mem s n (\<lambda>j. le_word (block mem (s + of_nat (8 * j)) 8))"
  unfolding words_def
proof (intro allI impI)
  fix q k j assume j: "j < n" "q + of_nat (8 * k) = s + of_nat (8 * j)"
  have "q + of_nat (8 * k) = (s + of_nat (8 * j)) AND - 8" using aligned_base [of "s + of_nat (8 * j)" 0] assms(2) j(2) by simp
  then show "op_at mem q k = Some (le_word (block mem (s + of_nat (8 * j)) 8))"
    using op_at_word [OF assms(1), of "8 * j" q k] j by simp
qed

lemma surrounding_words:
  assumes "readable mem s (8 * n)" "s mod 8 \<noteq> 0" "0 < n"
  shows "words mem (s AND - 8) (Suc n) (\<lambda>j. le_word (block mem ((s AND - 8) + of_nat (8 * j)) 8))"
  unfolding words_def
proof (intro allI impI)
  let ?p = "s AND - 8" and ?k = "unat (s mod 8)"
  note k = unaligned [OF assms(2)]
  fix q i j assume j: "j < Suc n" "q + of_nat (8 * i) = ?p + of_nat (8 * j)"
  define l where "l = (if j < n then 8 * j else 8 * j - 1)"
  define o' where "o' = (if j < n then ?k else ?k - 1)"
  have "l < 8 * n" using j(1) assms(3) by (auto simp: l_def)
  have "o' < 8" using k(1) by (simp add: o'_def less_imp_diff_less)
  have "s + of_nat l = ?p + of_nat ?k + of_nat l" using k(3) by metis
  also have "\<dots> = ?p + of_nat (8 * j) + of_nat o'"
    using k(2) assms(3) j(1) by (cases "j < n") (simp_all add: l_def o'_def of_nat_diff Suc_leI)
  finally have "s + of_nat l = ?p + of_nat (8 * j) + of_nat o'" .
  moreover have "(?p + of_nat (8 * j)) mod 8 = 0" using and_opsiz(2) by simp
  ultimately have "(s + of_nat l) AND - 8 = ?p + of_nat (8 * j)"
    using aligned_base [of "?p + of_nat (8 * j)" o'] \<open>o' < 8\<close> by simp
  then show "op_at mem q i = Some (le_word (block mem (?p + of_nat (8 * j)) 8))"
    using op_at_word [OF assms(1) \<open>l < 8 * n\<close>, of q i] j(2) by simp
qed

lemma compare_words:
  assumes r: "readable mem s1 (8 * n)" "readable mem s2 (8 * n)" and "s2 mod 8 = 0" "n < 2 ^ 61"
  shows "(if s1 mod OPSIZ = 0 then memcmp_common_alignment mem s1 s2 (of_nat n)
      else memcmp_not_common_alignment mem s1 s2 (of_nat n)) = Some (byte_diff (block mem s1 (8 * n)) (block mem s2 (8 * n)))"
proof (cases "s1 mod 8 = 0")
  case True
  then show ?thesis
    using memcmp_common_alignment_scan [OF aligned_words [OF r(1)] aligned_words [OF r(2)]] assms(3,4)
      scan_bytes [of mem s1 s2 n 0] by (simp add: OPSIZ_def)
next
  case False
  let ?p = "s1 AND - 8" and ?k = "unat (s1 mod 8)"
  show ?thesis
  proof (cases "n = 0")
    case True
    then show ?thesis using False by (simp add: OPSIZ_def memcmp_not_common_alignment_def Let_def OP_T_THRES_def)
  next
    case n: False
    note k = unaligned [OF False]
    have "MERGE (le_word (block mem (?p + of_nat (8 * i)) 8)) (8 * ?k) (le_word (block mem (?p + of_nat (8 * Suc i)) 8)) (64 - 8 * ?k) =
        le_word (block mem (s1 + of_nat (8 * i)) 8)" for i
      using merge_words [of "s1 + of_nat (8 * i)" "?p + of_nat (8 * i)" ?k mem] k by (simp add: algebra_simps)
    then show ?thesis
      using False memcmp_not_common_alignment_scan [OF surrounding_words [OF r(1) False] aligned_words [OF r(2) assms(3)] assms(4)]
        scan_bytes [of mem s1 s2 n 0] n by (simp add: OPSIZ_def)
  qed
qed

lemma align_loop_ok:
  assumes "readable mem s1 n" "readable mem s2 n" "k < f" "k \<le> n" "(s2 + of_nat k) mod 8 = 0" "\<forall>i < k. (s2 + of_nat i) mod 8 \<noteq> 0"
  shows "align_loop f mem s1 s2 len = Some
    (if block mem s1 k = block mem s2 k then Inr (s1 + of_nat k, s2 + of_nat k, len - of_nat k)
     else Inl (byte_diff (block mem s1 k) (block mem s2 k)))"
  using assms
proof (induction f arbitrary: k s1 s2 n len)
  case (Suc f)
  show ?case
  proof (cases k)
    case 0
    then show ?thesis using Suc.prems(5) by (simp add: OPSIZ_def)
  next
    case k: (Suc k')
    obtain n' where n': "n = 1 + n'" using Suc.prems(4) k by (cases n) auto
    obtain x y where b: "mem s1 = Some x" "mem s2 = Some y"
      using readable_byte [OF Suc.prems(1), of 0] readable_byte [OF Suc.prems(2), of 0] n' by auto
    have "s2 mod 8 \<noteq> 0" using Suc.prems(6) [rule_format, of 0] k by simp
    moreover have "align_loop f mem (s1 + 1) (s2 + 1) (len - 1) = Some
      (if block mem (s1 + 1) k' = block mem (s2 + 1) k' then Inr (s1 + 1 + of_nat k', s2 + 1 + of_nat k', len - 1 - of_nat k')
       else Inl (byte_diff (block mem (s1 + 1) k') (block mem (s2 + 1) k')))"
    proof (rule Suc.IH)
      show "readable mem (s1 + 1) n'" "readable mem (s2 + 1) n'"
        using readable_drop [of mem _ 1 n'] Suc.prems(1,2) n' by auto
      show "k' < f" "k' \<le> n'" using Suc.prems(3,4) k n' by simp_all
      show "(s2 + 1 + of_nat k') mod 8 = 0" using Suc.prems(5) k by (simp add: algebra_simps)
      show "\<forall>i < k'. (s2 + 1 + of_nat i) mod 8 \<noteq> 0"
        using Suc.prems(6) [rule_format, of "Suc i" for i] k by (simp add: algebra_simps)
    qed
    moreover have "s + 1 + of_nat k' = s + of_nat k" "l - 1 - of_nat k' = l - of_nat k" for s l :: u64 using k by (simp_all add: algebra_simps)
    ultimately show ?thesis using b
      by (simp add: k OPSIZ_def byte_at_def block_Suc byte_difference Let_def del: of_nat_Suc)
  qed
qed simp

lemma tail_loop_ok:
  assumes "readable mem s1 (unat len)" "readable mem s2 (unat len)"
  shows "tail_loop mem s1 s2 len = Some (byte_diff (block mem s1 (unat len)) (block mem s2 (unat len)))"
  using assms
proof (induction mem s1 s2 len rule: tail_loop.induct)
  case (1 mem s1 s2 len)
  show ?case
  proof (cases "len = 0")
    case False
    obtain n' where n': "unat len = 1 + n'" "n' = unat (len - 1)" using False by (auto simp: unat_minus_one unat_gt_0)
    obtain x y where b: "mem s1 = Some x" "mem s2 = Some y"
      using readable_byte [OF "1.prems"(1), of 0] readable_byte [OF "1.prems"(2), of 0] n' by auto
    have r: "readable mem (s1 + 1) (unat (len - 1))" "readable mem (s2 + 1) (unat (len - 1))"
      using readable_drop [of mem _ 1 n'] "1.prems" n' by auto
    have "tail_loop mem (s1 + 1) (s2 + 1) (len - 1) =
        Some (byte_diff (block mem (s1 + 1) (unat (len - 1))) (block mem (s2 + 1) (unat (len - 1))))" if "x = y"
      using b that by (intro "1.IH" [OF False _ _ refl _ r, of "ucast x" "ucast y"]) (simp_all add: byte_at_def)
    moreover have "unat len = Suc (unat (len - 1))" using n' by simp
    ultimately show ?thesis using False b
      by (subst tail_loop.simps) (auto simp: byte_at_def block_Suc byte_difference Let_def)
  qed (simp add: tail_loop.simps)
qed

lemma readable_take: "readable mem s n \<Longrightarrow> m \<le> n \<Longrightarrow> readable mem s m"
  by (simp add: readable_def)

text \<open>The bytes up to the next aligned address.\<close>

lemma align_nat:
  fixes a :: nat
  defines "k \<equiv> (8 - a mod 8) mod 8"
  shows "(a + k) mod 8 = 0" "i < k \<Longrightarrow> (a + i) mod 8 \<noteq> 0"
proof -
  define r where "r = a mod 8"
  have r: "r < 8" by (simp add: r_def)
  have e: "(a + j) mod 8 = (r + j) mod 8" for j by (simp add: r_def mod_add_left_eq)
  have k: "k = (if r = 0 then 0 else 8 - r)" using r by (simp add: k_def flip: r_def)
  show "(a + k) mod 8 = 0" "i < k \<Longrightarrow> (a + i) mod 8 \<noteq> 0" unfolding e k using r by (auto split: if_splits)
qed

lemma align_count:
  fixes s :: u64
  defines "k \<equiv> (8 - unat s mod 8) mod 8"
  shows "k < 8" "(s + of_nat k) mod 8 = 0" "\<forall>i < k. (s + of_nat i) mod 8 \<noteq> 0"
proof -
  show "k < 8" by (simp add: k_def)
  have "(unat s + k) mod 8 = 0" unfolding k_def by (rule align_nat)
  then have "unat ((s + of_nat k) mod 8) = 0" by (simp only: unat_mod_8)
  then show "(s + of_nat k) mod 8 = 0" by (simp only: unat_eq_0)
  have "(unat s + i) mod 8 \<noteq> 0" if "i < k" for i using that unfolding k_def by (rule align_nat)
  then have "unat ((s + of_nat i) mod 8) \<noteq> 0" if "i < k" for i unfolding unat_mod_8 using that by blast
  then show "\<forall>i < k. (s + of_nat i) mod 8 \<noteq> 0" by (metis unat_0)
qed

lemma of_int_diff_zero: "(of_int (byte_diff xs ys) :: u64) = 0 \<longleftrightarrow> byte_diff xs ys = 0"
  using to_int_small [of "byte_diff xs ys"] byte_diff_range [of xs ys] by (auto simp: to_int_def)

lemma after_alignment:
  assumes r: "readable mem s1 (unat len)" "readable mem s2 (unat len)" and "s2 mod 8 = 0"
  shows "do {
      res \<leftarrow> (if s1 mod OPSIZ = 0 then memcmp_common_alignment mem s1 s2 (len div OPSIZ)
             else memcmp_not_common_alignment mem s1 s2 (len div OPSIZ));
      let res = (of_int res :: u64);
      if res \<noteq> 0 then Some (to_int res)
      else tail_loop mem (s1 + (len AND - OPSIZ)) (s2 + (len AND - OPSIZ)) (len mod OPSIZ)
    } = Some (byte_diff (block mem s1 (unat len)) (block mem s2 (unat len)))"
proof -
  define w where "w = unat len div 8"
  define b where "b = unat len mod 8"
  have n: "unat len = 8 * w + b" by (simp add: w_def b_def)
  have w: "w < 2 ^ 61" using unsigned_less [of len, where 'a = nat] by (simp add: w_def)
  have div: "len div 8 = of_nat w" "len mod 8 = of_nat b"
    using w by (simp_all add: word_unat_eq_iff unat_div_distrib unat_mod_distrib unat_of_nat w_def b_def)
  have b: "unat (of_nat b :: u64) = b" by (simp add: unat_of_nat b_def)
  have "len = of_nat (8 * w + b)" unfolding n [symmetric] by simp
  then have masked: "len AND - 8 = of_nat (8 * w)" unfolding and_opsiz(1) div(2) by (simp add: diff_eq_eq)
  have "readable mem s1 (8 * w)" "readable mem s2 (8 * w)" using r n by (auto intro: readable_take)
  note words = compare_words [OF this assms(3) w]
  have "readable mem (s1 + of_nat (8 * w)) (unat (of_nat b :: u64))" "readable mem (s2 + of_nat (8 * w)) (unat (of_nat b :: u64))"
    using r n readable_drop [of mem _ "8 * w" b] unfolding b by auto
  note tail = tail_loop_ok [OF this, unfolded b]
  let ?x = "block mem s1 (8 * w)" and ?y = "block mem s2 (8 * w)"
  have zero: "byte_diff ?x ?y = 0 \<longleftrightarrow> ?x = ?y" by (rule byte_diff_zero) simp
  have cmp: "(if s1 mod OPSIZ = 0 then memcmp_common_alignment mem s1 s2 (len div OPSIZ)
      else memcmp_not_common_alignment mem s1 s2 (len div OPSIZ)) = Some (byte_diff ?x ?y)"
    using words by (simp only: OPSIZ_def div)
  show ?thesis
    unfolding cmp n block_append byte_diff_append [OF trans [OF length_block length_block [symmetric]]]
    using tail zero to_int_small [of "byte_diff ?x ?y"] byte_diff_range [of ?x ?y]
    by (simp add: OPSIZ_def div masked of_int_diff_zero Let_def del: of_nat_mult)
qed

section \<open>Properties\<close>

definition demo_mem :: memory where
  "demo_mem a = Some (if a = 1020 then 9 else 7)"

text \<open>
  C38. The replacement of \<open>memcmp\<close> returns the difference of the first bytes that differ, 0 for equal
  blocks, for blocks of every length at all addresses, whatever their alignment. It ends, reads words only
  at aligned addresses, and only words that have a byte of the block in them.
\<close>

theorem rpl_memcmp_correct:
  assumes r: "readable mem s1 (unat len)" "readable mem s2 (unat len)"
  shows "rpl_memcmp mem s1 s2 len = Some (byte_diff (block mem s1 (unat len)) (block mem s2 (unat len)))"
proof (cases "len \<ge> OP_T_THRES")
  case True
  define k where "k = (8 - unat s2 mod 8) mod 8"
  note k = align_count [of s2, folded k_def]
  have "16 \<le> unat len" using True by (simp add: OP_T_THRES_def word_le_nat_alt)
  then have kn: "unat len = k + (unat len - k)" "unat (len - of_nat k) = unat len - k"
    using k(1) unat_sub [of "of_nat k" len] by (simp_all add: word_le_nat_alt unat_of_nat)
  have a: "align_loop 8 mem s1 s2 len = Some
    (if block mem s1 k = block mem s2 k then Inr (s1 + of_nat k, s2 + of_nat k, len - of_nat k)
     else Inl (byte_diff (block mem s1 k) (block mem s2 k)))"
    using k kn by (intro align_loop_ok [OF r]) auto
  have "readable mem (s1 + of_nat k) (unat (len - of_nat k))" "readable mem (s2 + of_nat k) (unat (len - of_nat k))"
    using r kn readable_drop [of mem _ k "unat len - k"] by auto
  note rest = after_alignment [OF this k(2)]
  have "block mem s (unat len) = block mem s k @ block mem (s + of_nat k) (unat (len - of_nat k))" for s
    using block_append [of mem s k "unat len - k"] kn by simp
  then show ?thesis
    using True rest unfolding rpl_memcmp_def a by (simp add: byte_diff_append)
next
  case False
  then show ?thesis using tail_loop_ok [OF r] by (simp add: rpl_memcmp_def)
qed

theorem rpl_memcmp_correct_witness: "rpl_memcmp demo_mem 3 1001 40 = Some (- 2)"
proof -
  have "readable demo_mem s n" for s n by (simp add: readable_def demo_mem_def)
  moreover have "byte_diff (block demo_mem 3 40) (block demo_mem 1001 40) = - 2" by code_simp
  ultimately show ?thesis using rpl_memcmp_correct [of demo_mem 3 40 1001] by simp
qed

end
