(* ===== verification/System_Shims.thy ===== *)
theory System_Shims
  imports Memcmp
begin

text \<open>
  The border to the operating system: the replacements of C library functions in \<open>lib/\<close> for systems
  that lack them (\<open>memcmp\<close> has its own theory), the messages of \<open>src/logger.c\<close> and the recursive
  removal of a directory of \<open>src/utils.c\<close>. What the system answers is an argument: \<open>Inl\<close> is an error
  with its number.
\<close>

section \<open>Replacements of C library functions\<close>

definition ENOMEM :: int where "ENOMEM = 12"
definition ENOTDIR :: int where "ENOTDIR = 20"
definition EIO :: int where "EIO = 5"

text \<open>\<open>memset\<close> stores byte by byte.\<close>

fun memset :: "bytes \<Rightarrow> nat \<Rightarrow> u8 \<Rightarrow> nat \<Rightarrow> bytes option" where
  "memset m st c 0 = Some m"
| "memset m st c (Suc len) = do {m \<leftarrow> store m st [c]; memset m (st + 1) c len}"

text \<open>\<open>strdup\<close>: the buffer holds the string, its terminator and what lies behind; \<open>malloc\<close> says for a size
  whether there is memory.\<close>

definition strdup :: "(nat \<Rightarrow> bool) \<Rightarrow> string \<Rightarrow> string option" where
  "strdup malloc s = (let len = length (cstr_of s) + 1 in if malloc len then Some (take len s) else None)"

text \<open>\<open>malloc\<close> for systems where it returns null for the size zero or does not set \<open>errno\<close>.\<close>

definition rpl_malloc :: "bool \<Rightarrow> bool \<Rightarrow> (nat \<Rightarrow> 'p option) \<Rightarrow> int \<Rightarrow> nat \<Rightarrow> 'p option \<times> int" where
  "rpl_malloc need_gnu have_posix malloc errno n =
     (let n = (if need_gnu \<and> n = 0 then 1 else n);
          result = malloc n
      in (result, if \<not> have_posix \<and> result = None then ENOMEM else errno))"

datatype fkind = F_reg | F_dir | F_lnk

text \<open>The results are the return value and \<open>errno\<close>. The loop waits for other children first; it does
  not end when the child is never reported.\<close>

fun wait_for :: "int \<Rightarrow> (int \<times> int) list \<Rightarrow> int option" where
  "wait_for cpid [] = None"
| "wait_for cpid ((pid, status) # ws) = (if pid = cpid then Some status else wait_for cpid ws)"

definition rmdir :: "int + fkind \<Rightarrow> int + int \<Rightarrow> (int \<times> int) list \<Rightarrow> int \<Rightarrow> (int \<times> int) option" where
  "rmdir stat fork waits errno =
     (case stat of
        Inl e \<Rightarrow> Some (-1, e)
      | Inr k \<Rightarrow>
          if k \<noteq> F_dir then Some (-1, ENOTDIR)
          else (case fork of
                  Inl e \<Rightarrow> Some (-1, e)
                | Inr cpid \<Rightarrow>
                    (case wait_for cpid waits of
                       None \<Rightarrow> None
                     | Some status \<Rightarrow> if status \<noteq> 0 then Some (-1, EIO) else Some (0, errno))))"

definition rpl_lstat :: "int + fkind \<Rightarrow> int + fkind \<Rightarrow> int \<Rightarrow> string \<Rightarrow> int \<times> int \<times> fkind option" where
  "rpl_lstat lstat stat errno file =
     (case lstat of
        Inl e \<Rightarrow> (-1, e, None)
      | Inr k \<Rightarrow>
          if k \<noteq> F_lnk then (0, errno, Some k)
          else if file = [] \<or> last file \<noteq> slash then (0, errno, Some k)
          else (case stat of
                  Inl e \<Rightarrow> (-1, e, Some k)
                | Inr k \<Rightarrow> if k = F_dir then (0, errno, Some k) else (-1, ENOTDIR, Some k)))"

section \<open>Messages\<close>

text \<open>\<open>vfprintf\<close> gets the formatted text; the results are the returned number and what is printed to
  standard error.\<close>

definition log_message :: "int \<Rightarrow> int \<Rightarrow> (string \<Rightarrow> int) \<Rightarrow> string \<Rightarrow> int \<times> string" where
  "log_message level loglevel vfprintf msg = (if loglevel < level then (0, []) else (vfprintf msg, msg))"

definition L0 :: "int \<Rightarrow> (string \<Rightarrow> int) \<Rightarrow> string \<Rightarrow> int \<times> string" where "L0 = log_message 0"
definition L1 :: "int \<Rightarrow> (string \<Rightarrow> int) \<Rightarrow> string \<Rightarrow> int \<times> string" where "L1 = log_message 1"
definition L2 :: "int \<Rightarrow> (string \<Rightarrow> int) \<Rightarrow> string \<Rightarrow> int \<times> string" where "L2 = log_message 2"
definition LDEBUG :: "int \<Rightarrow> (string \<Rightarrow> int) \<Rightarrow> string \<Rightarrow> int \<times> string" where "LDEBUG = log_message 3"

section \<open>Removing a directory\<close>

text \<open>
  A file system tree; a link is a leaf whatever it points to. \<open>opens\<close> and \<open>removes\<close> say for a path
  whether a directory can be opened and whether an entry can be removed. A directory is removed when
  it is empty. What is left of the tree is returned, \<open>None\<close> if nothing is.
\<close>

datatype ftree = Reg | Lnk | Dir "(string \<times> ftree) list"

fun utils_rrmdir :: "(string \<Rightarrow> bool) \<Rightarrow> (string \<Rightarrow> bool) \<Rightarrow> string \<Rightarrow> bool \<Rightarrow> ftree \<Rightarrow> ftree option"
  and rrmdir_entries :: "(string \<Rightarrow> bool) \<Rightarrow> (string \<Rightarrow> bool) \<Rightarrow> string \<Rightarrow> (string \<times> ftree) list \<Rightarrow> (string \<times> ftree) list"
where
  "utils_rrmdir opens removes path remove_dir (Dir es) =
     (if \<not> opens path then Some (Dir es)
      else (let es = rrmdir_entries opens removes path es
            in if remove_dir \<and> es = [] \<and> removes path then None else Some (Dir es)))"
| "utils_rrmdir opens removes path remove_dir t = Some t"
| "rrmdir_entries opens removes path [] = []"
| "rrmdir_entries opens removes path ((name, t) # es) =
     (let fpath = path @ [slash] @ name;
          left = (if name = ''.'' \<or> name = ''..'' then Some t
                  else (case t of
                          Dir _ \<Rightarrow> utils_rrmdir opens removes fpath True t
                        | _ \<Rightarrow> if removes fpath then None else Some t));
          rest = rrmdir_entries opens removes path es
      in case left of None \<Rightarrow> rest | Some t \<Rightarrow> (name, t) # rest)"

section \<open>Facts\<close>

lemma memset_stores: "st + len \<le> length m \<Longrightarrow> memset m st c len = Some (upd m st (replicate len c))"
proof (induction len arbitrary: m st)
  case (Suc len)
  then have "memset m st c (Suc len) = Some (upd (upd m st [c]) (st + 1) (replicate len c))" by (simp add: mem)
  also have "upd (upd m st [c]) (st + 1) (replicate len c) = upd m st (replicate (Suc len) c)"
    using Suc.prems by (simp add: upd_def add.commute)
  finally show ?case .
qed (simp add: upd_def)

text \<open>A copy of the string with its terminator, if there is memory.\<close>

lemma strdup_copies: "nul \<in> set s \<Longrightarrow> strdup malloc s = (if malloc (length (cstr_of s) + 1) then Some (cstr_of s @ [nul]) else None)"
proof -
  assume "nul \<in> set s"
  then have d: "dropWhile (\<lambda>c. c \<noteq> nul) s \<noteq> []" "hd (dropWhile (\<lambda>c. c \<noteq> nul) s) = nul"
    using hd_dropWhile [of "\<lambda>c. c \<noteq> nul" s] by auto
  have "take (length (cstr_of s) + 1) s = cstr_of s @ take 1 (dropWhile (\<lambda>c. c \<noteq> nul) s)"
    unfolding cstr_of_def by (metis append_eq_conv_conj take_add takeWhile_dropWhile_id)
  then show ?thesis using d by (cases "dropWhile (\<lambda>c. c \<noteq> nul) s") (simp_all add: strdup_def Let_def)
qed

text \<open>With enough memory the replaced \<open>malloc\<close> never returns null, also for the size zero; when it does,
  \<open>errno\<close> says so.\<close>

lemma rpl_malloc_zero: "(\<forall>k > 0. malloc k \<noteq> None) \<Longrightarrow> fst (rpl_malloc True posix malloc errno n) \<noteq> None"
  by (simp add: rpl_malloc_def Let_def)

lemma rpl_malloc_errno: "fst (rpl_malloc gnu False malloc errno n) = None \<Longrightarrow> snd (rpl_malloc gnu False malloc errno n) = ENOMEM"
  by (simp add: rpl_malloc_def Let_def)

text \<open>A link named with a slash at the end is looked through, and must lead to a directory.\<close>

lemma rpl_lstat_slash:
  "fst (rpl_lstat (Inr F_lnk) stat errno (p @ [slash])) = 0 \<longleftrightarrow> stat = Inr F_dir"
  by (simp add: rpl_lstat_def split: sum.split)

lemma rmdir_success:
  "rmdir stat fork waits errno = Some (0, e) \<longleftrightarrow>
     stat = Inr F_dir \<and> (\<exists>cpid. fork = Inr cpid \<and> wait_for cpid waits = Some 0) \<and> e = errno"
  by (auto simp: rmdir_def split: sum.splits option.splits if_splits)

text \<open>A higher level never prints more, and debug messages come with everything else.\<close>

lemma log_levels: "snd (LDEBUG l v msg) \<noteq> [] \<Longrightarrow> snd (L2 l v msg) = msg \<and> snd (L1 l v msg) = msg \<and> snd (L0 l v msg) = msg"
  by (auto simp: LDEBUG_def L2_def L1_def L0_def log_message_def split: if_splits)

fun no_dots :: "ftree \<Rightarrow> bool" where
  "no_dots (Dir es) \<longleftrightarrow> (\<forall>(name, t) \<in> set es. name \<noteq> ''.'' \<and> name \<noteq> ''..'' \<and> no_dots t)"
| "no_dots _ \<longleftrightarrow> True"

text \<open>Where nothing is refused, the whole directory is removed, however deep, and links with it.\<close>

lemma utils_rrmdir_all:
  "no_dots t \<Longrightarrow> utils_rrmdir (\<lambda>_. True) (\<lambda>_. True) path rd t =
     (case t of Dir es \<Rightarrow> if rd then None else Some (Dir []) | _ \<Rightarrow> Some t)"
  "no_dots (Dir es) \<Longrightarrow> rrmdir_entries (\<lambda>_. True) (\<lambda>_. True) path es = []"
  by (induction "\<lambda>_ :: string. True" "\<lambda>_ :: string. True" path rd t and "\<lambda>_ :: string. True" "\<lambda>_ :: string. True" path es
      rule: utils_rrmdir_rrmdir_entries.induct) (auto split: ftree.split option.split)

text \<open>What cannot be opened stays as it is, and what is left is no more than what was there.\<close>

lemma rrmdir_entries_names: "fst ` set (rrmdir_entries opens removes path es) \<subseteq> fst ` set es"
proof (induction es)
  case (Cons e es)
  obtain name t where e: "e = (name, t)" by fastforce
  have "fst ` set (rrmdir_entries opens removes path (e # es)) \<subseteq> insert name (fst ` set (rrmdir_entries opens removes path es))"
    unfolding e rrmdir_entries.simps Let_def by (simp split: option.split) blast
  then show ?case using Cons.IH e by auto
qed simp

end
