(* ===== verification/Spec2Isabelle.thy ===== *)
theory Spec2Isabelle
  imports Program Self_Test Dump_Loop Snappy System_Shims
begin

text \<open>
  A verification development of rsvndump, a program that writes the history of a remote Subversion
  repository, or of a directory of it, to standard output in the dump file format.

  \<^bold>\<open>The program and its model.\<close> \<open>main\<close> reads the command line, opens the session and calls \<open>dump\<close>. For
  every revision \<open>dump\<close> fetches the log entry, prints the revision record and lets the Subversion library
  drive the delta editor over the difference to the revision before. The editor collects the difference in
  a tree of nodes, asks the path repository which paths existed in which revision and the property storage
  which properties a path had, and prints the node records when the edit is closed. Path repository and
  property storage keep compressed data in a key-value store; the path repository has its current tree in a
  crit-bit tree. The theories follow the source files:

  \<^item> \<open>Prelude\<close>: bytes, C strings, decimal numbers. \<open>Interfaces\<close>: the contracts between the components as
    locales (\<open>string_set\<close>, \<open>hash_map\<close>, \<open>kv_store\<close>), each interpreted on the model of its provider.
  \<^item> \<open>Critbit\<close> (\<open>lib/critbit89/critbit.c\<close>), \<open>Rhash\<close> (\<open>src/rhash.c\<close>), \<open>Mukv\<close> (\<open>src/mukv.c\<close>): the data
    structures. \<open>Types\<close> (\<open>dump.h\<close>, \<open>log.h\<close>, parts of \<open>delta.c\<close> and \<open>utils.c\<close>): what the components exchange.
  \<^item> \<open>Snappy_Memory\<close>, \<open>Snappy_Compress\<close>, \<open>Snappy_Blocks\<close>, \<open>Snappy_Uncompress\<close>, \<open>Snappy_Decode\<close> and
    \<open>Snappy\<close> (\<open>lib/snappy-c/snappy.c\<close>): the compressor, with the format of compressed data as specification.
  \<^item> \<open>Path_Repo\<close> (\<open>src/path_repo.c\<close>) and \<open>Property\<close> (\<open>src/property.c\<close>): the two storages; \<open>Self_Test\<close>: the self test of
    the first that debug builds have.
  \<^item> \<open>Session\<close> (\<open>src/session.c\<close>, path helpers of \<open>src/utils.c\<close>) and \<open>Log\<close> (\<open>src/log.c\<close>).
  \<^item> \<open>Delta\<close> (\<open>src/delta.c\<close>): the editor. \<open>Delta_Records\<close> says what it prints, \<open>Delta_Safety\<close> that closing an
    edit is safe and complete, and \<open>Drive\<close> turns the calls of an edit into a state machine.
  \<^item> \<open>Dump\<close> (\<open>src/dump.c\<close>): the main loop. \<open>Dump_Stream\<close> has a loader of dump files and follows a whole edit
    through it, \<open>Dump_Loop\<close> the whole dump.
  \<^item> \<open>Program\<close> (\<open>src/main.c\<close>, \<open>src/utils.c\<close>): command line and entry point. \<open>Memcmp\<close> (\<open>lib/memcmp.c\<close>) and
    \<open>System_Shims\<close> (the other replacements in \<open>lib/\<close>, \<open>src/logger.c\<close>, \<open>utils_rrmdir\<close>).
  \<^item> This theory puts them together: from the command line to the output.

  \<^bold>\<open>State and effects.\<close> A struct is a record, a tagged pointer a datatype, an APR hash an association list.
  Node batons and property references are addresses (indexes of a list, or of a heap where objects are freed),
  since their sharing matters. Standard output is a string in the state of the editor, the record \<open>de\<close>, which is
  the state that all callbacks share. What comes from elsewhere is a parameter: the Subversion functions
  (\<open>server\<close>, \<open>ra\<close>, fields of \<open>env\<close> and of \<open>world\<close>), MD5, \<open>rand\<close>, the outcome of allocations and of system
  calls. The program reads two strings after their pool is gone, the UUID and the name of the temporary
  directory: such a pointer is of type \<open>freed\<close>, and \<open>env_stale\<close> says what a read through it gives, any text or a
  refused access. The hypotheses on the parameters are named: \<open>server_clean\<close> (no newlines in paths, the documented actions,
  revision properties below 2 GiB), \<open>uuid_line\<close> (what the UUID reads as holds no newline),
  \<open>server_forward\<close> (log entries from the asked revision on), \<open>server_logs\<close> (the log from revision 0 on begins there),
  \<open>serves\<close> (the answers of the server for a tree of directories), \<open>rand_fair\<close> (the random generator comes up with enough names),
  \<open>mem_enough\<close> and \<open>seeks\<close> (allocations and positioning succeed), \<open>inj_on md5 D\<close> (no collision on the stored data)
  and \<open>codec_ok cdc D\<close> (the compressor undoes itself on the stored data). The last holds of \<open>codec_none\<close> for all data
  and of \<open>codec_snappy\<close> for all data below 2 GiB, which \<open>Snappy\<close> proves from the code. Where the source keeps a length in an \<open>int\<close>,
  the model converts it to 32 bits (\<open>c_int\<close>), and the theorems name the bound.

  \<^bold>\<open>Failure.\<close> Errors of the source are values: status codes with the source's numbers, or the error of the
  editor. \<open>None\<close> stands for what C does not define or what stops the program: a null or dangling pointer, a read or
  write outside of a buffer, a failed assertion, a double free. A theorem that gives a result \<open>Some\<close> therefore
  says that none of this happens. In \<open>dump\<close> and \<open>main\<close>, where \<open>None\<close> is the end of the fuel, it is the result \<open>Undefined\<close>, and
  \<open>Past_logs\<close> is a read outside of the list of logs.

  \<^bold>\<open>Fuel.\<close> Loops that end by themselves are recursive functions with termination proofs. Fuel is used in these
  places. \<open>dump\<close> and \<open>main\<close> have fuel for the rounds of the main loop, one per revision; \<open>None\<close> means that it is
  used up, and \<open>dump_ends\<close> shows that finitely many rounds are enough and that the list of logs is not left.
  \<open>env_fuel\<close> bounds the drawing of names in \<open>session_make_obfuscated\<close>, which the source repeats until a name
  is free, and the recursion over the directories of the server in \<open>pr_fetch_paths\<close>; where the dump runs into it, its result
  is \<open>Undefined\<close>, too. \<open>session_obfuscate_consistent\<close> and \<open>pr_fetch_paths_listed\<close> show how much is enough. Closing an edit has fuel for one level per node, which \<open>driven_edit_closes\<close> shows to
  be enough. The loops of the compressor have fuel for every byte of the block, those of the decompressor for
  every byte of the input, those of \<open>memcmp\<close> for every word: the theorems give results \<open>Some\<close>, so it is enough.

  \<^bold>\<open>What is shown.\<close> The output of a successful run is a well-formed dump file that a loader reads to its end,
  with consecutive revision numbers (\<open>main_prints_dump\<close>, \<open>dump_readable\<close>), and the run ends (\<open>dump_ends\<close>). Every state
  an edit can reach keeps the shape of the node tree, and closing the edit prints a record for every node
  that needs one, with exact lengths (\<open>driven_invariant\<close>, \<open>driven_edit_closes\<close>, \<open>de_close_edit_readable\<close>,
  \<open>delta_dump_node_prints\<close>). The path repository refines a map from revisions to sets of paths
  (\<open>path_repo_exists_correct\<close> and the refinement lemmas of the single operations), under conditions that the program does
  not always keep to; what happens then is shown on examples (\<open>path_repo_stale_cache\<close>, \<open>path_repo_skipped_snapshot\<close>,
  \<open>path_repo_delete_absent\<close>, \<open>path_repo_root_copy\<close>, \<open>delta_len_wraps\<close>). The property storage refines a map from
  paths to properties, without use of freed memory. Snappy compresses and uncompresses without
  leaving its buffers: every input below 2 GiB comes back (\<open>snappy_roundtrip\<close>), and on arbitrary data the
  decompressor implements the format (\<open>snappy_uncompress_correct\<close>). The crit-bit tree is a set in \<open>strcmp\<close> order, the
  key-value store a map, the obfuscation injective and consistent. Optimised routines equal their plain counterparts
  (\<open>find_match_length_equiv\<close>, \<open>incremental_copy_equiv\<close>, \<open>rpl_memcmp_correct\<close>). Some further theorems state what the code
  does although it is not meant (\<open>stop_option_early\<close>, \<open>parse_revnum_single\<close>, \<open>main_open_failure\<close>, \<open>dump_head_incremental\<close>).

  \<^bold>\<open>Not modelled.\<close> Pools and the freeing of memory outside of the property storage and the two strings above; progress and error messages,
  of which only the texts that \<open>utils_handle_error\<close> and the help print are kept; timing; Windows; the scatter-gather variant of snappy, which the build does not compile; big endian
  machines; the macros of \<open>gettext.h\<close>. The Subversion library, APR and MD5 are parameters.
\<close>

section \<open>The whole program\<close>

definition start_prog :: "world \<Rightarrow> prog" where
  "start_prog w =
     \<lparr>m_session = session_create (w_rand w), m_opts = dump_options_create, m_loglevel = 0, m_argv = [], m_out = []\<rparr>"

lemma start_prog_no_dry: "no_dry (start_prog w)"
  by (simp add: no_dry_def start_prog_def dump_options_create_def)

lemma main_parsed:
  assumes "w_cmdline_init w" "parse_args (w_is_url w) args (start_prog w) = Arg_next p"
  shows "main fuel w args = main_run fuel w p" "m_out p = []" "no_dry p"
  using assms parse_args_keeps [OF assms(2)] start_prog_no_dry [of w] by (simp_all add: main_def start_prog_def)

lemma session_set_prefix_flags:
  "session_set_prefix fuel s eu r = Some s' \<Longrightarrow> sflags s AND SF_OBFUSCATE = 0 \<Longrightarrow> sflags s' = sflags s"
  by (auto simp: session_set_prefix_def session_obfuscate_def Let_def split: option.splits)

lemma session_open_flags:
  assumes "session_open svn fuel s = Some (rc, s')" "sflags s AND SF_OBFUSCATE = 0"
  shows "sflags s' = sflags s"
  using assms session_set_prefix_flags [of fuel "s\<lparr>encoded_url := e, ses_root := r\<rparr>" for e r]
  by (fastforce simp: session_open_def Let_def split: option.splits if_splits)

text \<open>Worlds to run the program in: one where the repository can be opened, and one where not.\<close>

definition demo_world :: "bool \<Rightarrow> world" where
  "demo_world opens =
     \<lparr>w_cmdline_init = True, w_is_url = (\<lambda>_. True), w_tmpdir = None, w_mkdtemp = (\<lambda>_. Some ''/t''),
      w_svn = Session.demo_setup\<lparr>svn_client_open_ra_session := (\<lambda>_. opens), svn_ra_get_repos_root := Some ''file:///r''\<rparr>,
      w_rand = (\<lambda>n. n), w_env = demo_env, w_server = demo_server\<rparr>"

definition demo_args :: "string list" where
  "demo_args = [''-r'', ''1:1'', ''file:///r'']"

definition demo_parsed :: prog where
  "demo_parsed = (case parse_args (\<lambda>_. True) demo_args (start_prog (demo_world True)) of Arg_next p \<Rightarrow> p)"

lemma demo_parse: "parse_args (w_is_url (demo_world b)) demo_args (start_prog (demo_world b)) = Arg_next demo_parsed"
proof -
  have s: "start_prog (demo_world b) = start_prog (demo_world True)" "w_is_url (demo_world b) = (\<lambda>_. True)"
    by (simp_all add: start_prog_def demo_world_def)
  have "(case parse_args (\<lambda>_. True) demo_args (start_prog (demo_world True)) of Arg_next p \<Rightarrow> True | _ \<Rightarrow> False)" by code_simp
  then show ?thesis unfolding s demo_parsed_def by (simp split: arg_result.splits)
qed

lemma demo_parsed_ok: "url (m_session demo_parsed) \<noteq> None" "sflags (m_session demo_parsed) AND SF_OBFUSCATE = 0"
  "opt_prefix (m_opts demo_parsed) = None"
  by code_simp+

text \<open>
  C1. From the command line to the output: when the program accepts its arguments, opens the session and exits
  with status 0, then standard output is a well-formed dump file and nothing else, which a loader
  reads to its end and whose revisions are numbered consecutively. The directory that it removes at the end is the one
  whose name the freed memory of the name of the temporary directory then holds. Obfuscation must be off, the prefix and the
  server's paths free of newlines, the revision properties below 2 GiB, and the freed memory that the UUID is printed from must not hold a newline.
\<close>

theorem main_prints_dump:
  assumes "w_cmdline_init w" "parse_args (w_is_url w) args (start_prog w) = Arg_next p" "url (m_session p) \<noteq> None"
    "session_open (w_svn w) (env_fuel (w_env w)) (m_session p) = Some (0, s)"
    "main fuel w args = Some (Val (0, out, removed))"
    "sflags (m_session p) AND SF_OBFUSCATE = 0" "prefix_line (m_opts p)" "server_clean (w_server w)"
    "uuid_line (w_env w) (w_server w)" "\<forall>m. line_ok (md5_to_cstring (w_env w) m)"
  shows "(\<exists>dir. main_temp_dir w = Some dir \<and> removed = env_stale (w_env w) (Freed dir)) \<and>
    (\<exists>rs a n. load_recs (length out) out = Some rs \<and> list_all item_ok rs \<and> a \<le> n \<and>
      List.map_filter rev_number rs = map dec_int [a..n - 1])"
proof -
  note m = main_parsed(1) [OF assms(1,2), of fuel] main_parsed(2,3) [OF assms(1,2)]
  obtain dir d where dir: "main_temp_dir w = Some dir" "removed = env_stale (w_env w) (Freed dir)"
    and d: "dump fuel (w_env w) (w_server w) (de_init s ((m_opts p)\<lparr>temp_dir := Some dir\<rparr>)) = Some (Val (0, d))"
      "out = de_out d"
    using assms(3-5) m by (auto simp: main_run_def main_finish_def split: option.splits res.splits if_splits)
  let ?d0 = "de_init s ((m_opts p)\<lparr>temp_dir := Some dir\<rparr>)"
  have "plain ?d0" using session_open_flags [OF assms(4,6)] assms(6) by (simp add: plain_def de_init_def)
  moreover have "prefix_line (de_opts ?d0)" using assms(7) by (simp add: de_init_def prefix_line_def)
  moreover have "\<not> dry ?d0" using m(3) by (simp add: dry_def has_flag_def no_dry_def de_init_def)
  moreover have "de_out ?d0 = []" by (simp add: de_init_def)
  ultimately obtain its a n where its: "de_out d = show_items its" "list_all (item_ok \<circ> fst) its" "a \<le> n"
    "List.map_filter (rev_number \<circ> fst) its = rev_range a n"
    using dump_items [OF d(1) _ _ _ assms(8-10)] by auto
  have "list_all item_ok (map fst its)" using its(2) by (simp add: list_all_iff)
  moreover have "List.map_filter rev_number (map fst its) = map dec_int [a..n - 1]"
    using its(4) by (simp add: List.map_filter_def filter_map comp_def rev_range_def)
  ultimately show ?thesis using load_items [OF its(2)] its(1,3) d(2) dir by auto
qed

theorem main_prints_dump_witness:
  "\<exists>out. main 5 (demo_world True) demo_args = Some (Val (0, out, Some ''/t'')) \<and>
    (\<exists>rs a n. load_recs (length out) out = Some rs \<and> list_all item_ok rs \<and> a \<le> n \<and> List.map_filter rev_number rs = map dec_int [a..n - 1])"
proof -
  have "map_option (map_res fst) (main 5 (demo_world True) demo_args) = Some (Val 0)" by code_simp
  then obtain out removed where out: "main 5 (demo_world True) demo_args = Some (Val (0, out, removed))"
    by (cases "the (main 5 (demo_world True) demo_args)") auto
  have "map_option fst (session_open (w_svn (demo_world True)) (env_fuel (w_env (demo_world True))) (m_session demo_parsed)) = Some 0"
    by code_simp
  then obtain s where s: "session_open (w_svn (demo_world True)) (env_fuel (w_env (demo_world True))) (m_session demo_parsed) = Some (0, s)"
    by auto
  have "prefix_line (m_opts demo_parsed)" using demo_parsed_ok(3) by (simp add: prefix_line_def)
  moreover have "main_temp_dir (demo_world True) = Some ''/t''" "env_stale (w_env (demo_world True)) (Freed ''/t'') = Some ''/t''"
    by (simp_all add: demo_world_def main_temp_dir_def demo_env_def)
  ultimately show ?thesis
    using main_prints_dump [OF _ demo_parse demo_parsed_ok(1) s out demo_parsed_ok(2)] demo_server_clean demo_uuid out
    by (auto simp: demo_world_def demo_env_def line_ok_def)
qed

text \<open>
  When the session cannot be opened the program prints nothing on standard output, and its exit
  status is 0 all the same.
\<close>

theorem main_open_failure:
  assumes "w_cmdline_init w" "parse_args (w_is_url w) args (start_prog w) = Arg_next p" "url (m_session p) \<noteq> None"
    "main_temp_dir w = Some dir" "session_open (w_svn w) (env_fuel (w_env w)) (m_session p) = Some (rc, s)" "rc \<noteq> 0"
  shows "main fuel w args = Some (Val (0, [], Some dir))"
  using main_parsed(1) [OF assms(1,2), of fuel] main_parsed(2) [OF assms(1,2)] assms(3-6) by (auto simp: main_run_def)

end
